(* ===== verification/Prelude.thy ===== *)
theory Prelude
  imports Main "HOL-Library.Sublist"
begin

text \<open>
  The prelude of the development: the faults a C program can run into, the result type that
  carries them, its sequencing operator, and the list lemmas the components share.

  Every C function that can go wrong is a function into \<^typ>\<open>'a + 'b\<close> with the fault on the
  left: an access outside an object, a read of an indeterminate value, a null dereference,
  a signed overflow, a shift by too much, a read of the wrong union member, a use of memory that
  was freed, and the process ending in \<open>exit\<close>. A component therefore never has a silent unspecified value where
  the source has undefined behaviour.
\<close>

section \<open>Faults and results\<close>

datatype cfault =
    OutOfBounds
  | Uninit
  | NullDeref
  | SignedOverflow
  | BadShift
  | WrongUnion
  | Dangling
  | Exited int

type_synonym 'a result = "cfault + 'a"

definition ebind :: "'e + 'a \<Rightarrow> ('a \<Rightarrow> 'e + 'b) \<Rightarrow> 'e + 'b" where
  "ebind m f = (case m of Inl e \<Rightarrow> Inl e | Inr x \<Rightarrow> f x)"

definition guard :: "bool \<Rightarrow> 'e \<Rightarrow> 'e + unit" where
  "guard b e = (if b then Inr () else Inl e)"

lemma ebind_simps [simp]:
  "ebind (Inl e) f = Inl e"
  "ebind (Inr x) f = f x"
  by (simp_all add: ebind_def)

lemma ebind_cong [fundef_cong]:
  "m = m' \<Longrightarrow> (\<And>x. m' = Inr x \<Longrightarrow> f x = g x) \<Longrightarrow> ebind m f = ebind m' g"
  by (cases m') auto

text \<open>What a sequence of operations that succeeded went through.\<close>

named_theorems result_inv "inversion of results"

lemma ebind_eq_Inr [result_inv]: "ebind m f = Inr y \<longleftrightarrow> (\<exists>x. m = Inr x \<and> f x = Inr y)"
  by (cases m) auto

lemma ebind_eq_Inl: "ebind m f = Inl e \<longleftrightarrow> m = Inl e \<or> (\<exists>x. m = Inr x \<and> f x = Inl e)"
  by (cases m) auto

lemma ebind_assoc: "ebind (ebind m f) g = ebind m (\<lambda>x. ebind (f x) g)"
  by (cases m) auto

lemma guard_simps [simp]:
  "guard True e = Inr ()"
  "guard False e = Inl e"
  by (simp_all add: guard_def)

lemma guard_eq_Inr [simp]: "guard b e = Inr x \<longleftrightarrow> b"
  by (simp add: guard_def)

lemma map_sum_eq_Inr [result_inv]: "map_sum f g r = Inr y \<longleftrightarrow> (\<exists>x. r = Inr x \<and> y = g x)"
  by (cases r) auto

definition faults :: "'e + 'a \<Rightarrow> bool" where
  "faults r \<longleftrightarrow> (case r of Inl _ \<Rightarrow> True | Inr _ \<Rightarrow> False)"

lemma faults_simps [simp]:
  "faults (Inl e)"
  "\<not> faults (Inr x)"
  by (simp_all add: faults_def)

text \<open>A field of the heap that may hold no value yet: reading it is a fault.\<close>

definition read_init :: "'e \<Rightarrow> 'a option \<Rightarrow> 'e + 'a" where
  "read_init e v = (case v of None \<Rightarrow> Inl e | Some x \<Rightarrow> Inr x)"

lemma read_init_simps [simp]:
  "read_init e None = Inl e"
  "read_init e (Some x) = Inr x"
  by (simp_all add: read_init_def)

lemma read_init_eq_Inr [result_inv]: "read_init e v = Inr x \<longleftrightarrow> v = Some x"
  by (cases v) auto

section \<open>Lists\<close>

lemma takeWhile_append_stop:
  "(\<And>x. x \<in> set xs \<Longrightarrow> P x) \<Longrightarrow> \<not> P y \<Longrightarrow> takeWhile P (xs @ y # ys) = xs"
  by (induction xs) auto

lemma dropWhile_append_stop:
  "(\<And>x. x \<in> set xs \<Longrightarrow> P x) \<Longrightarrow> \<not> P y \<Longrightarrow> dropWhile P (xs @ y # ys) = y # ys"
  by (induction xs) auto

lemma dropWhile_stop_Cons: "\<not> P y \<Longrightarrow> dropWhile P (y # ys) = y # ys"
  by simp

lemma length_dropWhile_less:
  "xs \<noteq> [] \<Longrightarrow> P (hd xs) \<Longrightarrow> length (dropWhile P xs) < length xs"
  by (cases xs) (auto simp: le_imp_less_Suc length_dropWhile_le)

lemma concat_filter_map_append:
  "concat (map f (filter P (xs @ ys))) = concat (map f (filter P xs)) @ concat (map f (filter P ys))"
  by simp

end
