(* ===== verification/Step_System.thy ===== *)
theory Step_System
  imports Main
begin

text \<open>
  The contracts of the concurrent components and of the formats that are read record by record.
  \<open>steps\<close> closes a step relation. A client of \<open>step_invariant\<close> carries a property along every
  interleaving; \<open>step_progress\<close> adds a measure and the absence of deadlock, from which every run ends
  and can be brought to its end. \<open>record_stream\<close> is what a reader relies on that takes one record after
  the other from a stream.
\<close>

section \<open>Step relations\<close>

inductive steps :: "('s \<Rightarrow> 's \<Rightarrow> bool) \<Rightarrow> 's \<Rightarrow> 's \<Rightarrow> bool" for step :: "'s \<Rightarrow> 's \<Rightarrow> bool" where
  Refl [intro]: "steps step s s"
| Snoc: "steps step s t \<Longrightarrow> step t u \<Longrightarrow> steps step s u"

lemma steps_one: "step s t \<Longrightarrow> steps step s t"
  by (rule steps.Snoc) (rule steps.Refl)

lemma steps_trans: "steps step t u \<Longrightarrow> steps step s t \<Longrightarrow> steps step s u"
  by (induction rule: steps.induct) (auto intro: steps.Snoc)

locale step_invariant =
  fixes step :: "'s \<Rightarrow> 's \<Rightarrow> bool"
    and inv :: "'s \<Rightarrow> bool"
  assumes inv_step: "inv s \<Longrightarrow> step s t \<Longrightarrow> inv t"
begin

lemma inv_steps: "steps step s t \<Longrightarrow> inv s \<Longrightarrow> inv t"
  by (induction rule: steps.induct) (auto intro: inv_step)

end

locale step_progress = step_invariant step inv
  for step :: "'s \<Rightarrow> 's \<Rightarrow> bool"
    and inv :: "'s \<Rightarrow> bool" +
  fixes todo :: "'s \<Rightarrow> nat"
    and final :: "'s \<Rightarrow> bool"
  assumes todo_less: "inv s \<Longrightarrow> step s t \<Longrightarrow> todo t < todo s"
    and not_blocked: "inv s \<Longrightarrow> \<not> final s \<Longrightarrow> \<exists>t. step s t"
begin

lemma can_finish: "inv s \<Longrightarrow> \<exists>t. steps step s t \<and> final t"
proof (induction "todo s" arbitrary: s rule: less_induct)
  case less
  show ?case
  proof (cases "final s")
    case False
    then obtain t where t: "step s t" using not_blocked less.prems by blast
    obtain u where "steps step t u" "final u"
      using less.hyps [OF todo_less [OF less.prems t] inv_step [OF less.prems t]] by blast
    from steps_trans [OF this(1) steps_one [of step, OF t]] this(2) show ?thesis by blast
  qed blast
qed

lemma no_endless_run:
  assumes "inv (f 0)"
  shows "\<exists>i. \<not> step (f i) (f (Suc i))"
proof (rule ccontr)
  assume "\<nexists>i. \<not> step (f i) (f (Suc i))"
  then have st: "step (f i) (f (Suc i))" for i by blast
  have inv: "inv (f i)" for i by (induction i) (auto intro: assms inv_step [OF _ st])
  have "todo (f i) + i \<le> todo (f 0)" for i
  proof (induction i)
    case (Suc i)
    then show ?case using todo_less [OF inv st, of i] by simp
  qed simp
  from this [of "Suc (todo (f 0))"] show False by simp
qed

end

section \<open>Streams of records\<close>

locale record_stream =
  fixes enc :: "'a \<Rightarrow> 'b list"
    and dec :: "'b list \<Rightarrow> ('c \<times> 'b list) option"
    and all :: "'b list \<Rightarrow> 'c list option"
    and val :: "'a \<Rightarrow> 'c"
    and ok :: "'a \<Rightarrow> bool"
  assumes dec_enc: "ok x \<Longrightarrow> dec (enc x @ r) = Some (val x, r)"
    and all_dec: "dec bs = Some (y, r) \<Longrightarrow> all bs = map_option ((#) y) (all r)"
begin

lemma all_encs:
  "list_all ok xs \<Longrightarrow> all (concat (map enc xs) @ r) = map_option ((@) (map val xs)) (all r)"
proof (induction xs)
  case Nil
  then show ?case by (simp add: option.map_ident_strong)
next
  case (Cons x xs)
  then have "all (enc x @ concat (map enc xs) @ r) = map_option ((#) (val x)) (all (concat (map enc xs) @ r))"
    by (intro all_dec dec_enc) simp
  with Cons show ?case by (simp add: option.map_comp comp_def)
qed

end

end
