(* ===== verification/CLib.thy ===== *)
theory CLib
  imports Prelude Step_System
begin

text \<open>
  The part of the C language and its library that the programs use.

  A pointer into a byte array is modelled by the bytes from the pointer to the end of the
  array (type \<open>mem\<close>), so \<open>p + 1\<close> is the tail and reading at the empty list is an access
  outside the object. A C string is such an array up to its first zero byte.
  \<open>strtol\<close> and \<open>strtoll\<close> (the same function on the LP64 targets the programs are built
  for) skip white space, take a sign and decimal digits, clamp to the 64-bit range and report
  where they stopped; \<open>nat_str\<close> and \<open>int_str\<close> are what \<open>%d\<close> and \<open>%zu\<close> print.
\<close>

section \<open>Bytes and strings\<close>

type_synonym mem = "char list"

abbreviation NUL :: char where "NUL \<equiv> CHR 0x00"
abbreviation CR :: char where "CR \<equiv> CHR 0x0D"
abbreviation LF :: char where "LF \<equiv> CHR 0x0A"
abbreviation TAB :: char where "TAB \<equiv> CHR 0x09"
abbreviation SP :: char where "SP \<equiv> CHR 0x20"

abbreviation code_of :: "char \<Rightarrow> nat" where "code_of c \<equiv> of_char c"

definition cstr :: "mem \<Rightarrow> string" where
  "cstr m = takeWhile (\<lambda>c. c \<noteq> NUL) m"

definition is_cstr :: "string \<Rightarrow> bool" where
  "is_cstr s \<longleftrightarrow> NUL \<notin> set s"

definition isdigit :: "char \<Rightarrow> bool" where
  "isdigit c \<longleftrightarrow> 48 \<le> code_of c \<and> code_of c \<le> 57"

definition isspace :: "char \<Rightarrow> bool" where
  "isspace c \<longleftrightarrow> code_of c = 32 \<or> 9 \<le> code_of c \<and> code_of c \<le> 13"

definition isalpha :: "char \<Rightarrow> bool" where
  "isalpha c \<longleftrightarrow> 65 \<le> code_of c \<and> code_of c \<le> 90 \<or> 97 \<le> code_of c \<and> code_of c \<le> 122"

definition tolower :: "char \<Rightarrow> char" where
  "tolower c = (if 65 \<le> code_of c \<and> code_of c \<le> 90 then char_of (code_of c + 32) else c)"

text \<open>\<open>strcasecmp(a, b) == 0\<close>\<close>

definition caseeq :: "string \<Rightarrow> string \<Rightarrow> bool" where
  "caseeq a b \<longleftrightarrow> map tolower a = map tolower b"

text \<open>\<open>strstr(hay, needle)\<close>: the rest of the text from the first occurrence, if any.\<close>

fun strstr :: "string \<Rightarrow> string \<Rightarrow> string option" where
  "strstr [] n = (if n = [] then Some [] else None)"
| "strstr (c # h) n = (if prefix n (c # h) then Some (c # h) else strstr h n)"

text \<open>
  \<open>fgets(buf, n, fp)\<close> on a stream of bytes: at most \<open>n - 1\<close> bytes, up to and including the
  first line feed; \<open>None\<close> at end of file.
\<close>

fun fgets_take :: "nat \<Rightarrow> mem \<Rightarrow> mem" where
  "fgets_take 0 s = []"
| "fgets_take (Suc n) [] = []"
| "fgets_take (Suc n) (c # s) = (if c = LF then [c] else c # fgets_take n s)"

definition fgets :: "nat \<Rightarrow> mem \<Rightarrow> (mem \<times> mem) option" where
  "fgets n s = (if s = [] \<or> n \<le> 1 then None
     else Some (fgets_take (n - 1) s, drop (length (fgets_take (n - 1) s)) s))"

lemma fgets_take_nonempty: "0 < n \<Longrightarrow> s \<noteq> [] \<Longrightarrow> fgets_take n s \<noteq> []"
  by (cases n; cases s) auto

function fgets_all :: "nat \<Rightarrow> mem \<Rightarrow> mem list" where
  "fgets_all n s = (case fgets n s of None \<Rightarrow> [] | Some (l, r) \<Rightarrow> l # fgets_all n r)"
  by pat_completeness auto

termination
  by (relation "measure (\<lambda>(n, s). length s)")
     (auto simp: fgets_def fgets_take_nonempty split: if_splits)

declare fgets_all.simps [simp del]

text \<open>\<open>snprintf(buf, n, ...)\<close> keeps at most \<open>n - 1\<close> bytes of what it prints.\<close>

definition snprintf :: "nat \<Rightarrow> string \<Rightarrow> string" where
  "snprintf n s = take (n - 1) s"

text \<open>\<open>%15s\<close> and the like: skip white space, then take at most \<open>n\<close> bytes up to white space or the end.\<close>

definition scan_word :: "nat \<Rightarrow> string \<Rightarrow> string \<times> string" where
  "scan_word n s =
     (let r = dropWhile isspace s; w = take n (takeWhile (\<lambda>c. \<not> isspace c) r)
      in (w, drop (length w) r))"

section \<open>Decimal numbers\<close>

definition digit_val :: "char \<Rightarrow> int" where
  "digit_val c = int (code_of c) - 48"

definition dec_val :: "string \<Rightarrow> int" where
  "dec_val ds = foldl (\<lambda>a c. 10 * a + digit_val c) 0 ds"

definition LONG_MAX :: int where "LONG_MAX = 9223372036854775807"
definition LONG_MIN :: int where "LONG_MIN = - 9223372036854775808"
definition INT_MAX :: int where "INT_MAX = 2147483647"
definition INT_MIN :: int where "INT_MIN = - 2147483648"

text \<open>The conversion of a \<open>long\<close> to \<open>int\<close> keeps the low 32 bits, in two's complement.\<close>

definition to_int :: "int \<Rightarrow> int" where
  "to_int x = (x + 2147483648) mod 4294967296 - 2147483648"

definition take_sign :: "mem \<Rightarrow> bool \<times> mem" where
  "take_sign m = (case m of
      [] \<Rightarrow> (False, [])
    | c # r \<Rightarrow> if c = CHR ''-'' then (True, r) else if c = CHR ''+'' then (False, r) else (False, m))"

definition clamp_long :: "int \<Rightarrow> int \<times> bool" where
  "clamp_long v = (if v < LONG_MIN then (LONG_MIN, True)
     else if LONG_MAX < v then (LONG_MAX, True) else (v, False))"

text \<open>The value, the end pointer, and whether \<open>errno\<close> was set to \<open>ERANGE\<close>.\<close>

definition strtol :: "mem \<Rightarrow> (int \<times> mem \<times> bool) result" where
  "strtol m =
     (let (neg, b) = take_sign (dropWhile isspace m);
          ds = takeWhile isdigit b;
          rest = dropWhile isdigit b
      in if rest = [] then Inl OutOfBounds
         else if ds = [] then Inr (0, m, False)
         else let (v, erange) = clamp_long (if neg then - dec_val ds else dec_val ds)
              in Inr (v, rest, erange))"

text \<open>\<open>atoi(s)\<close> on a C string: \<open>strtol\<close> converted to \<open>int\<close>.\<close>

definition atoi :: "string \<Rightarrow> int" where
  "atoi s = (case strtol (s @ [NUL]) of Inl _ \<Rightarrow> 0 | Inr (v, _, _) \<Rightarrow> to_int v)"

fun nat_str :: "nat \<Rightarrow> string" where
  "nat_str n = (if n < 10 then [char_of (48 + n)] else nat_str (n div 10) @ [char_of (48 + n mod 10)])"

declare nat_str.simps [simp del]

definition int_str :: "int \<Rightarrow> string" where
  "int_str i = (if i < 0 then CHR ''-'' # nat_str (nat (- i)) else nat_str (nat i))"

text \<open>\<open>%3d\<close>: right-aligned in three columns.\<close>

definition int_str3 :: "int \<Rightarrow> string" where
  "int_str3 i = replicate (3 - length (int_str i)) SP @ int_str i"

section \<open>Lemmas on characters and strings\<close>

lemma cstr_is_cstr [simp]: "is_cstr (cstr m)"
  by (auto simp: is_cstr_def cstr_def dest: set_takeWhileD)

lemma cstr_append_NUL [simp]: "is_cstr s \<Longrightarrow> cstr (s @ NUL # r) = s"
  by (auto simp: cstr_def is_cstr_def intro!: takeWhile_append_stop)

lemma cstr_id [simp]: "is_cstr s \<Longrightarrow> cstr s = s"
  by (auto simp: cstr_def is_cstr_def takeWhile_eq_all_conv)

lemma is_cstr_simps [simp]:
  "is_cstr []"
  "is_cstr (c # s) \<longleftrightarrow> c \<noteq> NUL \<and> is_cstr s"
  "is_cstr (s @ t) \<longleftrightarrow> is_cstr s \<and> is_cstr t"
  by (auto simp: is_cstr_def)

lemma digit_chars [simp]:
  "char_of (48::nat) = CHR ''0''"
  "char_of (49::nat) = CHR ''1''"
  "char_of (50::nat) = CHR ''2''"
  "char_of (51::nat) = CHR ''3''"
  "char_of (52::nat) = CHR ''4''"
  "char_of (53::nat) = CHR ''5''"
  "char_of (54::nat) = CHR ''6''"
  "char_of (55::nat) = CHR ''7''"
  "char_of (56::nat) = CHR ''8''"
  "char_of (57::nat) = CHR ''9''"
  by code_simp+

lemma isdigit_char_of: "(n::nat) < 10 \<Longrightarrow> isdigit (char_of (48 + n))"
  by (simp add: isdigit_def)

lemma digit_val_char_of: "(n::nat) < 10 \<Longrightarrow> digit_val (char_of (48 + n)) = int n"
  by (simp add: digit_val_def)

lemma isdigit_not [simp]:
  "\<not> isdigit NUL" "\<not> isdigit CR" "\<not> isdigit LF" "\<not> isdigit SP" "\<not> isdigit (CHR ''-'')" "\<not> isdigit (CHR ''+'')"
  by (simp_all add: isdigit_def)

lemma isdigit_nonspace: "isdigit c \<Longrightarrow> \<not> isspace c"
  by (auto simp: isdigit_def isspace_def)

lemma isdigit_ne_sign: "isdigit c \<Longrightarrow> c \<noteq> CHR ''-'' \<and> c \<noteq> CHR ''+''"
  by (auto simp: isdigit_def)

lemma isdigit_ne_NUL: "isdigit c \<Longrightarrow> c \<noteq> NUL"
  by (auto simp: isdigit_def)

lemma dec_val_append: "dec_val (xs @ [c]) = 10 * dec_val xs + digit_val c"
  by (simp add: dec_val_def)

lemma nat_str_digits: "c \<in> set (nat_str n) \<Longrightarrow> isdigit c"
proof (induction n rule: nat_str.induct)
  case (1 n)
  then show ?case
    by (cases "n < 10") (auto simp: nat_str.simps [of n] intro!: isdigit_char_of)
qed

lemma nat_str_nonempty [simp]: "nat_str n \<noteq> []"
  by (subst nat_str.simps) simp

lemma dec_val_nat_str [simp]: "dec_val (nat_str n) = int n"
proof (induction n rule: nat_str.induct)
  case (1 n)
  show ?case
  proof (cases "n < 10")
    case True
    then show ?thesis by (simp add: nat_str.simps [of n] dec_val_def digit_val_char_of)
  next
    case False
    have "10 * (int n div 10) + int n mod 10 = int n" by simp
    with False 1 show ?thesis
      by (simp add: nat_str.simps [of n] dec_val_append digit_val_char_of zdiv_int zmod_int)
  qed
qed

lemma is_cstr_nat_str [simp]: "is_cstr (nat_str n)"
  by (auto simp: is_cstr_def dest!: nat_str_digits)

lemma is_cstr_int_str [simp]: "is_cstr (int_str i)"
  by (simp add: int_str_def)

lemma take_sign_digit: "isdigit c \<Longrightarrow> take_sign (c # r) = (False, c # r)"
  by (auto simp: take_sign_def dest: isdigit_ne_sign)

lemma clamp_long_id: "LONG_MIN \<le> v \<Longrightarrow> v \<le> LONG_MAX \<Longrightarrow> clamp_long v = (v, False)"
  by (simp add: clamp_long_def)

lemma strtol_nat_str:
  assumes "\<not> isdigit c" and "int n \<le> LONG_MAX"
  shows "strtol (nat_str n @ c # r) = Inr (int n, c # r, False)"
proof -
  obtain d ds where n: "nat_str n = d # ds" by (cases "nat_str n") auto
  have d: "isdigit d" using nat_str_digits [of d n] n by simp
  have "take_sign (dropWhile isspace (nat_str n @ c # r)) = (False, nat_str n @ c # r)"
    using n d by (simp add: isdigit_nonspace take_sign_digit)
  moreover have "takeWhile isdigit (nat_str n @ c # r) = nat_str n"
    by (rule takeWhile_append_stop) (auto simp: assms(1) nat_str_digits)
  moreover have "dropWhile isdigit (nat_str n @ c # r) = c # r"
    by (rule dropWhile_append_stop) (auto simp: assms(1) nat_str_digits)
  moreover have "clamp_long (int n) = (int n, False)"
    using assms(2) by (intro clamp_long_id) (simp_all add: LONG_MIN_def)
  ultimately show ?thesis by (simp add: strtol_def Let_def del: dropWhile_eq_Nil_conv)
qed

lemma strtol_neg:
  assumes "\<not> isdigit c" and "int n \<le> - LONG_MIN"
  shows "strtol (CHR ''-'' # nat_str n @ c # r) = Inr (- int n, c # r, False)"
proof -
  have "dropWhile isspace (CHR ''-'' # nat_str n @ c # r) = CHR ''-'' # nat_str n @ c # r"
    by (simp add: isspace_def)
  then have "take_sign (dropWhile isspace (CHR ''-'' # nat_str n @ c # r)) = (True, nat_str n @ c # r)"
    by (simp only: take_sign_def) simp
  moreover have "takeWhile isdigit (nat_str n @ c # r) = nat_str n"
    by (rule takeWhile_append_stop) (auto simp: assms(1) nat_str_digits)
  moreover have "dropWhile isdigit (nat_str n @ c # r) = c # r"
    by (rule dropWhile_append_stop) (auto simp: assms(1) nat_str_digits)
  moreover have "clamp_long (- int n) = (- int n, False)"
    using assms(2) by (intro clamp_long_id) (simp_all add: LONG_MIN_def LONG_MAX_def)
  ultimately show ?thesis
    by (simp add: strtol_def Let_def del: dropWhile_eq_Nil_conv dropWhile.simps)
qed

text \<open>What is printed with \<open>%d\<close> is read back unchanged.\<close>

lemma strtol_int_str:
  assumes "\<not> isdigit c" and "LONG_MIN \<le> i" and "i \<le> LONG_MAX"
  shows "strtol (int_str i @ c # r) = Inr (i, c # r, False)"
proof (cases "i < 0")
  case True
  with assms show ?thesis using strtol_neg [of c "nat (- i)" r] by (simp add: int_str_def)
next
  case False
  with assms show ?thesis using strtol_nat_str [of c "nat i" r] by (simp add: int_str_def)
qed

lemma to_int_id [simp]: "INT_MIN \<le> x \<Longrightarrow> x \<le> INT_MAX \<Longrightarrow> to_int x = x"
  by (simp add: to_int_def INT_MIN_def INT_MAX_def)

lemma to_int_range: "INT_MIN \<le> to_int x \<and> to_int x \<le> INT_MAX"
  by (simp add: to_int_def INT_MIN_def INT_MAX_def)

lemma int_in_long: "INT_MIN \<le> i \<Longrightarrow> LONG_MIN \<le> i" "i \<le> INT_MAX \<Longrightarrow> i \<le> LONG_MAX"
  by (simp_all add: INT_MIN_def INT_MAX_def LONG_MIN_def LONG_MAX_def)

lemma atoi_int_str [simp]: "INT_MIN \<le> i \<Longrightarrow> i \<le> INT_MAX \<Longrightarrow> atoi (int_str i) = i"
  by (simp add: atoi_def strtol_int_str int_in_long)

lemma atoi_range: "INT_MIN \<le> atoi s \<and> atoi s \<le> INT_MAX"
  using to_int_range by (auto simp: atoi_def INT_MIN_def INT_MAX_def split: sum.splits prod.splits)

text \<open>On a terminated string \<open>strtol\<close> stays inside it.\<close>

lemma take_sign_NUL: "NUL \<in> set m \<Longrightarrow> NUL \<in> set (snd (take_sign m))"
  by (cases m) (auto simp: take_sign_def)

lemma NUL_dropWhile: "NUL \<in> set m \<Longrightarrow> \<not> P NUL \<Longrightarrow> NUL \<in> set (dropWhile P m)"
  by (induction m) auto

lemma isspace_NUL [simp]: "\<not> isspace NUL"
  by (simp add: isspace_def)

lemma strtol_terminated: "NUL \<in> set m \<Longrightarrow> \<exists>r. strtol m = Inr r"
proof -
  assume "NUL \<in> set m"
  then have "NUL \<in> set (dropWhile isdigit (snd (take_sign (dropWhile isspace m))))"
    by (intro NUL_dropWhile take_sign_NUL) simp_all
  then have "dropWhile isdigit (snd (take_sign (dropWhile isspace m))) \<noteq> []" by fastforce
  then show ?thesis
    by (auto simp: strtol_def Let_def split_beta simp del: dropWhile_eq_Nil_conv)
qed

lemma strtol_string: "\<exists>v rest e. strtol (s @ [NUL]) = Inr (v, rest, e)"
  using strtol_terminated [of "s @ [NUL]"] by auto

lemma strtol_out_of_range:
  assumes "\<not> (LONG_MIN \<le> n \<and> n \<le> LONG_MAX)"
  shows "\<exists>x. strtol (int_str n @ [NUL]) = Inr (x, [NUL], True)"
proof -
  define m where "m = nat \<bar>n\<bar>"
  have tw: "takeWhile isdigit (nat_str m @ [NUL]) = nat_str m"
    by (rule takeWhile_append_stop) (auto simp: nat_str_digits)
  have dw: "dropWhile isdigit (nat_str m @ [NUL]) = [NUL]"
    by (rule dropWhile_append_stop) (auto simp: nat_str_digits)
  have "take_sign (dropWhile isspace (int_str n @ [NUL])) = (n < 0, nat_str m @ [NUL])"
  proof (cases "n < 0")
    case True
    have "dropWhile isspace (CHR ''-'' # nat_str m @ [NUL]) = CHR ''-'' # nat_str m @ [NUL]"
      by (simp add: isspace_def)
    with True show ?thesis by (simp add: int_str_def take_sign_def m_def)
  next
    case False
    obtain d ds where n: "nat_str m = d # ds" by (cases "nat_str m") auto
    have d: "isdigit d" using nat_str_digits [of d m] n by simp
    with n False show ?thesis by (simp add: int_str_def isdigit_nonspace take_sign_digit m_def)
  qed
  moreover have "(if n < 0 then - int m else int m) = n" by (simp add: m_def)
  ultimately show ?thesis
    using assms by (auto simp: strtol_def Let_def tw dw clamp_long_def LONG_MIN_def LONG_MAX_def
        simp del: dropWhile_eq_Nil_conv)
qed

lemma length_nat_str: "n < 10 ^ Suc k \<Longrightarrow> length (nat_str n) \<le> Suc k"
proof (induction k arbitrary: n)
  case 0
  then show ?case by (simp add: nat_str.simps)
next
  case (Suc k)
  show ?case
  proof (cases "n < 10")
    case True
    then show ?thesis by (simp add: nat_str.simps)
  next
    case False
    have "n div 10 < 10 ^ Suc k" using Suc.prems by (simp add: less_mult_imp_div_less)
    then have "length (nat_str (n div 10)) \<le> Suc k" by (rule Suc.IH)
    with False show ?thesis by (simp add: nat_str.simps [of n])
  qed
qed

lemma length_int_str: "INT_MIN \<le> i \<Longrightarrow> i \<le> INT_MAX \<Longrightarrow> length (int_str i) \<le> 11"
proof -
  assume i: "INT_MIN \<le> i" "i \<le> INT_MAX"
  have "length (nat_str (nat (- i))) \<le> 10" and "length (nat_str (nat i)) \<le> 10"
    using length_nat_str [of _ 9] i by (simp_all add: INT_MIN_def INT_MAX_def)
  then show ?thesis by (simp add: int_str_def)
qed

lemma int_str_1: "int_str 1 = ''1''"
  by code_simp

lemma nat_str_2: "nat_str 2 = ''2''"
  by code_simp

lemma nat_str_1: "nat_str 1 = ''1''" "nat_str (Suc 0) = ''1''"
  by code_simp+

lemma nat_str_50: "nat_str 50 = ''50''"
  by code_simp

lemma caseeq_refl [simp]: "caseeq a a"
  by (simp add: caseeq_def)

section \<open>Lemmas on streams\<close>

lemma fgets_take_append: "fgets_take n s @ drop (length (fgets_take n s)) s = s"
  by (induction n s rule: fgets_take.induct) auto

lemma concat_fgets_all: "1 < n \<Longrightarrow> concat (fgets_all n s) = s"
proof (induction n s rule: fgets_all.induct)
  case (1 n s)
  then show ?case
    by (subst fgets_all.simps) (auto simp: fgets_def fgets_take_append split: option.splits)
qed

lemma fgets_all_Nil [simp]: "fgets_all n [] = []"
  by (simp add: fgets_all.simps fgets_def)

lemma fgets_take_line:
  assumes "LF \<notin> set l" and "length l < n"
  shows "fgets_take n (l @ LF # s) = l @ [LF]"
  using assms
proof (induction l arbitrary: n)
  case Nil
  then show ?case by (cases n) auto
next
  case (Cons c l)
  then show ?case by (cases n) auto
qed

lemma fgets_line:
  assumes "LF \<notin> set l" and "length l + 1 < n"
  shows "fgets n (l @ LF # s) = Some (l @ [LF], s)"
  using assms by (simp add: fgets_def fgets_take_line)

lemma fgets_all_line:
  assumes "LF \<notin> set l" and "length l + 1 < n"
  shows "fgets_all n (l @ LF # s) = (l @ [LF]) # fgets_all n s"
  using fgets_line [OF assms] by (subst fgets_all.simps) simp

text \<open>A text of terminated lines that fit a line buffer of \<open>n\<close> bytes, read line by line.\<close>

definition text_of :: "string list \<Rightarrow> mem" where
  "text_of ls = concat (map (\<lambda>l. l @ [LF]) ls)"

definition full_lines :: "string list \<Rightarrow> string list" where
  "full_lines ls = map (\<lambda>l. l @ [LF]) ls"

lemma full_lines_simps [simp]:
  "full_lines [] = []"
  "full_lines (l # ls) = (l @ [LF]) # full_lines ls"
  "full_lines ls = [] \<longleftrightarrow> ls = []"
  "length (full_lines ls) = length ls"
  "x \<in> set (full_lines ls) \<longleftrightarrow> (\<exists>l \<in> set ls. x = l @ [LF])"
  by (auto simp: full_lines_def)

definition plain_lines :: "nat \<Rightarrow> string list \<Rightarrow> bool" where
  "plain_lines n ls \<longleftrightarrow> (\<forall>l \<in> set ls. LF \<notin> set l \<and> NUL \<notin> set l \<and> length l + 1 < n)"

interpretation lines: record_stream "\<lambda>l. l @ [LF]" "fgets n" "\<lambda>s. Some (fgets_all n s)" "\<lambda>l. l @ [LF]"
    "\<lambda>l. LF \<notin> set l \<and> length l + 1 < n" for n
proof unfold_locales
  show "LF \<notin> set x \<and> length x + 1 < n \<Longrightarrow> fgets n ((x @ [LF]) @ r) = Some (x @ [LF], r)" for x r
    using fgets_line [of x n r] by simp
  show "fgets n bs = Some (y, r) \<Longrightarrow> Some (fgets_all n bs) = map_option ((#) y) (Some (fgets_all n r))" for bs y r
    by (subst fgets_all.simps) simp
qed

lemma fgets_all_text_append: "plain_lines n ls \<Longrightarrow> fgets_all n (text_of ls @ r) = full_lines ls @ fgets_all n r"
  using lines.all_encs [of n ls r] by (simp add: plain_lines_def text_of_def full_lines_def list_all_iff)

lemma fgets_all_text: "plain_lines n ls \<Longrightarrow> fgets_all n (text_of ls) = full_lines ls"
  using fgets_all_text_append [of n ls "[]"] by simp

lemma cstr_line: "NUL \<notin> set l \<Longrightarrow> cstr (l @ [LF]) = l @ [LF]"
  by (rule cstr_id) (simp add: is_cstr_def)

lemma cstr_lines: "plain_lines n ls \<Longrightarrow> map cstr (full_lines ls) = full_lines ls"
  by (auto simp: plain_lines_def full_lines_def cstr_line)

lemma length_int_str3: "INT_MIN \<le> i \<Longrightarrow> i \<le> INT_MAX \<Longrightarrow> length (int_str3 i) \<le> 11"
  using length_int_str [of i] by (simp add: int_str3_def)

end
