(* ===== verification/Hash_Chain.thy ===== *)
theory Hash_Chain
  imports CLib "HOL-Library.Word"
begin

text \<open>
  Chained hash tables. The Redis store and the bitcask table have the same shape: an array of
  singly linked chains of nodes indexed by the djb2 hash of the key. A table is a function from
  the bucket number to its chain (the array cells); \<open>kf\<close> reads the key of a node. The chain
  walks are the loops \<open>for (p = tab[h]; p != NULL; p = p->next)\<close> with \<open>strcmp\<close>.
\<close>

unbundle bit_operations_syntax

section \<open>The djb2 hash\<close>

type_synonym u64 = "64 word"
type_synonym u32 = "32 word"
type_synonym u8 = "8 word"

definition djb2_step :: "u64 \<Rightarrow> char \<Rightarrow> u64" where
  "djb2_step h c = (push_bit 5 h + h) + of_nat (code_of c)"

definition djb2 :: "string \<Rightarrow> u64" where
  "djb2 s = foldl djb2_step 5381 s"

section \<open>Chains\<close>

fun chain_find :: "('e \<Rightarrow> string) \<Rightarrow> string \<Rightarrow> 'e list \<Rightarrow> 'e option" where
  "chain_find kf k [] = None"
| "chain_find kf k (p # c) = (if k = kf p then Some p else chain_find kf k c)"

fun chain_modify :: "('e \<Rightarrow> string) \<Rightarrow> string \<Rightarrow> ('e \<Rightarrow> 'e) \<Rightarrow> 'e list \<Rightarrow> 'e list" where
  "chain_modify kf k f [] = []"
| "chain_modify kf k f (p # c) = (if k = kf p then f p # c else p # chain_modify kf k f c)"

fun chain_unlink :: "('e \<Rightarrow> string) \<Rightarrow> string \<Rightarrow> 'e list \<Rightarrow> 'e list \<times> bool" where
  "chain_unlink kf k [] = ([], False)"
| "chain_unlink kf k (p # c) =
     (if kf p = k then (c, True)
      else let (c', b) = chain_unlink kf k c in (p # c', b))"

lemma chain_find_SomeD: "chain_find kf k c = Some p \<Longrightarrow> p \<in> set c \<and> kf p = k"
  by (induction c) (auto split: if_splits)

lemma chain_find_None_iff: "chain_find kf k c = None \<longleftrightarrow> k \<notin> kf ` set c"
  by (induction c) auto

lemma chain_find_distinct:
  "distinct (map kf c) \<Longrightarrow> p \<in> set c \<Longrightarrow> chain_find kf (kf p) c = Some p"
  by (induction c) (auto simp: image_iff)

lemma chain_find_modify:
  "(\<And>p. kf (f p) = kf p) \<Longrightarrow>
   chain_find kf k' (chain_modify kf k f c) =
     (if k' = k then map_option f (chain_find kf k c) else chain_find kf k' c)"
  by (induction c) auto

lemma map_chain_modify: "(\<And>p. kf (f p) = kf p) \<Longrightarrow> map kf (chain_modify kf k f c) = map kf c"
  by (induction c) auto

lemma set_chain_modify: "set (chain_modify kf k f c) \<subseteq> set c \<union> f ` set c"
  by (induction c) auto

lemma chain_unlink_flag: "snd (chain_unlink kf k c) \<longleftrightarrow> chain_find kf k c \<noteq> None"
  by (induction c) (auto simp: split_beta)

lemma set_chain_unlink: "set (fst (chain_unlink kf k c)) \<subseteq> set c"
  by (induction c) (auto simp: split_beta)

lemma distinct_chain_unlink:
  "distinct (map kf c) \<Longrightarrow> distinct (map kf (fst (chain_unlink kf k c)))"
  using set_chain_unlink by (induction c) (fastforce simp: split_beta)+

lemma chain_find_unlink:
  "distinct (map kf c) \<Longrightarrow>
   chain_find kf k' (fst (chain_unlink kf k c)) = (if k' = k then None else chain_find kf k' c)"
  by (induction c) (auto simp: split_beta chain_find_None_iff)

section \<open>Tables of chains\<close>

definition table_wf :: "(string \<Rightarrow> nat) \<Rightarrow> ('e \<Rightarrow> string) \<Rightarrow> (nat \<Rightarrow> 'e list) \<Rightarrow> bool" where
  "table_wf h kf t \<longleftrightarrow> (\<forall>i. distinct (map kf (t i)) \<and> (\<forall>p \<in> set (t i). h (kf p) = i))"

lemma table_wf_empty [simp]: "table_wf h kf (\<lambda>_. [])"
  by (simp add: table_wf_def)

lemma table_wf_distinct: "table_wf h kf t \<Longrightarrow> distinct (map kf (t i))"
  by (simp add: table_wf_def)

lemma table_wf_bucket: "table_wf h kf t \<Longrightarrow> p \<in> set (t i) \<Longrightarrow> h (kf p) = i"
  by (simp add: table_wf_def)

lemma table_wf_link:
  assumes "table_wf h kf t" and "chain_find kf (kf p) (t (h (kf p))) = None"
  shows "table_wf h kf (t(h (kf p) := p # t (h (kf p))))"
  using assms by (auto simp: table_wf_def chain_find_None_iff)

lemma table_wf_modify:
  assumes "table_wf h kf t" and "\<And>p. kf (f p) = kf p"
  shows "table_wf h kf (t(i := chain_modify kf k f (t i)))"
  using assms set_chain_modify [of kf k f "t i"]
  by (auto simp: table_wf_def map_chain_modify)

lemma table_wf_unlink:
  assumes "table_wf h kf t"
  shows "table_wf h kf (t(i := fst (chain_unlink kf k (t i))))"
  using assms set_chain_unlink [of kf k "t i"]
  by (auto simp: table_wf_def distinct_chain_unlink)

text \<open>The entry a key has in a table, and what the three updates do to it.\<close>

definition table_find :: "(string \<Rightarrow> nat) \<Rightarrow> ('e \<Rightarrow> string) \<Rightarrow> (nat \<Rightarrow> 'e list) \<Rightarrow> string \<Rightarrow> 'e option" where
  "table_find h kf t k = chain_find kf k (t (h k))"

lemma table_find_link:
  "table_find h kf (t(h (kf p) := p # t (h (kf p)))) = (table_find h kf t)(kf p \<mapsto> p)"
  by (auto simp: table_find_def fun_eq_iff)

lemma table_find_modify:
  assumes "\<And>p. kf (f p) = kf p"
  shows "table_find h kf (t(h k := chain_modify kf k f (t (h k)))) =
         (table_find h kf t)(k := map_option f (table_find h kf t k))"
  by (auto simp: table_find_def fun_eq_iff chain_find_modify assms)

lemma table_find_unlink:
  assumes "table_wf h kf t"
  shows "table_find h kf (t(h k := fst (chain_unlink kf k (t (h k))))) = (table_find h kf t)(k := None)"
  using table_wf_distinct [OF assms]
  by (auto simp: table_find_def fun_eq_iff chain_find_unlink)

lemma table_find_iff:
  assumes "table_wf h kf t"
  shows "table_find h kf t k = Some p \<longleftrightarrow> kf p = k \<and> (\<exists>i. p \<in> set (t i))"
proof
  assume "table_find h kf t k = Some p"
  then show "kf p = k \<and> (\<exists>i. p \<in> set (t i))"
    by (auto simp: table_find_def dest: chain_find_SomeD)
next
  assume "kf p = k \<and> (\<exists>i. p \<in> set (t i))"
  then obtain i where k: "kf p = k" and p: "p \<in> set (t i)" by blast
  then have "h k = i" using table_wf_bucket [OF assms p] by simp
  with p k show "table_find h kf t k = Some p"
    using chain_find_distinct [OF table_wf_distinct [OF assms], of p i] by (simp add: table_find_def)
qed

end
