(* ===== verification/KV_Spec.thy ===== *)
theory KV_Spec
  imports Main
begin

text \<open>
  The contracts of the key/value containers. \<open>kv_store\<close> is what a client of a table that only
  grows relies on (the bitcask table), \<open>kv_store_del\<close> adds removal (the Redis table). The client
  lemmas speak about whole runs of operations and are proved once, here.
\<close>

section \<open>A store with insertion\<close>

locale kv_store =
  fixes empty :: "'s"
    and put :: "'k \<Rightarrow> 'v \<Rightarrow> 's \<Rightarrow> 's"
    and get :: "'s \<Rightarrow> 'k \<Rightarrow> 'v option"
    and invar :: "'s \<Rightarrow> bool"
  assumes get_empty: "get empty = Map.empty"
    and invar_empty: "invar empty"
    and get_put: "invar s \<Longrightarrow> get (put k v s) = (get s)(k \<mapsto> v)"
    and invar_put: "invar s \<Longrightarrow> invar (put k v s)"
begin

lemma invar_puts: "invar s \<Longrightarrow> invar (fold (\<lambda>(k, v). put k v) kvs s)"
  by (induction kvs arbitrary: s) (auto simp: invar_put)

text \<open>A batch of insertions leaves the last value written for each key.\<close>

lemma get_puts:
  "invar s \<Longrightarrow> get (fold (\<lambda>(k, v). put k v) kvs s) = get s ++ map_of (rev kvs)"
proof (induction kvs arbitrary: s)
  case Nil
  then show ?case by simp
next
  case (Cons kv kvs)
  obtain k v where kv: "kv = (k, v)" by (cases kv)
  from Cons.prems have "invar (put k v s)" by (rule invar_put)
  then have "get (fold (\<lambda>(k, v). put k v) kvs (put k v s)) = get (put k v s) ++ map_of (rev kvs)"
    by (rule Cons.IH)
  then show ?case
    using Cons.prems by (auto simp: kv get_put map_add_def fun_eq_iff split: option.splits)
qed

lemma get_puts_empty: "get (fold (\<lambda>(k, v). put k v) kvs empty) = map_of (rev kvs)"
  by (simp add: get_puts invar_empty get_empty)

lemma put_put_same: "invar s \<Longrightarrow> get (put k v (put k w s)) = get (put k v s)"
  by (simp add: get_put invar_put)

lemma put_commute:
  "invar s \<Longrightarrow> k \<noteq> k' \<Longrightarrow> get (put k v (put k' w s)) = get (put k' w (put k v s))"
  by (simp add: get_put invar_put fun_upd_twist)

end

section \<open>A store with removal\<close>

datatype ('k, 'v) kv_op = Put 'k 'v | Del 'k

fun apply_op :: "('k \<Rightarrow> 'v \<Rightarrow> 's \<Rightarrow> 's) \<Rightarrow> ('k \<Rightarrow> 's \<Rightarrow> 's) \<Rightarrow> ('k, 'v) kv_op \<Rightarrow> 's \<Rightarrow> 's" where
  "apply_op put del (Put k v) s = put k v s"
| "apply_op put del (Del k) s = del k s"

fun map_op :: "('k, 'v) kv_op \<Rightarrow> ('k \<rightharpoonup> 'v) \<Rightarrow> ('k \<rightharpoonup> 'v)" where
  "map_op (Put k v) m = m(k \<mapsto> v)"
| "map_op (Del k) m = m(k := None)"

locale kv_store_del = kv_store empty put get invar
  for empty :: "'s"
    and put :: "'k \<Rightarrow> 'v \<Rightarrow> 's \<Rightarrow> 's"
    and get :: "'s \<Rightarrow> 'k \<Rightarrow> 'v option"
    and invar :: "'s \<Rightarrow> bool" +
  fixes del :: "'k \<Rightarrow> 's \<Rightarrow> 's"
  assumes get_del: "invar s \<Longrightarrow> get (del k s) = (get s)(k := None)"
    and invar_del: "invar s \<Longrightarrow> invar (del k s)"
begin

lemma invar_op: "invar s \<Longrightarrow> invar (apply_op put del x s)"
  by (cases x) (auto simp: invar_put invar_del)

lemma get_op: "invar s \<Longrightarrow> get (apply_op put del x s) = map_op x (get s)"
  by (cases x) (auto simp: get_put get_del)

lemma invar_run: "invar s \<Longrightarrow> invar (fold (apply_op put del) xs s)"
  by (induction xs arbitrary: s) (auto simp: invar_op)

text \<open>Any run of insertions and removals computes the map it stands for.\<close>

lemma get_run: "invar s \<Longrightarrow> get (fold (apply_op put del) xs s) = fold map_op xs (get s)"
  by (induction xs arbitrary: s) (auto simp: invar_op get_op)

lemma get_run_empty: "get (fold (apply_op put del) xs empty) = fold map_op xs Map.empty"
  by (simp add: get_run invar_empty get_empty)

end

end
