(* ===== verification/Redis_DB.thy ===== *)
theory Redis_DB
  imports Hash_Chain KV_Spec
begin

text \<open>
  The in-memory store of the Redis clone: \<open>src/db.c\<close>, \<open>db.h\<close>, \<open>db_dto.h\<close> and \<open>is_number\<close> of
  \<open>utils.c\<close> under \<open>8. redis server/redis_clone\<close>.

  An \<open>entry\<close> is the struct \<open>Entry\<close> without its link; \<open>val\<close> (the field \<open>value\<close>) is \<open>None\<close> when the pointer is
  \<open>NULL\<close> and \<open>expires_at_ms\<close> is \<open>None\<close> while the field is indeterminate. A \<open>table\<close> is the array
  \<open>hashtab\<close>. The outcome of each allocation is an argument (\<open>alloc\<close>), the reading of the clock
  \<open>now_ms()\<close> another. \<open>table_ok\<close> is the invariant (buckets hold the keys that hash to them, once
  each, with every field initialised) and \<open>db_abs\<close> the map a table stands for.
\<close>

section \<open>Data\<close>

record entry =
  key :: string
  val :: "string option"
  expires_at_ms :: "u64 option"

record db_result =
  ok :: bool
  res_value :: "string option"
  res_error :: "string option"

type_synonym table = "nat \<Rightarrow> entry list"

text \<open>Which of the allocations of an operation succeed.\<close>

record alloc =
  node_ok :: bool
  key_ok :: bool
  value_ok :: bool
  copy_ok :: bool
  res_ok :: bool

definition all_ok :: alloc where
  "all_ok = \<lparr>node_ok = True, key_ok = True, value_ok = True, copy_ok = True, res_ok = True\<rparr>"

lemma all_ok_simps [simp]:
  "node_ok all_ok" "key_ok all_ok" "value_ok all_ok" "copy_ok all_ok" "res_ok all_ok"
  by (simp_all add: all_ok_def)

section \<open>Operations\<close>

definition HASH_SIZE :: u64 where "HASH_SIZE = 1000"

definition hash :: "string \<Rightarrow> nat" where
  "hash s = unat (djb2 s mod HASH_SIZE)"

definition empty_table :: table where
  "empty_table = (\<lambda>_. [])"

definition lookup :: "string \<Rightarrow> table \<Rightarrow> entry option" where
  "lookup k t = chain_find key k (t (hash k))"

text \<open>
  The last assignments of \<open>install\<close>: the value pointer is written in any case, and the expiry
  only when the copy of the value was made. \<open>\<lambda>e. e\<lparr>...\<rparr>\<close> is applied to the node in its chain.
\<close>

definition store_value :: "alloc \<Rightarrow> string \<Rightarrow> u64 \<Rightarrow> entry \<Rightarrow> entry" where
  "store_value al v ex e =
     (if value_ok al then e\<lparr>val := Some v, expires_at_ms := Some ex\<rparr> else e\<lparr>val := None\<rparr>)"

definition install :: "alloc \<Rightarrow> string \<Rightarrow> string \<Rightarrow> u64 \<Rightarrow> table \<Rightarrow> (table \<times> entry option) result" where
  "install al k v ex t =
     (case lookup k t of
        None \<Rightarrow>
          if \<not> node_ok al then Inl NullDeref
          else if \<not> key_ok al then Inr (t, None)
          else let p = store_value al v ex \<lparr>key = k, val = None, expires_at_ms = None\<rparr>
               in Inr (t(hash k := p # t (hash k)), if value_ok al then Some p else None)
      | Some p \<Rightarrow>
          let t' = t(hash k := chain_modify key k (store_value al v ex) (t (hash k)))
          in Inr (t', if value_ok al then Some (store_value al v ex p) else None))"

definition undef :: "string \<Rightarrow> table \<Rightarrow> table \<times> bool" where
  "undef k t = (let (c, b) = chain_unlink key k (t (hash k)) in (t(hash k := c), b))"

definition expired :: "u64 \<Rightarrow> entry \<Rightarrow> bool result" where
  "expired now e = ebind (read_init Uninit (expires_at_ms e)) (\<lambda>ex. Inr (ex \<noteq> 0 \<and> ex \<le> now))"

text \<open>\<open>db_set\<close> and \<open>db_set_ex\<close> report a failure with \<open>perror\<close>: the flag says that they did not.\<close>

definition db_set_ex :: "alloc \<Rightarrow> string \<Rightarrow> string \<Rightarrow> u64 \<Rightarrow> table \<Rightarrow> (table \<times> bool) result" where
  "db_set_ex al k v ex t = ebind (install al k v ex t) (\<lambda>(t', p). Inr (t', p \<noteq> None))"

definition db_set :: "alloc \<Rightarrow> string \<Rightarrow> string \<Rightarrow> table \<Rightarrow> (table \<times> bool) result" where
  "db_set al k v t = ebind (install al k v 0 t) (\<lambda>(t', p). Inr (t', p \<noteq> None))"

definition db_get :: "alloc \<Rightarrow> u64 \<Rightarrow> string \<Rightarrow> table \<Rightarrow> (table \<times> string option) result" where
  "db_get al now k t =
     (case lookup k t of
        None \<Rightarrow> Inr (t, None)
      | Some p \<Rightarrow>
          ebind (expired now p) (\<lambda>x.
            if x then Inr (fst (undef (key p) t), None)
            else ebind (read_init NullDeref (val p)) (\<lambda>v.
              Inr (t, if copy_ok al then Some v else None))))"

definition db_del :: "string \<Rightarrow> table \<Rightarrow> table \<times> bool" where
  "db_del k t = undef k t"

definition is_number :: "string \<Rightarrow> bool result" where
  "is_number s = ebind (strtol (s @ [NUL])) (\<lambda>(v, rest, erange).
     Inr (if rest = s @ [NUL] then False
          else if hd rest \<noteq> NUL then False
          else if erange then False
          else \<not> (v < INT_MIN \<or> INT_MAX < v)))"

definition not_integer_msg :: string where
  "not_integer_msg = ''value is not an integer or out of range''"

definition db_incr :: "alloc \<Rightarrow> string \<Rightarrow> table \<Rightarrow> (table \<times> db_result) result" where
  "db_incr al k t =
     (if \<not> res_ok al then Inl NullDeref
      else
        let finish = (\<lambda>(t', p).
              case p of
                None \<Rightarrow> Inr (t', \<lparr>ok = False, res_value = None, res_error = Some ''failed to save''\<rparr>)
              | Some e \<Rightarrow> ebind (read_init NullDeref (val e)) (\<lambda>v.
                  Inr (t', \<lparr>ok = True, res_value = (if copy_ok al then Some v else None), res_error = None\<rparr>)))
        in case lookup k t of
             None \<Rightarrow> ebind (install al k ''1'' 0 t) finish
           | Some p \<Rightarrow>
               ebind (read_init NullDeref (val p)) (\<lambda>v.
               ebind (is_number v) (\<lambda>num.
                 if \<not> num then
                   Inr (t, \<lparr>ok = False, res_value = None, res_error = Some not_integer_msg\<rparr>)
                 else if atoi v = INT_MAX then Inl SignedOverflow
                 else ebind (read_init Uninit (expires_at_ms p)) (\<lambda>ex.
                   ebind (install al k (snprintf 63 (int_str (atoi v + 1))) ex t) finish))))"

section \<open>Invariant and abstraction\<close>

definition entry_init :: "entry \<Rightarrow> bool" where
  "entry_init e \<longleftrightarrow> val e \<noteq> None \<and> expires_at_ms e \<noteq> None"

definition table_ok :: "table \<Rightarrow> bool" where
  "table_ok t \<longleftrightarrow> table_wf hash key t \<and> (\<forall>i. \<forall>e \<in> set (t i). entry_init e)"

definition entry_abs :: "entry \<Rightarrow> string \<times> u64" where
  "entry_abs e = (the (val e), the (expires_at_ms e))"

definition db_abs :: "table \<Rightarrow> string \<rightharpoonup> string \<times> u64" where
  "db_abs t k = map_option entry_abs (lookup k t)"

definition expired_at :: "u64 \<Rightarrow> u64 \<Rightarrow> bool" where
  "expired_at now ex \<longleftrightarrow> ex \<noteq> 0 \<and> ex \<le> now"

text \<open>The contract of \<open>db.h\<close> on the map: a read drops an expired key and reports it absent.\<close>

definition spec_get :: "u64 \<Rightarrow> string \<Rightarrow> (string \<rightharpoonup> string \<times> u64) \<Rightarrow> (string \<rightharpoonup> string \<times> u64) \<times> string option" where
  "spec_get now k m =
     (case m k of
        None \<Rightarrow> (m, None)
      | Some (v, ex) \<Rightarrow> if expired_at now ex then (m(k := None), None) else (m, Some v))"

lemma lookup_eq_find: "lookup k t = table_find hash key t k"
  by (simp add: lookup_def table_find_def)

lemma hash_bound: "hash s < 1000"
proof -
  have "unat (djb2 s mod HASH_SIZE) = unat (djb2 s) mod 1000"
    by (simp add: HASH_SIZE_def unat_mod)
  then show ?thesis by (simp add: hash_def)
qed

lemma key_store_value [simp]: "key (store_value al v ex e) = key e"
  by (simp add: store_value_def)

lemma store_value_ok [simp]:
  "value_ok al \<Longrightarrow> store_value al v ex e = e\<lparr>val := Some v, expires_at_ms := Some ex\<rparr>"
  by (simp add: store_value_def)

lemma entry_abs_simps [simp]:
  "entry_abs \<lparr>key = k, val = Some v, expires_at_ms = Some ex\<rparr> = (v, ex)"
  "entry_abs (e\<lparr>val := Some v, expires_at_ms := Some ex\<rparr>) = (v, ex)"
  by (simp_all add: entry_abs_def)

lemma entry_init_simps [simp]:
  "entry_init \<lparr>key = k, val = Some v, expires_at_ms = Some ex\<rparr>"
  "entry_init (e\<lparr>val := Some v, expires_at_ms := Some ex\<rparr>)"
  by (simp_all add: entry_init_def)

lemma table_ok_empty [simp]: "table_ok empty_table"
  by (simp add: table_ok_def empty_table_def)

lemma db_abs_empty [simp]: "db_abs empty_table = Map.empty"
  by (simp add: db_abs_def lookup_def empty_table_def fun_eq_iff)

lemma table_ok_wf: "table_ok t \<Longrightarrow> table_wf hash key t"
  by (simp add: table_ok_def)

lemma lookup_key: "lookup k t = Some p \<Longrightarrow> key p = k"
  by (auto simp: lookup_def dest: chain_find_SomeD)

lemma lookup_init: "table_ok t \<Longrightarrow> lookup k t = Some p \<Longrightarrow> entry_init p"
  by (auto simp: table_ok_def lookup_def dest: chain_find_SomeD)

lemma lookup_SomeE:
  assumes "table_ok t" and "lookup k t = Some p"
  obtains v ex where "p = \<lparr>key = k, val = Some v, expires_at_ms = Some ex\<rparr>" "db_abs t k = Some (v, ex)"
proof -
  from lookup_init [OF assms] obtain v ex where "val p = Some v" "expires_at_ms p = Some ex"
    by (auto simp: entry_init_def)
  moreover have "key p = k" by (rule lookup_key [OF assms(2)])
  ultimately have "p = \<lparr>key = k, val = Some v, expires_at_ms = Some ex\<rparr>" by (cases p) auto
  then show thesis using assms(2) by (intro that) (auto simp: db_abs_def)
qed

lemma db_abs_None: "db_abs t k = None \<longleftrightarrow> lookup k t = None"
  by (simp add: db_abs_def)

lemma db_abs_SomeE:
  assumes "table_ok t" and "db_abs t k = Some (v, ex)"
  shows "lookup k t = Some \<lparr>key = k, val = Some v, expires_at_ms = Some ex\<rparr>"
proof -
  from assms(2) obtain p where p: "lookup k t = Some p" by (auto simp: db_abs_def)
  then show ?thesis
    by (rule lookup_SomeE [OF assms(1)]) (use p assms(2) in auto)
qed


section \<open>Each operation refines its contract\<close>

definition set_ok :: "alloc \<Rightarrow> bool" where
  "set_ok al \<longleftrightarrow> node_ok al \<and> key_ok al \<and> value_ok al"

lemma set_ok_all_ok [simp]: "set_ok all_ok"
  by (simp add: set_ok_def)

lemma install_refines:
  assumes t: "table_ok t" and al: "set_ok al"
  obtains t' e where "install al k v ex t = Inr (t', Some e)" "table_ok t'"
    "db_abs t' = (db_abs t)(k \<mapsto> (v, ex))" "entry_abs e = (v, ex)" "entry_init e"
proof (cases "lookup k t")
  case None
  let ?p = "\<lparr>key = k, val = Some v, expires_at_ms = Some ex\<rparr>"
  let ?t = "t(hash k := ?p # t (hash k))"
  have "install al k v ex t = Inr (?t, Some ?p)"
    using None al by (simp add: install_def set_ok_def Let_def)
  moreover have "table_ok ?t"
    using t None table_wf_link [of hash key t ?p]
    by (auto simp: table_ok_def lookup_def)
  moreover have "db_abs ?t = (db_abs t)(k \<mapsto> (v, ex))"
    using table_find_link [of hash key t ?p] by (simp add: db_abs_def lookup_eq_find fun_eq_iff)
  ultimately show thesis by (intro that) auto
next
  case (Some p)
  let ?f = "\<lambda>e. e\<lparr>val := Some v, expires_at_ms := Some ex\<rparr>"
  let ?t = "t(hash k := chain_modify key k ?f (t (hash k)))"
  have sv: "store_value al v ex = ?f"
    using al by (simp add: set_ok_def fun_eq_iff)
  have "install al k v ex t = Inr (?t, Some (?f p))"
    using Some al by (simp add: install_def set_ok_def sv Let_def)
  moreover have "table_ok ?t"
    using t table_wf_modify [of hash key t ?f "hash k" k] set_chain_modify [of key k ?f "t (hash k)"]
    by (auto simp: table_ok_def)
  moreover have "db_abs ?t = (db_abs t)(k \<mapsto> (v, ex))"
    using table_find_modify [of key ?f hash t k] Some
    by (simp add: db_abs_def lookup_eq_find fun_eq_iff)
  ultimately show thesis by (intro that) auto
qed

lemma undef_refines:
  assumes "table_ok t"
  shows "table_ok (fst (undef k t))" "db_abs (fst (undef k t)) = (db_abs t)(k := None)"
    "snd (undef k t) \<longleftrightarrow> db_abs t k \<noteq> None"
proof -
  have t': "fst (undef k t) = t(hash k := fst (chain_unlink key k (t (hash k))))"
    by (simp add: undef_def split_beta)
  show "table_ok (fst (undef k t))"
    using assms table_wf_unlink [of hash key t "hash k" k] set_chain_unlink [of key k "t (hash k)"]
    by (auto simp: t' table_ok_def)
  show "db_abs (fst (undef k t)) = (db_abs t)(k := None)"
    using table_find_unlink [OF table_ok_wf [OF assms], of k]
    by (simp add: t' db_abs_def lookup_eq_find fun_eq_iff)
  show "snd (undef k t) \<longleftrightarrow> db_abs t k \<noteq> None"
    by (simp add: undef_def split_beta chain_unlink_flag db_abs_def lookup_def)
qed

lemma db_set_ex_refines:
  assumes "table_ok t" and "set_ok al"
  obtains t' where "db_set_ex al k v ex t = Inr (t', True)" "table_ok t'"
    "db_abs t' = (db_abs t)(k \<mapsto> (v, ex))"
proof -
  obtain t' e where "install al k v ex t = Inr (t', Some e)" "table_ok t'"
    "db_abs t' = (db_abs t)(k \<mapsto> (v, ex))"
    by (rule install_refines [OF assms])
  then show thesis by (intro that) (simp_all add: db_set_ex_def)
qed

lemma expired_Some [simp]:
  "expired now \<lparr>key = k, val = v, expires_at_ms = Some ex\<rparr> = Inr (expired_at now ex)"
  by (simp add: expired_def expired_at_def)

lemma db_get_cases:
  assumes t: "table_ok t" and al: "copy_ok al"
  obtains t' where "db_get al now k t = Inr (t', snd (spec_get now k (db_abs t)))" "table_ok t'"
    "db_abs t' = fst (spec_get now k (db_abs t))"
proof (cases "lookup k t")
  case None
  then show thesis
    using t by (intro that [of t]) (auto simp: db_get_def spec_get_def db_abs_def)
next
  case (Some p)
  obtain v ex where p: "p = \<lparr>key = k, val = Some v, expires_at_ms = Some ex\<rparr>"
    and m: "db_abs t k = Some (v, ex)" by (rule lookup_SomeE [OF t Some])
  show thesis
  proof (cases "expired_at now ex")
    case True
    then show thesis
      using undef_refines [OF t, of k] Some p m
      by (intro that [of "fst (undef k t)"]) (auto simp: db_get_def spec_get_def)
  next
    case False
    then show thesis
      using t Some p m al by (intro that [of t]) (auto simp: db_get_def spec_get_def)
  qed
qed

text \<open>The store the server uses, as an instance of the contract: every allocation succeeds.\<close>

definition db_put :: "string \<Rightarrow> string \<times> u64 \<Rightarrow> table \<Rightarrow> table" where
  "db_put k ve t = (case db_set_ex all_ok k (fst ve) (snd ve) t of Inl _ \<Rightarrow> t | Inr (t', _) \<Rightarrow> t')"

definition db_remove :: "string \<Rightarrow> table \<Rightarrow> table" where
  "db_remove k t = fst (db_del k t)"

interpretation db: kv_store_del empty_table db_put db_abs table_ok db_remove
proof unfold_locales
  fix s :: table and k :: string and ve :: "string \<times> u64"
  show "db_abs empty_table = Map.empty" by simp
  show "table_ok empty_table" by simp
  assume s: "table_ok s"
  obtain t' where "db_set_ex all_ok k (fst ve) (snd ve) s = Inr (t', True)" "table_ok t'"
    "db_abs t' = (db_abs s)(k \<mapsto> (fst ve, snd ve))"
    by (rule db_set_ex_refines [OF s set_ok_all_ok])
  then show "db_abs (db_put k ve s) = (db_abs s)(k \<mapsto> ve)" and "table_ok (db_put k ve s)"
    by (simp_all add: db_put_def)
  show "db_abs (db_remove k s) = (db_abs s)(k := None)" and "table_ok (db_remove k s)"
    using undef_refines [OF s, of k] by (simp_all add: db_remove_def db_del_def)
qed

section \<open>Numbers\<close>

lemma clamp_long_cases:
  "clamp_long v = (v, False) \<and> LONG_MIN \<le> v \<and> v \<le> LONG_MAX \<or> snd (clamp_long v)"
  by (auto simp: clamp_long_def)

lemma is_number_int_str: "is_number (int_str n) = Inr (INT_MIN \<le> n \<and> n \<le> INT_MAX)"
proof (cases "LONG_MIN \<le> n \<and> n \<le> LONG_MAX")
  case True
  then have "strtol (int_str n @ [NUL]) = Inr (n, [NUL], False)"
    by (intro strtol_int_str) auto
  moreover have "int_str n \<noteq> []" by (simp add: int_str_def)
  ultimately show ?thesis by (auto simp: is_number_def)
next
  case False
  then have "\<not> (INT_MIN \<le> n \<and> n \<le> INT_MAX)" by (auto dest: int_in_long)
  moreover have "\<exists>x. strtol (int_str n @ [NUL]) = Inr (x, [NUL], True)"
    using False by (rule strtol_out_of_range)
  ultimately show ?thesis by (auto simp: is_number_def int_str_def)
qed

lemma is_number_total: "\<exists>b. is_number s = Inr b"
  using strtol_string [of s] by (auto simp: is_number_def)

section \<open>Incrementing\<close>

lemma snprintf63_int_str: "INT_MIN \<le> i \<Longrightarrow> i \<le> INT_MAX \<Longrightarrow> snprintf 63 (int_str i) = int_str i"
  using length_int_str [of i] by (simp add: snprintf_def)

lemma db_incr_missing:
  assumes t: "table_ok t" and "db_abs t k = None"
  obtains t' where "db_incr all_ok k t = Inr (t', \<lparr>ok = True, res_value = Some ''1'', res_error = None\<rparr>)"
    "table_ok t'" "db_abs t' = (db_abs t)(k \<mapsto> (''1'', 0))"
proof -
  obtain t' e where i: "install all_ok k ''1'' 0 t = Inr (t', Some e)" and "table_ok t'"
    "db_abs t' = (db_abs t)(k \<mapsto> (''1'', 0))" and e: "entry_abs e = (''1'', 0)" "entry_init e"
    by (rule install_refines [OF t set_ok_all_ok])
  moreover from e have "val e = Some ''1''" by (auto simp: entry_abs_def entry_init_def)
  ultimately show thesis
    using assms(2) by (intro that [of t']) (auto simp: db_incr_def db_abs_None)
qed

lemma db_incr_number:
  assumes t: "table_ok t" and m: "db_abs t k = Some (v, ex)"
    and num: "is_number v = Inr True" and lt: "atoi v \<noteq> INT_MAX"
  obtains t' where
    "db_incr all_ok k t = Inr (t', \<lparr>ok = True, res_value = Some (int_str (atoi v + 1)), res_error = None\<rparr>)"
    "table_ok t'" "db_abs t' = (db_abs t)(k \<mapsto> (int_str (atoi v + 1), ex))"
proof -
  let ?w = "int_str (atoi v + 1)"
  have r: "INT_MIN \<le> atoi v" "atoi v \<le> INT_MAX" using atoi_range [of v] by auto
  with lt have w: "snprintf 63 ?w = ?w" by (intro snprintf63_int_str) (auto simp: INT_MIN_def INT_MAX_def)
  obtain t' e where i: "install all_ok k ?w ex t = Inr (t', Some e)" and "table_ok t'"
    "db_abs t' = (db_abs t)(k \<mapsto> (?w, ex))" and e: "entry_abs e = (?w, ex)" "entry_init e"
    by (rule install_refines [OF t set_ok_all_ok])
  moreover from e have "val e = Some ?w" by (auto simp: entry_abs_def entry_init_def)
  ultimately show thesis
    using db_abs_SomeE [OF t m] num lt w by (intro that [of t']) (auto simp: db_incr_def)
qed

lemma db_incr_not_number:
  assumes t: "table_ok t" and m: "db_abs t k = Some (v, ex)" and num: "is_number v = Inr False"
  shows "db_incr all_ok k t = Inr (t, \<lparr>ok = False, res_value = None, res_error = Some not_integer_msg\<rparr>)"
  using db_abs_SomeE [OF t m] num by (simp add: db_incr_def)

lemma db_incr_overflow:
  assumes t: "table_ok t" and m: "db_abs t k = Some (v, ex)"
    and num: "is_number v = Inr True" and mx: "atoi v = INT_MAX"
  shows "db_incr all_ok k t = Inl SignedOverflow"
  using db_abs_SomeE [OF t m] num mx by (simp add: db_incr_def)

end
