(* ===== verification/Redis_RESP.thy ===== *)
theory Redis_RESP
  imports CLib
begin

text \<open>
  The protocol layer of the Redis clone: \<open>src/resp.c\<close> and \<open>resp.h\<close> (the parser and the release of
  a parsed value) and the reply formatters of \<open>src/server.c\<close>.

  A request is the byte array it stands in, from the first byte of the request to the end of the
  array, so a length field that promises more bytes than there are runs into \<open>OutOfBounds\<close> as the
  code would run past its buffer. The pointers of an array value are \<open>None\<close> while they are
  indeterminate. The allocations of this layer are taken to succeed.
\<close>

section \<open>Data\<close>

datatype resp_type = SIMPLE_STRING | ERRORS | INTEGERS | BULK_STRINGS | ARRAYS

datatype resp_value =
    RSimple string
  | RError string
  | RInteger int
  | RArray int "resp_value option list"

fun type_of_resp :: "resp_value \<Rightarrow> resp_type" where
  "type_of_resp (RSimple s) = SIMPLE_STRING"
| "type_of_resp (RError s) = ERRORS"
| "type_of_resp (RInteger i) = INTEGERS"
| "type_of_resp (RArray n xs) = ARRAYS"

fun resp_type_to_string :: "resp_type \<Rightarrow> string" where
  "resp_type_to_string SIMPLE_STRING = ''SIMPLE_STRING''"
| "resp_type_to_string ERRORS = ''ERROR''"
| "resp_type_to_string INTEGERS = ''INTEGER''"
| "resp_type_to_string BULK_STRINGS = ''BULK_STRING''"
| "resp_type_to_string ARRAYS = ''ARRAY''"

text \<open>The members of the union: reading one that was not written is a fault.\<close>

fun data_string :: "resp_value \<Rightarrow> string result" where
  "data_string (RSimple s) = Inr s"
| "data_string (RError s) = Inr s"
| "data_string _ = Inl WrongUnion"

fun data_count :: "resp_value \<Rightarrow> int result" where
  "data_count (RArray n xs) = Inr n"
| "data_count _ = Inl WrongUnion"

fun data_item :: "resp_value \<Rightarrow> nat \<Rightarrow> resp_value result" where
  "data_item (RArray n xs) i =
     (if i < length xs then read_init Uninit (xs ! i) else Inl OutOfBounds)"
| "data_item _ i = Inl WrongUnion"

section \<open>The parser\<close>

definition get_identify_type :: "mem \<Rightarrow> resp_type result" where
  "get_identify_type buf =
     (case buf of
        [] \<Rightarrow> Inl OutOfBounds
      | c # _ \<Rightarrow>
          if c = CHR ''+'' then Inr SIMPLE_STRING
          else if c = CHR ''-'' then Inr ERRORS
          else if c = CHR '':'' then Inr INTEGERS
          else if c = CHR ''$'' then Inr BULK_STRINGS
          else if c = CHR ''*'' then Inr ARRAYS
          else Inl (Exited 1))"

definition make_string :: "mem \<Rightarrow> resp_value" where
  "make_string str = RSimple (cstr str)"

text \<open>The copying loop of \<open>parse_simple_string\<close>, from the byte after the type byte.\<close>

fun copy_line :: "mem \<Rightarrow> string result" where
  "copy_line [] = Inl OutOfBounds"
| "copy_line [c] = (if c = NUL then Inr [] else Inl OutOfBounds)"
| "copy_line (c # d # r) =
     (if c = NUL then Inr []
      else if c = CR \<and> d = LF then Inr []
      else ebind (copy_line (d # r)) (\<lambda>w. Inr (c # w)))"

definition parse_simple_string :: "mem \<Rightarrow> resp_value result" where
  "parse_simple_string buf =
     (if NUL \<notin> set buf then Inl OutOfBounds
      else ebind (copy_line (tl buf)) (\<lambda>word. Inr (make_string (word @ [NUL]))))"

definition parse_error :: "mem \<Rightarrow> resp_value result" where
  "parse_error buf =
     ebind (parse_simple_string buf) (\<lambda>err. ebind (data_string err) (\<lambda>s. Inr (RError s)))"

definition parse_integer :: "mem \<Rightarrow> resp_value result" where
  "parse_integer buf =
     ebind (parse_simple_string buf) (\<lambda>i_resp.
     ebind (data_string i_resp) (\<lambda>s.
     ebind (strtol (s @ [NUL])) (\<lambda>(i_val, _, _). Inr (RInteger i_val))))"

text \<open>\<open>p + n\<close> is defined up to the end of the array.\<close>

definition advance :: "int \<Rightarrow> mem \<Rightarrow> mem result" where
  "advance n m = (if 0 \<le> n \<and> n \<le> int (length m) then Inr (drop (nat n) m) else Inl OutOfBounds)"

text \<open>
  \<open>sz\<close> is an \<open>int\<close>: \<open>sz + 1\<close> can overflow, \<open>-1\<close> reaches \<open>memcpy\<close> as the largest \<open>size_t\<close>, and a
  smaller one asks \<open>malloc\<close> for almost all of the address space, so that the word is \<open>NULL\<close>, which
  \<open>make_string\<close> dereferences.
\<close>

definition get_word :: "mem \<Rightarrow> int \<Rightarrow> mem result" where
  "get_word buf sz =
     (if sz = INT_MAX then Inl SignedOverflow
      else if sz < -1 then Inl NullDeref
      else if sz < 0 \<or> int (length buf) < sz then Inl OutOfBounds
      else Inr (take (nat sz) buf @ [NUL]))"

fun parse_items :: "nat \<Rightarrow> mem \<Rightarrow> resp_value list result" where
  "parse_items 0 buf = Inr []"
| "parse_items (Suc n) buf =
     (case buf of
        [] \<Rightarrow> Inl OutOfBounds
      | c # r \<Rightarrow>
          if c \<noteq> CHR ''$'' then Inr []
          else
            ebind (strtol r) (\<lambda>(v, endptr, _).
            let str_sz = to_int v in
            ebind (advance 2 endptr) (\<lambda>p.
            ebind (get_word p str_sz) (\<lambda>word.
            if INT_MAX < str_sz + 4 then Inl SignedOverflow
            else
              ebind (advance (str_sz + 2) p) (\<lambda>buf'.
              ebind (parse_items n buf') (\<lambda>items.
              Inr (make_string word # items)))))))"

definition resp_alloc_arr :: "int \<Rightarrow> resp_value list \<Rightarrow> resp_value" where
  "resp_alloc_arr sz items =
     RArray sz (map Some items @ replicate (nat sz - length items) None)"

definition parse_array :: "mem \<Rightarrow> resp_value result" where
  "parse_array buf =
     ebind (strtol (tl buf)) (\<lambda>(v, endptr, _).
     let arr_sz = to_int v in
     ebind (advance 2 endptr) (\<lambda>p.
     ebind (parse_items (nat arr_sz) p) (\<lambda>items.
     Inr (resp_alloc_arr arr_sz items))))"

definition parse :: "mem \<Rightarrow> resp_value result" where
  "parse buf =
     ebind (get_identify_type buf) (\<lambda>ty.
       case ty of
         SIMPLE_STRING \<Rightarrow> parse_simple_string buf
       | ARRAYS \<Rightarrow> parse_array buf
       | ERRORS \<Rightarrow> parse_error buf
       | INTEGERS \<Rightarrow> parse_integer buf
       | BULK_STRINGS \<Rightarrow> Inl (Exited 1))"

text \<open>
  \<open>free_resp\<close> walks all \<open>count\<close> pointers of an array, written or not.
\<close>

primrec free_resp :: "resp_value \<Rightarrow> unit result"
  and free_items :: "resp_value option list \<Rightarrow> unit result"
  and free_item :: "resp_value option \<Rightarrow> unit result" where
  "free_resp (RSimple s) = Inr ()"
| "free_resp (RError s) = Inr ()"
| "free_resp (RInteger i) = Inr ()"
| "free_resp (RArray n xs) = (if n > 0 then free_items xs else Inr ())"
| "free_items [] = Inr ()"
| "free_items (x # xs) = ebind (free_item x) (\<lambda>_. free_items xs)"
| "free_item None = Inl Uninit"
| "free_item (Some v) = free_resp v"

section \<open>Reply formatting\<close>

abbreviation CRLF :: string where "CRLF \<equiv> [CR, LF]"

definition nil_reply :: string where
  "nil_reply = ''$-1'' @ CRLF"

definition resp_simple :: "string option \<Rightarrow> string" where
  "resp_simple s = (case s of None \<Rightarrow> nil_reply | Some s \<Rightarrow> ''+'' @ s @ CRLF)"

definition resp_integer :: "int \<Rightarrow> string" where
  "resp_integer i = '':'' @ int_str i @ CRLF"

definition resp_error :: "string option \<Rightarrow> string" where
  "resp_error s = (case s of None \<Rightarrow> nil_reply | Some s \<Rightarrow> ''-'' @ s @ CRLF)"

definition resp_bulk :: "string option \<Rightarrow> string" where
  "resp_bulk s = (case s of
      None \<Rightarrow> nil_reply
    | Some s \<Rightarrow> ''$'' @ nat_str (length s) @ CRLF @ s @ CRLF)"

section \<open>What a client sends\<close>

definition encode_bulk :: "string \<Rightarrow> string" where
  "encode_bulk a = ''$'' @ nat_str (length a) @ CRLF @ a @ CRLF"

definition encode :: "string list \<Rightarrow> string" where
  "encode args = ''*'' @ nat_str (length args) @ CRLF @ concat (map encode_bulk args)"

definition sendable :: "string list \<Rightarrow> bool" where
  "sendable args \<longleftrightarrow> int (length args) \<le> INT_MAX \<and> (\<forall>a \<in> set args. int (length a) \<le> INT_MAX - 4)"

section \<open>Parsing what was encoded\<close>

lemma strtol_len:
  "int n \<le> INT_MAX \<Longrightarrow> strtol (nat_str n @ CR # r) = Inr (int n, CR # r, False)"
  by (rule strtol_nat_str) (auto simp: INT_MAX_def LONG_MAX_def)

lemma advance_2_CRLF [simp]: "advance 2 (CR # LF # r) = Inr r"
  by (simp add: advance_def)

lemma advance_append:
  "int (length a) + 2 = n \<Longrightarrow> advance n (a @ CR # LF # r) = Inr r"
  by (auto simp: advance_def nat_add_distrib)

lemma get_word_append:
  "int (length a) \<le> INT_MAX - 4 \<Longrightarrow> get_word (a @ r) (int (length a)) = Inr (a @ [NUL])"
  by (simp add: get_word_def INT_MAX_def)

lemma cstr_idem_append [simp]: "cstr (a @ [NUL]) = cstr a"
  by (induction a) (auto simp: cstr_def)

lemma parse_items_bulk:
  assumes a: "int (length a) \<le> INT_MAX - 4"
  shows "parse_items (Suc n) (encode_bulk a @ t) =
         ebind (parse_items n t) (\<lambda>items. Inr (RSimple (cstr a) # items))"
proof -
  have len: "to_int (int (length a)) = int (length a)"
    using a by (intro to_int_id) (auto simp: INT_MIN_def INT_MAX_def)
  have s: "strtol (nat_str (length a) @ CR # LF # a @ CR # LF # t) =
        Inr (int (length a), CR # LF # a @ CR # LF # t, False)"
    using a by (intro strtol_len) simp
  have "parse_items (Suc n) (CHR ''$'' # nat_str (length a) @ CR # LF # a @ CR # LF # t) =
         ebind (parse_items n t) (\<lambda>items. Inr (RSimple (cstr a) # items))"
    using a by (simp add: s len get_word_append advance_append make_string_def)
  then show ?thesis by (simp add: encode_bulk_def)
qed

lemma parse_items_encode:
  assumes "\<forall>a \<in> set args. int (length a) \<le> INT_MAX - 4"
  shows "parse_items (length args) (concat (map encode_bulk args) @ r) =
         Inr (map (\<lambda>a. RSimple (cstr a)) args)"
  using assms by (induction args) (simp_all add: parse_items_bulk del: parse_items.simps(2))

lemma parse_encode:
  assumes "sendable args"
  shows "parse (encode args @ r) =
         Inr (RArray (int (length args)) (map (\<lambda>a. Some (RSimple (cstr a))) args))"
proof -
  have n: "int (length args) \<le> INT_MAX" and a: "\<forall>a \<in> set args. int (length a) \<le> INT_MAX - 4"
    using assms by (auto simp: sendable_def)
  have "to_int (int (length args)) = int (length args)"
    using n by (intro to_int_id) (auto simp: INT_MIN_def)
  then show ?thesis
    using strtol_len [OF n] parse_items_encode [OF a, of r]
    by (simp add: encode_def parse_def get_identify_type_def parse_array_def resp_alloc_arr_def)
qed

lemma free_items_Some: "(\<forall>x \<in> set xs. free_item x = Inr ()) \<Longrightarrow> free_items xs = Inr ()"
  by (induction xs) auto

lemma free_items_None: "None \<in> set xs \<Longrightarrow> \<exists>e. free_items xs = Inl e"
proof (induction xs)
  case (Cons x xs)
  then show ?case by (cases x; cases "free_item x") auto
qed simp

lemma free_parsed [simp]: "free_resp (RArray n (map (\<lambda>a. Some (RSimple (f a))) args)) = Inr ()"
  by (simp add: free_items_Some)

lemma copy_line_CRLF:
  "is_cstr s \<Longrightarrow> CR \<notin> set s \<Longrightarrow> copy_line (s @ CR # LF # r) = Inr s"
proof (induction s)
  case (Cons c s)
  then show ?case by (cases s) auto
qed simp

lemma copy_line_is_cstr: "copy_line m = Inr w \<Longrightarrow> is_cstr w"
  by (induction m arbitrary: w rule: copy_line.induct)
     (auto split: if_splits simp: result_inv)

lemma copy_line_terminated: "NUL \<in> set m \<Longrightarrow> \<exists>w. copy_line m = Inr w"
  by (induction m rule: copy_line.induct) auto

lemma parse_simple_string_ok:
  "is_cstr s \<Longrightarrow> CR \<notin> set s \<Longrightarrow> NUL \<in> set r \<Longrightarrow>
   parse_simple_string (c # s @ CR # LF # r) = Inr (RSimple s)"
  by (simp add: parse_simple_string_def copy_line_CRLF make_string_def)

section \<open>What the parser hands out\<close>

fun well_typed :: "resp_value \<Rightarrow> bool" where
  "well_typed (RSimple s) \<longleftrightarrow> is_cstr s"
| "well_typed (RError s) \<longleftrightarrow> is_cstr s"
| "well_typed (RInteger i) \<longleftrightarrow> LONG_MIN \<le> i \<and> i \<le> LONG_MAX"
| "well_typed (RArray n xs) \<longleftrightarrow> INT_MIN \<le> n \<and> n \<le> INT_MAX \<and> length xs = nat n \<and>
     (\<exists>ws k. xs = map (\<lambda>w. Some (RSimple w)) ws @ replicate k None \<and> list_all is_cstr ws)"

lemma parse_items_ConsE:
  assumes "parse_items (Suc n) buf = Inr (x # xs)"
  obtains w buf' where "x = make_string w" "parse_items n buf' = Inr xs"
  using assms by (auto simp: result_inv Let_def split: list.splits if_splits)

lemma parse_items_typed:
  "parse_items n buf = Inr xs \<Longrightarrow> \<exists>ws. xs = map RSimple ws \<and> list_all is_cstr ws \<and> length ws \<le> n"
proof (induction n arbitrary: buf xs)
  case (Suc n)
  show ?case
  proof (cases xs)
    case (Cons x ys)
    from Suc.prems [unfolded Cons] obtain w buf' where w: "x = make_string w" "parse_items n buf' = Inr ys"
      by (rule parse_items_ConsE)
    obtain ws where "ys = map RSimple ws" "list_all is_cstr ws" "length ws \<le> n" using Suc.IH [OF w(2)] by blast
    then show ?thesis by (intro exI [of _ "cstr w # ws"]) (simp add: Cons w(1) make_string_def)
  qed simp
qed simp

lemma strtol_range: "strtol m = Inr (v, r, e) \<Longrightarrow> LONG_MIN \<le> v \<and> v \<le> LONG_MAX"
  by (auto simp: strtol_def clamp_long_def LONG_MIN_def LONG_MAX_def Let_def split: prod.splits if_splits)

lemma parse_simple_typed: "parse_simple_string buf = Inr v \<Longrightarrow> \<exists>s. v = RSimple s \<and> is_cstr s"
  by (auto simp: parse_simple_string_def result_inv make_string_def split: if_splits)

lemma free_items_iff: "free_items (map (\<lambda>w. Some (RSimple w)) ws @ replicate k None) = Inr () \<longleftrightarrow> k = 0"
  by (induction ws) (cases k, simp_all)

text \<open>C22: What the parser hands out has the type its first byte announces: strings are terminated, integers
  fit 64 bits, an array has as many pointers as its count says, the first of them terminated strings
  and the rest indeterminate. Releasing it is safe exactly when no pointer is indeterminate.\<close>

theorem parse_well_typed:
  assumes "parse buf = Inr v"
  shows "get_identify_type buf = Inr (type_of_resp v) \<and> well_typed v \<and>
    (free_resp v = Inr () \<longleftrightarrow> (\<forall>n xs. v = RArray n xs \<longrightarrow> None \<notin> set xs))"
proof -
  obtain ty where ty: "get_identify_type buf = Inr ty" using assms by (auto simp: parse_def result_inv)
  show ?thesis
  proof (cases ty)
    case SIMPLE_STRING
    then show ?thesis using assms ty parse_simple_typed [of buf v] by (auto simp: parse_def)
  next
    case ERRORS
    then show ?thesis using assms ty parse_simple_typed [of buf]
      by (auto simp: parse_def parse_error_def result_inv)
  next
    case INTEGERS
    then show ?thesis using assms ty strtol_range
      by (auto simp: parse_def parse_integer_def result_inv)
  next
    case BULK_STRINGS
    then show ?thesis using assms ty by (simp add: parse_def)
  next
    case ARRAYS
    then obtain n p xs where v: "v = resp_alloc_arr (to_int n) xs" "parse_items (nat (to_int n)) p = Inr xs"
      using assms ty by (auto simp: parse_def parse_array_def result_inv Let_def)
    obtain ws where ws: "xs = map RSimple ws" "list_all is_cstr ws" "length ws \<le> nat (to_int n)"
      using parse_items_typed [OF v(2)] by blast
    let ?k = "nat (to_int n) - length ws"
    have eq: "v = RArray (to_int n) (map (\<lambda>w. Some (RSimple w)) ws @ replicate ?k None)"
      by (simp add: v(1) ws(1) resp_alloc_arr_def comp_def)
    have "free_resp v = Inr () \<longleftrightarrow> ?k = 0" using free_items_iff [of ws ?k] by (simp add: eq)
    then show ?thesis using ty ARRAYS ws to_int_range [of n] by (auto simp: eq)
  qed
qed

theorem parse_well_typed_witness:
  "well_typed (RArray 2 [Some (RSimple ''a''), None]) \<and> free_resp (RArray 2 [Some (RSimple ''a''), None]) \<noteq> Inr ()"
proof -
  have "parse (''*2'' @ CRLF @ ''$1'' @ CRLF @ ''a'' @ CRLF @ [NUL]) = Inr (RArray 2 [Some (RSimple ''a''), None])"
    by code_simp
  from parse_well_typed [OF this] show ?thesis by simp
qed

end
