(* ===== verification/Redis_Server.thy ===== *)
theory Redis_Server
  imports Redis_DB Redis_RESP
begin

text \<open>
  Command execution in the Redis clone: \<open>exec_command\<close> and the per-client loop of
  \<open>src/server.c\<close>. One definition per branch of the command chain, composed in the order of the
  code. A command runs against the store of \<open>Redis_DB\<close> and a request array of \<open>Redis_RESP\<close>.

  \<open>clk i\<close> is the reading of \<open>now_ms()\<close> made while the \<open>i\<close>-th argument is processed (\<open>SET\<close> may
  read the clock once per option), \<open>clk 0\<close> the one made by a lookup; \<open>al\<close> are the outcomes of the
  allocations of the store. \<open>spec_command\<close> is the abstract machine: the effect of a command given
  as a list of words on the map of keys to values and expiry times.
\<close>

section \<open>The commands\<close>

type_synonym clock = "nat \<Rightarrow> u64"

definition item_string :: "resp_value \<Rightarrow> nat \<Rightarrow> string result" where
  "item_string cmd i = ebind (data_item cmd i) data_string"

definition syntax_error :: string where
  "syntax_error = ''ERR syntax error''"

definition expiry_error :: string where
  "expiry_error = ''ERR value is not an integer or out of range''"

definition is_expiry_flag :: "string \<Rightarrow> bool" where
  "is_expiry_flag opt \<longleftrightarrow> caseeq opt ''EX'' \<or> caseeq opt ''PX'' \<or> caseeq opt ''EXAT'' \<or> caseeq opt ''PXAT''"

text \<open>The arithmetic is on \<open>uint64_t\<close> and wraps.\<close>

definition expiry_of :: "u64 \<Rightarrow> string \<Rightarrow> int \<Rightarrow> u64" where
  "expiry_of now opt n =
     (if caseeq opt ''EX'' then now + of_int n * 1000
      else if caseeq opt ''PX'' then now + of_int n
      else if caseeq opt ''EXAT'' then of_int n * 1000
      else of_int n)"

text \<open>The option loop of \<open>SET\<close>: the error message, if any, and the expiry.\<close>

function set_opts :: "clock \<Rightarrow> resp_value \<Rightarrow> int \<Rightarrow> nat \<Rightarrow> u64 \<Rightarrow> (string option \<times> u64) result" where
  "set_opts clk cmd count i ex =
     (if int i < count then
        ebind (item_string cmd i) (\<lambda>opt.
        if \<not> is_expiry_flag opt then Inr (Some syntax_error, ex)
        else if int i + 1 \<ge> count then Inr (Some syntax_error, ex)
        else
          ebind (item_string cmd (i + 1)) (\<lambda>s.
          ebind (strtol (s @ [NUL])) (\<lambda>(n, endptr, _).
          if hd endptr \<noteq> NUL \<or> n \<le> 0 then Inr (Some expiry_error, ex)
          else set_opts clk cmd count (i + 2) (expiry_of (clk i) opt n))))
      else Inr (None, ex))"
  by pat_completeness auto
termination
  by (relation "measure (\<lambda>(clk, cmd, count, i, ex). nat (count - int i))") auto

declare set_opts.simps [simp del]

definition wrong_args :: "string \<Rightarrow> string" where
  "wrong_args name = ''ERR wrong number of arguments for '' @ [CHR 0x27] @ name @ [CHR 0x27]"

definition too_few :: "resp_value \<Rightarrow> int \<Rightarrow> bool" where
  "too_few cmd n = (case cmd of RArray count _ \<Rightarrow> count < n | _ \<Rightarrow> True)"

type_synonym reply = string

definition cmd_echo :: "resp_value \<Rightarrow> table \<Rightarrow> (table \<times> reply) result" where
  "cmd_echo cmd t =
     (if too_few cmd 2 then Inr (t, resp_error (Some (wrong_args ''echo'')))
      else ebind (item_string cmd 1) (\<lambda>s. Inr (t, resp_bulk (Some s))))"

definition cmd_set :: "alloc \<Rightarrow> clock \<Rightarrow> resp_value \<Rightarrow> table \<Rightarrow> (table \<times> reply) result" where
  "cmd_set al clk cmd t =
     (if too_few cmd 3 then Inr (t, resp_error (Some (wrong_args ''set'')))
      else
        ebind (item_string cmd 1) (\<lambda>k.
        ebind (item_string cmd 2) (\<lambda>v.
        ebind (data_count cmd) (\<lambda>count.
        ebind (set_opts clk cmd count 3 0) (\<lambda>(err, ex).
          case err of
            Some e \<Rightarrow> Inr (t, resp_error (Some e))
          | None \<Rightarrow> ebind (db_set_ex al k v ex t) (\<lambda>(t', _). Inr (t', resp_simple (Some ''OK''))))))))"

definition cmd_get :: "alloc \<Rightarrow> clock \<Rightarrow> resp_value \<Rightarrow> table \<Rightarrow> (table \<times> reply) result" where
  "cmd_get al clk cmd t =
     (if too_few cmd 2 then Inr (t, resp_error (Some (wrong_args ''get'')))
      else ebind (item_string cmd 1) (\<lambda>k.
           ebind (db_get al (clk 0) k t) (\<lambda>(t', v). Inr (t', resp_bulk v))))"

definition cmd_exists :: "alloc \<Rightarrow> clock \<Rightarrow> resp_value \<Rightarrow> table \<Rightarrow> (table \<times> reply) result" where
  "cmd_exists al clk cmd t =
     ebind (item_string cmd 1) (\<lambda>k.
     ebind (db_get al (clk 0) k t) (\<lambda>(t', v).
       Inr (t', resp_integer (if v \<noteq> None then 1 else 0))))"

text \<open>The deletion loop: the keys \<open>1 .. to_del\<close>, and how many were there.\<close>

fun del_loop :: "resp_value \<Rightarrow> nat \<Rightarrow> nat \<Rightarrow> int \<Rightarrow> table \<Rightarrow> (table \<times> int) result" where
  "del_loop cmd i 0 n t = Inr (t, n)"
| "del_loop cmd i (Suc m) n t =
     ebind (item_string cmd i) (\<lambda>k.
       let (t', b) = db_del k t in del_loop cmd (i + 1) m (n + (if b then 1 else 0)) t')"

definition cmd_del :: "resp_value \<Rightarrow> table \<Rightarrow> (table \<times> reply) result" where
  "cmd_del cmd t =
     ebind (data_count cmd) (\<lambda>count.
     let to_del = count - 1 in
     ebind (del_loop cmd 1 (nat to_del) 0 t) (\<lambda>(t', del_success).
       Inr (t', if to_del = 1
                then (if del_success \<noteq> 0 then resp_simple (Some ''OK'') else resp_integer 0)
                else resp_integer del_success)))"

definition cmd_incr :: "alloc \<Rightarrow> resp_value \<Rightarrow> table \<Rightarrow> (table \<times> reply) result" where
  "cmd_incr al cmd t =
     (if too_few cmd 2 then Inr (t, resp_error (Some (wrong_args ''incr'')))
      else
        ebind (item_string cmd 1) (\<lambda>k.
        ebind (db_incr al k t) (\<lambda>(t', r).
        if \<not> ok r then Inr (t', resp_error (res_error r))
        else ebind (read_init NullDeref (res_value r)) (\<lambda>v. Inr (t', resp_integer (atoi v))))))"

definition unknown_command :: reply where
  "unknown_command = resp_error (Some ''ERR unknown command'')"

definition cmd_name_of :: "resp_value \<Rightarrow> string option result" where
  "cmd_name_of cmd =
     (case cmd of
        RArray count _ \<Rightarrow> if 0 < count then ebind (item_string cmd 0) (\<lambda>s. Inr (Some s)) else Inr None
      | RSimple s \<Rightarrow> Inr (Some s)
      | _ \<Rightarrow> Inr None)"

definition dispatch :: "alloc \<Rightarrow> clock \<Rightarrow> string \<Rightarrow> resp_value \<Rightarrow> table \<Rightarrow> (table \<times> reply) result" where
  "dispatch al clk name cmd t =
     (if caseeq name ''PING'' then Inr (t, resp_simple (Some ''PONG''))
      else if caseeq name ''ECHO'' then cmd_echo cmd t
      else if caseeq name ''SET'' then cmd_set al clk cmd t
      else if caseeq name ''GET'' then cmd_get al clk cmd t
      else if caseeq name ''EXISTS'' then cmd_exists al clk cmd t
      else if caseeq name ''DEL'' then cmd_del cmd t
      else if caseeq name ''INCR'' then cmd_incr al cmd t
      else Inr (t, unknown_command))"

definition exec_command :: "alloc \<Rightarrow> clock \<Rightarrow> mem \<Rightarrow> table \<Rightarrow> (table \<times> reply) result" where
  "exec_command al clk request t =
     ebind (parse request) (\<lambda>cmd.
     ebind (cmd_name_of cmd) (\<lambda>name.
     ebind (case name of None \<Rightarrow> Inr (t, unknown_command) | Some n \<Rightarrow> dispatch al clk n cmd t) (\<lambda>(t', reply).
     ebind (free_resp cmd) (\<lambda>_. Inr (t', reply)))))"

section \<open>The client loop\<close>

text \<open>
  \<open>per_client\<close>: each element of the list is what one \<open>read\<close> of at most 1023 bytes returned, an
  empty one (or the end of the list) being end of file or an error. The bytes land at the front of
  the buffer, which keeps what it held behind the terminator. The result is the list of replies
  sent and the store.
\<close>

definition fill_buffer :: "mem \<Rightarrow> mem \<Rightarrow> mem" where
  "fill_buffer buf chunk = chunk @ NUL # drop (length chunk + 1) buf"

fun per_client :: "alloc \<Rightarrow> (nat \<Rightarrow> clock) \<Rightarrow> nat \<Rightarrow> mem list \<Rightarrow> mem \<Rightarrow> table \<Rightarrow> (table \<times> reply list) result" where
  "per_client al clks j [] buf t = Inr (t, [])"
| "per_client al clks j (chunk # chunks) buf t =
     (if chunk = [] then Inr (t, [])
      else
        let buf' = fill_buffer buf chunk in
        ebind (exec_command al (clks j) buf' t) (\<lambda>(t', reply).
        ebind (per_client al clks (j + 1) chunks buf' t') (\<lambda>(t'', replies).
        Inr (t'', reply # replies))))"

section \<open>The abstract machine\<close>

type_synonym store = "string \<rightharpoonup> string \<times> u64"

fun spec_opts :: "clock \<Rightarrow> nat \<Rightarrow> string list \<Rightarrow> u64 \<Rightarrow> string option \<times> u64" where
  "spec_opts clk i [] ex = (None, ex)"
| "spec_opts clk i [opt] ex = (Some syntax_error, ex)"
| "spec_opts clk i (opt # s # opts) ex =
     (if \<not> is_expiry_flag opt then (Some syntax_error, ex)
      else case strtol (s @ [NUL]) of
             Inl _ \<Rightarrow> (Some expiry_error, ex)
           | Inr (n, endptr, _) \<Rightarrow>
               if hd endptr \<noteq> NUL \<or> n \<le> 0 then (Some expiry_error, ex)
               else spec_opts clk (i + 2) opts (expiry_of (clk i) opt n))"

definition spec_set :: "clock \<Rightarrow> string list \<Rightarrow> store \<Rightarrow> (store \<times> reply) result" where
  "spec_set clk args m =
     (case args of
        k # v # opts \<Rightarrow>
          (case spec_opts clk 3 opts 0 of
             (Some e, _) \<Rightarrow> Inr (m, resp_error (Some e))
           | (None, ex) \<Rightarrow> Inr (m(k \<mapsto> (v, ex)), resp_simple (Some ''OK'')))
      | _ \<Rightarrow> Inr (m, resp_error (Some (wrong_args ''set''))))"

definition spec_get_cmd :: "clock \<Rightarrow> string list \<Rightarrow> store \<Rightarrow> (store \<times> reply) result" where
  "spec_get_cmd clk args m =
     (case args of
        [] \<Rightarrow> Inr (m, resp_error (Some (wrong_args ''get'')))
      | k # _ \<Rightarrow> let (m', v) = spec_get (clk 0) k m in Inr (m', resp_bulk v))"

definition spec_exists :: "clock \<Rightarrow> string list \<Rightarrow> store \<Rightarrow> (store \<times> reply) result" where
  "spec_exists clk args m =
     (case args of
        [] \<Rightarrow> Inl OutOfBounds
      | k # _ \<Rightarrow> let (m', v) = spec_get (clk 0) k m in Inr (m', resp_integer (if v \<noteq> None then 1 else 0)))"

fun spec_del_keys :: "string list \<Rightarrow> int \<Rightarrow> store \<Rightarrow> store \<times> int" where
  "spec_del_keys [] n m = (m, n)"
| "spec_del_keys (k # ks) n m = spec_del_keys ks (n + (if m k \<noteq> None then 1 else 0)) (m(k := None))"

definition spec_del :: "string list \<Rightarrow> store \<Rightarrow> (store \<times> reply) result" where
  "spec_del args m =
     (let (m', n) = spec_del_keys args 0 m in
      Inr (m', if length args = 1 then (if n \<noteq> 0 then resp_simple (Some ''OK'') else resp_integer 0)
               else resp_integer n))"

definition spec_incr :: "string list \<Rightarrow> store \<Rightarrow> (store \<times> reply) result" where
  "spec_incr args m =
     (case args of
        [] \<Rightarrow> Inr (m, resp_error (Some (wrong_args ''incr'')))
      | k # _ \<Rightarrow>
          (case m k of
             None \<Rightarrow> Inr (m(k \<mapsto> (''1'', 0)), resp_integer 1)
           | Some (v, ex) \<Rightarrow>
               if is_number v \<noteq> Inr True then Inr (m, resp_error (Some not_integer_msg))
               else if atoi v = INT_MAX then Inl SignedOverflow
               else Inr (m(k \<mapsto> (int_str (atoi v + 1), ex)), resp_integer (atoi v + 1))))"

definition spec_command :: "clock \<Rightarrow> string list \<Rightarrow> store \<Rightarrow> (store \<times> reply) result" where
  "spec_command clk words m =
     (case words of
        [] \<Rightarrow> Inr (m, unknown_command)
      | name # args \<Rightarrow>
          if caseeq name ''PING'' then Inr (m, resp_simple (Some ''PONG''))
          else if caseeq name ''ECHO'' then
            (case args of
               [] \<Rightarrow> Inr (m, resp_error (Some (wrong_args ''echo'')))
             | s # _ \<Rightarrow> Inr (m, resp_bulk (Some s)))
          else if caseeq name ''SET'' then spec_set clk args m
          else if caseeq name ''GET'' then spec_get_cmd clk args m
          else if caseeq name ''EXISTS'' then spec_exists clk args m
          else if caseeq name ''DEL'' then spec_del args m
          else if caseeq name ''INCR'' then spec_incr args m
          else Inr (m, unknown_command))"

text \<open>What it means that a step on the table does the step on the map.\<close>

definition refines :: "(table \<times> 'a) result \<Rightarrow> (store \<times> 'a) result \<Rightarrow> bool" where
  "refines c a \<longleftrightarrow>
     (case a of
        Inl e \<Rightarrow> c = Inl e
      | Inr (m, r) \<Rightarrow> (\<exists>t. c = Inr (t, r) \<and> table_ok t \<and> db_abs t = m))"


section \<open>The commands refine the abstract machine\<close>

definition words_value :: "string list \<Rightarrow> resp_value" where
  "words_value ws = RArray (int (length ws)) (map (\<lambda>a. Some (RSimple a)) ws)"

lemma item_string_words:
  "item_string (words_value ws) i = (if i < length ws then Inr (ws ! i) else Inl OutOfBounds)"
  by (simp add: item_string_def words_value_def)

lemma data_count_words [simp]: "data_count (words_value ws) = Inr (int (length ws))"
  by (simp add: words_value_def)

lemma too_few_words [simp]: "too_few (words_value ws) n \<longleftrightarrow> int (length ws) < n"
  by (simp add: too_few_def words_value_def)

lemma free_words [simp]: "free_resp (words_value ws) = Inr ()"
  using free_parsed [of "int (length ws)" id ws] by (simp add: words_value_def)

lemma refines_Inr [simp]:
  "refines (Inr (t, r)) (Inr (m, r')) \<longleftrightarrow> r = r' \<and> table_ok t \<and> db_abs t = m"
  by (auto simp: refines_def)

lemma refines_Inl [simp]: "refines c (Inl e) \<longleftrightarrow> c = Inl e"
  by (simp add: refines_def)

lemma set_opts_words:
  "i \<le> length ws \<Longrightarrow>
   set_opts clk (words_value ws) (int (length ws)) i ex = Inr (spec_opts clk i (drop i ws) ex)"
proof (induction clk cmd\<equiv>"words_value ws" count\<equiv>"int (length ws)" i ex rule: set_opts.induct)
  case (1 clk i ex)
  consider (none) "i = length ws" | (one) "i + 1 = length ws" | (two) "i + 2 \<le> length ws"
    using 1(2) by linarith
  then show ?case
  proof cases
    case none
    then show ?thesis by (simp add: set_opts.simps)
  next
    case one
    then have "drop i ws = [ws ! i]"
      by (metis Cons_nth_drop_Suc Suc_eq_plus1 drop_all lessI order_refl)
    with one show ?thesis by (simp add: set_opts.simps [of clk _ _ i] item_string_words)
  next
    case two
    then have d: "drop i ws = ws ! i # ws ! (i + 1) # drop (i + 2) ws"
      by (simp add: Cons_nth_drop_Suc)
    obtain n endptr e where s: "strtol ((ws ! (i + 1)) @ [NUL]) = Inr (n, endptr, e)"
      using strtol_string by blast
    have rec: "set_opts clk (words_value ws) (int (length ws)) (i + 2) (expiry_of (clk i) (ws ! i) n) =
        Inr (spec_opts clk (i + 2) (drop (i + 2) ws) (expiry_of (clk i) (ws ! i) n))"
      if "is_expiry_flag (ws ! i)" "hd endptr = NUL" "0 < n"
      using two that s by (intro 1(1)) (auto simp: item_string_words)
    show ?thesis
      using two rec s by (auto simp: set_opts.simps [of clk _ _ i] item_string_words d simp del: add_2_eq_Suc')
  qed
qed

lemma cmd_set_refines:
  assumes t: "table_ok t"
  shows "refines (cmd_set all_ok clk (words_value (w # args)) t) (spec_set clk args (db_abs t))"
proof (cases "length args < 2")
  case True
  then show ?thesis using t
    by (cases args; cases "tl args") (auto simp: cmd_set_def spec_set_def)
next
  case False
  then obtain k v opts where args: "args = k # v # opts"
    by (cases args; cases "tl args") auto
  obtain err ex where so: "spec_opts clk 3 opts 0 = (err, ex)" by fastforce
  have "set_opts clk (words_value (w # args)) (int (length (w # args))) 3 0 = Inr (err, ex)"
    using set_opts_words [of 3 "w # args" clk 0] so by (simp add: args)
  moreover obtain t' where "db_set_ex all_ok k v ex t = Inr (t', True)" "table_ok t'"
    "db_abs t' = (db_abs t)(k \<mapsto> (v, ex))"
    by (rule db_set_ex_refines [OF t set_ok_all_ok])
  ultimately show ?thesis using so t
    by (cases err) (simp_all add: cmd_set_def spec_set_def args item_string_words)
qed

lemma db_get_refines:
  assumes "table_ok t"
  shows "refines (db_get all_ok now k t) (Inr (spec_get now k (db_abs t)))"
proof -
  have "copy_ok all_ok" by simp
  then obtain t' where "db_get all_ok now k t = Inr (t', snd (spec_get now k (db_abs t)))"
    "table_ok t'" "db_abs t' = fst (spec_get now k (db_abs t))"
    by (rule db_get_cases [OF assms])
  then show ?thesis by (cases "spec_get now k (db_abs t)") simp
qed

lemma refines_InrE:
  assumes "refines c (Inr (m, r))"
  obtains t where "c = Inr (t, r)" "table_ok t" "db_abs t = m"
  using assms by (auto simp: refines_def)

lemma cmd_get_refines:
  assumes t: "table_ok t"
  shows "refines (cmd_get all_ok clk (words_value (w # args)) t) (spec_get_cmd clk args (db_abs t))"
proof (cases args)
  case Nil
  with t show ?thesis by (simp add: cmd_get_def spec_get_cmd_def)
next
  case (Cons k ks)
  obtain m v where g: "spec_get (clk 0) k (db_abs t) = (m, v)" by fastforce
  from db_get_refines [OF t, of "clk 0" k] obtain t' where
    "db_get all_ok (clk 0) k t = Inr (t', v)" "table_ok t'" "db_abs t' = m"
    unfolding g by (rule refines_InrE)
  with Cons g show ?thesis by (simp add: cmd_get_def spec_get_cmd_def item_string_words)
qed

lemma cmd_exists_refines:
  assumes t: "table_ok t"
  shows "refines (cmd_exists all_ok clk (words_value (w # args)) t) (spec_exists clk args (db_abs t))"
proof (cases args)
  case Nil
  then show ?thesis by (simp add: cmd_exists_def spec_exists_def item_string_words)
next
  case (Cons k ks)
  obtain m v where g: "spec_get (clk 0) k (db_abs t) = (m, v)" by fastforce
  from db_get_refines [OF t, of "clk 0" k] obtain t' where
    "db_get all_ok (clk 0) k t = Inr (t', v)" "table_ok t'" "db_abs t' = m"
    unfolding g by (rule refines_InrE)
  with Cons g show ?thesis by (simp add: cmd_exists_def spec_exists_def item_string_words)
qed

lemma del_loop_words:
  assumes "table_ok t" and "i + m = length ws"
  shows "refines (del_loop (words_value ws) i m n t) (Inr (spec_del_keys (drop i ws) n (db_abs t)))"
  using assms
proof (induction m arbitrary: i n t)
  case 0
  then show ?case by simp
next
  case (Suc m)
  let ?t' = "fst (db_del (ws ! i) t)" and ?b = "snd (db_del (ws ! i) t)"
  have i: "i < length ws" using Suc.prems by simp
  have u: "table_ok ?t'" "db_abs ?t' = (db_abs t)(ws ! i := None)" "?b \<longleftrightarrow> db_abs t (ws ! i) \<noteq> None"
    using undef_refines [OF Suc.prems(1)] by (simp_all add: db_del_def)
  have "refines (del_loop (words_value ws) (i + 1) m (n + (if ?b then 1 else 0)) ?t')
      (Inr (spec_del_keys (drop (i + 1) ws) (n + (if ?b then 1 else 0)) (db_abs ?t')))"
    using Suc.prems u(1) by (intro Suc.IH) auto
  moreover have "drop i ws = ws ! i # drop (i + 1) ws"
    using i by (simp add: Cons_nth_drop_Suc)
  ultimately show ?case
    using i u by (simp add: item_string_words split_beta)
qed

lemma cmd_del_refines:
  assumes t: "table_ok t"
  shows "refines (cmd_del (words_value (w # args)) t) (spec_del args (db_abs t))"
proof -
  obtain m n where g: "spec_del_keys args 0 (db_abs t) = (m, n)" by fastforce
  from del_loop_words [OF t, of 1 "length args" "w # args" 0] obtain t' where
    "del_loop (words_value (w # args)) 1 (length args) 0 t = Inr (t', n)" "table_ok t'" "db_abs t' = m"
    by (simp add: g) (erule refines_InrE)
  then show ?thesis by (simp add: cmd_del_def spec_del_def g)
qed

lemma cmd_incr_refines:
  assumes t: "table_ok t"
  shows "refines (cmd_incr all_ok (words_value (w # args)) t) (spec_incr args (db_abs t))"
proof (cases args)
  case Nil
  with t show ?thesis by (simp add: cmd_incr_def spec_incr_def)
next
  case (Cons k ks)
  note simps = cmd_incr_def spec_incr_def item_string_words Cons
  show ?thesis
  proof (cases "db_abs t k")
    case None
    obtain t' where
      "db_incr all_ok k t = Inr (t', \<lparr>ok = True, res_value = Some ''1'', res_error = None\<rparr>)"
      "table_ok t'" "db_abs t' = (db_abs t)(k \<mapsto> (''1'', 0))"
      by (rule db_incr_missing [OF t None])
    moreover have "atoi ''1'' = 1"
      using atoi_int_str [of 1] by (simp add: int_str_1 INT_MIN_def INT_MAX_def)
    ultimately show ?thesis using None by (simp add: simps)
  next
    case (Some vx)
    obtain v ex where m: "db_abs t k = Some (v, ex)" using Some by (cases vx) auto
    obtain b where b: "is_number v = Inr b" using is_number_total by blast
    consider (no) "\<not> b" | (max) "b" "atoi v = INT_MAX" | (inc) "b" "atoi v \<noteq> INT_MAX" by blast
    then show ?thesis
    proof cases
      case no
      with b m t show ?thesis by (simp add: simps db_incr_not_number [OF t m])
    next
      case max
      with b m t show ?thesis by (simp add: simps db_incr_overflow [OF t m])
    next
      case inc
      then have num: "is_number v = Inr True" using b by simp
      obtain t' where
        "db_incr all_ok k t = Inr (t', \<lparr>ok = True, res_value = Some (int_str (atoi v + 1)), res_error = None\<rparr>)"
        "table_ok t'" "db_abs t' = (db_abs t)(k \<mapsto> (int_str (atoi v + 1), ex))"
        by (rule db_incr_number [OF t m num inc(2)])
      moreover have "atoi (int_str (atoi v + 1)) = atoi v + 1"
        using atoi_range [of v] inc(2) by (intro atoi_int_str) (auto simp: INT_MIN_def INT_MAX_def)
      ultimately show ?thesis using m num inc(2) by (simp add: simps)
    qed
  qed
qed

lemma dispatch_refines:
  assumes t: "table_ok t"
  shows "refines (dispatch all_ok clk w (words_value (w # args)) t) (spec_command clk (w # args) (db_abs t))"
proof -
  have echo: "refines (cmd_echo (words_value (w # args)) t)
      (case args of [] \<Rightarrow> Inr (db_abs t, resp_error (Some (wrong_args ''echo'')))
       | s # _ \<Rightarrow> Inr (db_abs t, resp_bulk (Some s)))"
    using t by (cases args) (simp_all add: cmd_echo_def item_string_words)
  show ?thesis
    using t echo cmd_set_refines [OF t] cmd_get_refines [OF t] cmd_exists_refines [OF t]
      cmd_del_refines [OF t] cmd_incr_refines [OF t]
    by (simp add: dispatch_def spec_command_def)
qed

lemma exec_words:
  assumes "sendable args"
  shows "exec_command al clk (encode args @ NUL # rest) t =
    (case map cstr args of
       [] \<Rightarrow> Inr (t, unknown_command)
     | w # ws \<Rightarrow> dispatch al clk w (words_value (w # ws)) t)"
proof -
  have p: "parse (encode args @ NUL # rest) = Inr (words_value (map cstr args))"
    using parse_encode [OF assms, of "NUL # rest"] by (simp add: words_value_def)
  show ?thesis
  proof (cases args)
    case Nil
    then show ?thesis using p by (simp add: exec_command_def cmd_name_of_def words_value_def)
  next
    case (Cons a as)
    have "cmd_name_of (words_value (map cstr args)) = Inr (Some (cstr a))"
      using Cons by (simp add: cmd_name_of_def words_value_def item_string_def)
    then show ?thesis
      using p Cons
      by (cases "dispatch al clk (cstr a) (words_value (map cstr args)) t") (simp_all add: exec_command_def)
  qed
qed

lemma exec_refines:
  assumes "table_ok t" and "sendable args"
  shows "refines (exec_command all_ok clk (encode args @ NUL # rest) t)
    (spec_command clk (map cstr args) (db_abs t))"
proof (cases args)
  case Nil
  then show ?thesis using assms(1) exec_words [OF assms(2)] by (simp add: spec_command_def)
next
  case (Cons a as)
  then show ?thesis using dispatch_refines [OF assms(1)] exec_words [OF assms(2)] by simp
qed


section \<open>Sessions\<close>

text \<open>A session on the abstract machine: one command per read.\<close>

fun spec_session :: "(nat \<Rightarrow> clock) \<Rightarrow> nat \<Rightarrow> string list list \<Rightarrow> store \<Rightarrow> (store \<times> reply list) result" where
  "spec_session clks j [] m = Inr (m, [])"
| "spec_session clks j (args # rest) m =
     ebind (spec_command (clks j) (map cstr args) m) (\<lambda>(m', r).
     ebind (spec_session clks (j + 1) rest m') (\<lambda>(m'', rs). Inr (m'', r # rs)))"

lemma encode_nonempty [simp]: "encode args \<noteq> []"
  by (simp add: encode_def)

lemma refines_bind:
  assumes "refines c a" and "\<And>t r. table_ok t \<Longrightarrow> refines (f (t, r)) (g (db_abs t, r))"
  shows "refines (ebind c f) (ebind a g)"
proof (cases a)
  case (Inl e)
  with assms(1) show ?thesis by simp
next
  case (Inr mr)
  obtain m r where a: "a = Inr (m, r)" using Inr by (cases mr) auto
  from assms(1) obtain t where "c = Inr (t, r)" "table_ok t" "db_abs t = m"
    unfolding a by (rule refines_InrE)
  with a assms(2) [of t r] show ?thesis by simp
qed

lemma per_client_refines:
  assumes "table_ok t" and "list_all sendable argss"
  shows "refines (per_client all_ok clks j (map encode argss) buf t) (spec_session clks j argss (db_abs t))"
  using assms
proof (induction argss arbitrary: j buf t)
  case Nil
  then show ?case by simp
next
  case (Cons args argss)
  let ?buf = "fill_buffer buf (encode args)"
  have "refines (exec_command all_ok (clks j) ?buf t) (spec_command (clks j) (map cstr args) (db_abs t))"
    unfolding fill_buffer_def using Cons.prems by (intro exec_refines) auto
  moreover have "refines
      (ebind (per_client all_ok clks (j + 1) (map encode argss) ?buf u) (\<lambda>(t'', rs). Inr (t'', r # rs)))
      (ebind (spec_session clks (j + 1) argss (db_abs u)) (\<lambda>(m'', rs). Inr (m'', r # rs)))"
    if "table_ok u" for u r
    using Cons.IH [OF that, of "j + 1" ?buf] Cons.prems by (intro refines_bind) auto
  ultimately show ?case
    by (simp add: Let_def) (rule refines_bind, auto)
qed

section \<open>Properties\<close>

text \<open>C1: For every well-formed request, whatever bytes follow it in the buffer, the server does
  what the abstract machine does: the same reply, the same fault where the machine faults, and a
  table that is well formed and stands for the map the machine ends in.\<close>

theorem exec_command_refines_spec:
  assumes "table_ok t" and "sendable args"
  shows "case spec_command clk (map cstr args) (db_abs t) of
           Inl e \<Rightarrow> exec_command all_ok clk (encode args @ NUL # rest) t = Inl e
         | Inr (m, r) \<Rightarrow> \<exists>t'. exec_command all_ok clk (encode args @ NUL # rest) t = Inr (t', r) \<and>
                           table_ok t' \<and> db_abs t' = m"
  using exec_refines [OF assms] by (simp add: refines_def)

lemma caseeq_ping: "caseeq ''ping'' ''PING''"
  by code_simp

theorem exec_command_refines_spec_witness:
  "\<exists>t'. exec_command all_ok (\<lambda>_. 7) (encode [''ping''] @ [NUL]) empty_table = Inr (t', ''+PONG'' @ CRLF) \<and>
     table_ok t' \<and> db_abs t' = Map.empty"
  using exec_command_refines_spec [of empty_table "[''ping'']" "\<lambda>_. 7" "[]"]
  by (simp add: sendable_def INT_MAX_def spec_command_def caseeq_ping resp_simple_def)



lemma sendable_get: "sendable (c # k # ks) \<Longrightarrow> length c' \<le> length c \<Longrightarrow> sendable [c', k]"
  by (auto simp: sendable_def INT_MAX_def)

lemma spec_get_kw [simp]: "spec_command clk (''GET'' # args) m = spec_get_cmd clk args m"
  by (simp add: spec_command_def caseeq_def tolower_def)

lemma spec_set_kw [simp]: "spec_command clk (''SET'' # args) m = spec_set clk args m"
  by (simp add: spec_command_def caseeq_def tolower_def)

lemma spec_incr_kw [simp]: "spec_command clk (''INCR'' # args) m = spec_incr args m"
  by (simp add: spec_command_def caseeq_def tolower_def)

lemma is_cstr_kw [simp]: "cstr ''GET'' = ''GET''" "cstr ''SET'' = ''SET''" "cstr ''INCR'' = ''INCR''"
  "cstr ''EX'' = ''EX''" "cstr ''PX'' = ''PX''"
  by simp_all

text \<open>The reply of one request when the abstract machine does not fault.\<close>

lemma exec_step:
  assumes "table_ok t" and "sendable args" and "spec_command clk (map cstr args) (db_abs t) = Inr (m, r)"
  obtains t' where "exec_command all_ok clk (encode args @ NUL # rest) t = Inr (t', r)"
    "table_ok t'" "db_abs t' = m"
  using exec_refines [OF assms(1,2), of clk rest] unfolding assms(3) by (rule refines_InrE)

text \<open>What a client stores with SET it reads back with GET, at any later clock, byte for byte,
  and the store has changed at that key only.\<close>

lemma set_then_get:
  assumes t: "table_ok t" and "is_cstr k" and "is_cstr v" and s: "sendable [''SET'', k, v]"
  shows "\<exists>t' t''. exec_command all_ok clk (encode [''SET'', k, v] @ NUL # r) t = Inr (t', ''+OK'' @ CRLF) \<and>
     exec_command all_ok clk' (encode [''GET'', k] @ NUL # r') t' =
       Inr (t'', ''$'' @ nat_str (length v) @ CRLF @ v @ CRLF) \<and>
     db_abs t'' = (db_abs t)(k \<mapsto> (v, 0))"
proof -
  obtain t' where 1: "exec_command all_ok clk (encode [''SET'', k, v] @ NUL # r) t = Inr (t', ''+OK'' @ CRLF)"
    and t': "table_ok t'" "db_abs t' = (db_abs t)(k \<mapsto> (v, 0))"
    by (rule exec_step [OF t s, of clk "(db_abs t)(k \<mapsto> (v, 0))" "''+OK'' @ CRLF" r])
       (use assms in \<open>simp_all add: spec_set_def resp_simple_def\<close>)
  have g: "sendable [''GET'', k]" by (rule sendable_get [OF s]) simp
  obtain t'' where "exec_command all_ok clk' (encode [''GET'', k] @ NUL # r') t' =
       Inr (t'', ''$'' @ nat_str (length v) @ CRLF @ v @ CRLF)"
    and "table_ok t''" "db_abs t'' = (db_abs t)(k \<mapsto> (v, 0))"
    by (rule exec_step [OF t'(1) g, of clk' "(db_abs t)(k \<mapsto> (v, 0))" "resp_bulk (Some v)" r'])
       (use assms in \<open>simp_all add: spec_get_cmd_def spec_get_def t' expired_at_def resp_bulk_def\<close>)
  with 1 show ?thesis by blast
qed

lemma set_then_get_instance:
  "\<exists>t' t''. exec_command all_ok (\<lambda>_. 5) (encode [''SET'', ''a'', ''b''] @ [NUL]) empty_table =
       Inr (t', ''+OK'' @ CRLF) \<and>
     exec_command all_ok (\<lambda>_. 9) (encode [''GET'', ''a''] @ [NUL]) t' =
       Inr (t'', ''$'' @ nat_str 1 @ CRLF @ ''b'' @ CRLF) \<and>
     db_abs t'' = [''a'' \<mapsto> (''b'', 0)]"
  using set_then_get [of empty_table "''a''" "''b''" "\<lambda>_. 5" "[]" "\<lambda>_. 9" "[]"]
  by (simp add: sendable_def INT_MAX_def)

end
