(* ===== verification/Redis_Props.thy ===== *)
theory Redis_Props
  imports Redis_Server
begin

text \<open>
  Properties of the Redis clone as a whole, from request bytes to reply bytes: expiry, counters,
  runs of the store, and what malformed or pipelined requests do.
\<close>

section \<open>Runs of the store\<close>

text \<open>C10: Any sequence of stores and deletions on the chained table computes the map it stands for,
  whatever keys collide.\<close>

theorem store_run_correct:
  "db_abs (fold (apply_op db_put db_remove) ops empty_table) = fold map_op ops Map.empty"
  by (rule db.get_run_empty)

text \<open>The hash of every key is a valid index of the bucket array.\<close>

lemma hash_in_range: "hash k < unat HASH_SIZE"
  using hash_bound [of k] by (simp add: HASH_SIZE_def)

section \<open>Expiry\<close>

lemma strtol_pos: "int n \<le> LONG_MAX \<Longrightarrow> strtol (nat_str n @ [NUL]) = Inr (int n, [NUL], False)"
  by (rule strtol_nat_str) simp

lemma spec_opts_one:
  assumes "is_expiry_flag opt" and "0 < n" and "int n \<le> LONG_MAX"
  shows "spec_opts clk i [opt, nat_str n] ex = (None, expiry_of (clk i) opt (int n))"
  using assms by (simp add: strtol_pos)


lemma is_expiry_flag_px: "is_expiry_flag ''px''"
  by code_simp

lemma px_deadline: "expiry_of 100 ''px'' 50 = 150"
  by code_simp


text \<open>The deadline of EX is exact (now plus \<open>n\<close> seconds) whenever it fits 64 bits.\<close>

lemma expiry_exact:
  assumes "0 < n" and "unat now + 1000 * nat n < 2 ^ 64"
  shows "unat (expiry_of now ''EX'' n) = unat now + 1000 * nat n"
proof -
  have "(of_int n :: u64) = of_nat (nat n)" using assms(1) by simp
  then have "now + of_int n * 1000 = (of_nat (unat now + nat n * 1000) :: u64)" by simp
  moreover have "unat (of_nat (unat now + nat n * 1000) :: u64) = unat now + nat n * 1000"
    using assms(2) by (simp add: unat_of_nat del: of_nat_add of_nat_mult)
  ultimately show ?thesis by (simp add: expiry_of_def)
qed

lemma expiry_exact_instance: "unat (expiry_of 5 ''EX'' 2) = 2005"
  using expiry_exact [of 2 5] by simp

text \<open>The deadline wraps for larger arguments that the option check accepts: a SET with EX
  18446744073709552 seconds (hundreds of millions of years) expires 384 milliseconds later.\<close>

lemma expiry_wraps:
  "spec_opts clk 3 [''EX'', ''18446744073709552''] 0 = (None, clk 3 + 384)"
proof -
  have e: "''18446744073709552'' = nat_str 18446744073709552"
    by (simp add: nat_str.simps)
  have "spec_opts clk 3 [''EX'', nat_str 18446744073709552] 0 =
      (None, expiry_of (clk 3) ''EX'' (int 18446744073709552))"
    by (rule spec_opts_one) (simp_all add: is_expiry_flag_def LONG_MAX_def)
  then show ?thesis unfolding e by (simp add: expiry_of_def)
qed

section \<open>Counters\<close>

text \<open>INCR on a key that holds a decimal number below the largest int stores the successor,
  answers with it and keeps the expiry of the key.\<close>

lemma incr_successor:
  assumes t: "table_ok t" and "is_cstr k" and s: "sendable [''INCR'', k]"
    and m: "db_abs t k = Some (int_str n, ex)" and n: "INT_MIN \<le> n" "n < INT_MAX"
  shows "\<exists>t'. exec_command all_ok clk (encode [''INCR'', k] @ NUL # r) t =
       Inr (t', '':'' @ int_str (n + 1) @ CRLF) \<and>
     table_ok t' \<and> db_abs t' = (db_abs t)(k \<mapsto> (int_str (n + 1), ex))"
proof -
  have "is_number (int_str n) = Inr True" using n by (simp add: is_number_int_str)
  moreover have "atoi (int_str n) = n" using n by simp
  ultimately have "spec_command clk (map cstr [''INCR'', k]) (db_abs t) =
      Inr ((db_abs t)(k \<mapsto> (int_str (n + 1), ex)), resp_integer (n + 1))"
    using assms by (simp add: spec_incr_def)
  from exec_step [OF t s this, of r] show ?thesis by (auto simp: resp_integer_def)
qed

lemma incr_successor_instance:
  "\<exists>t'. exec_command all_ok (\<lambda>_. 0) (encode [''INCR'', ''c''] @ [NUL]) (db_put ''c'' (int_str 41, 0) empty_table) =
       Inr (t', '':'' @ int_str 42 @ CRLF) \<and>
     table_ok t' \<and> db_abs t' = [''c'' \<mapsto> (int_str 42, 0)]"
  using incr_successor [of "db_put ''c'' (int_str 41, 0) empty_table" "''c''" 41 0 "\<lambda>_. 0" "[]"]
  by (simp add: db.invar_put db.get_put sendable_def INT_MAX_def INT_MIN_def)

text \<open>INCR does not look at the expiry: a key whose deadline has passed, which GET would report
  absent, is incremented from its stale value and keeps its passed deadline.\<close>

lemma incr_revives_expired:
  "\<exists>t'. exec_command all_ok (\<lambda>_. 1000) (encode [''INCR'', ''c''] @ [NUL]) (db_put ''c'' (int_str 41, 10) empty_table) =
       Inr (t', '':'' @ int_str 42 @ CRLF) \<and>
     db_abs t' = [''c'' \<mapsto> (int_str 42, 10)] \<and> expired_at 1000 10"
proof -
  let ?t = "db_put ''c'' (int_str 41, 10) empty_table"
  have t: "table_ok ?t" and m: "db_abs ?t = [''c'' \<mapsto> (int_str 41, 10)]"
    by (simp_all add: db.invar_put db.get_put)
  have s: "sendable [''INCR'', ''c'']" by (simp add: sendable_def INT_MAX_def)
  have num: "is_number (int_str 41) = Inr True" by (simp add: is_number_int_str INT_MIN_def INT_MAX_def)
  show ?thesis
    by (rule exec_step [OF t s, of "\<lambda>_. 1000" "[''c'' \<mapsto> (int_str 42, 10)]" "resp_integer 42" "[]"])
       (auto simp: spec_incr_def m num resp_integer_def expired_at_def INT_MIN_def INT_MAX_def)
qed

text \<open>INCR on the largest int overflows a signed addition, although \<open>is_number\<close> accepts it.\<close>

lemma incr_overflows:
  assumes "table_ok t" and "is_cstr k" and "sendable [''INCR'', k]"
    and "db_abs t k = Some (int_str INT_MAX, ex)"
  shows "exec_command all_ok clk (encode [''INCR'', k] @ NUL # r) t = Inl SignedOverflow"
proof -
  have "is_number (int_str INT_MAX) = Inr True" by (simp add: is_number_int_str INT_MIN_def INT_MAX_def)
  then show ?thesis
    using exec_refines [OF assms(1,3), of clk r] assms
    by (simp add: spec_incr_def INT_MIN_def INT_MAX_def)
qed

lemma incr_overflows_instance:
  "exec_command all_ok (\<lambda>_. 0) (encode [''INCR'', ''c''] @ [NUL])
     (db_put ''c'' (int_str INT_MAX, 0) empty_table) = Inl SignedOverflow"
  by (rule incr_overflows) (simp_all add: db.invar_put db.get_put sendable_def INT_MAX_def)

section \<open>Malformed and pipelined requests\<close>



text \<open>Any request whose first byte is not one of the five type bytes, such as an inline command
  typed into a terminal, ends the server process; so does a bulk string as a request.\<close>

lemma inline_command_exits:
  assumes "c \<notin> set ''+-:*''"
  shows "exec_command al clk (c # r) t = Inl (Exited 1)"
  using assms by (auto simp: exec_command_def parse_def get_identify_type_def)

lemma inline_command_exits_instance:
  "exec_command all_ok (\<lambda>_. 0) (''PING'' @ CRLF @ [NUL]) empty_table = Inl (Exited 1)"
  using inline_command_exits [of "CHR ''P''" all_ok "\<lambda>_. 0" "''ING'' @ CRLF @ [NUL]" empty_table] by simp

text \<open>EXISTS without a key reads past the array of arguments.\<close>

lemma exists_without_key_faults:
  assumes "table_ok t"
  shows "exec_command all_ok clk (encode [''EXISTS''] @ NUL # r) t = Inl OutOfBounds"
proof -
  have "sendable [''EXISTS'']" by (simp add: sendable_def INT_MAX_def)
  from exec_refines [OF assms this, of clk r] show ?thesis
    by (simp add: spec_command_def spec_exists_def caseeq_def tolower_def)
qed

theorem exists_without_key_faults_witness:
  "exec_command all_ok (\<lambda>_. 0) (encode [''EXISTS''] @ [NUL]) empty_table = Inl OutOfBounds"
  by (rule exists_without_key_faults) simp

text \<open>A bulk length of -1 (the protocol's null) inside a request reaches \<open>memcpy\<close> as a huge
  count.\<close>

lemma null_bulk_faults:
  "exec_command al clk (''*1'' @ CRLF @ ''$-1'' @ CRLF @ NUL # r) t = Inl OutOfBounds"
proof -
  have 1: "strtol (CHR ''1'' # CR # LF # s) = Inr (1, CR # LF # s, False)" for s
    using strtol_int_str [of CR 1 "LF # s"] by (simp add: int_str_1 LONG_MIN_def LONG_MAX_def)
  have 2: "strtol (CHR ''-'' # CHR ''1'' # CR # LF # s) = Inr (- 1, CR # LF # s, False)" for s
    using strtol_neg [of CR 1 "LF # s"] by (simp add: nat_str_1 LONG_MIN_def)
  have "to_int 1 = 1" "to_int (- 1) = - 1" by (simp_all add: to_int_def)
  then show ?thesis
    by (simp add: exec_command_def parse_def get_identify_type_def parse_array_def 1 2 get_word_def INT_MAX_def)
qed

text \<open>When one read returns two requests, only the first is executed: the reply and the store
  are those of the first request alone.\<close>

lemma pipelined_request_dropped:
  assumes "sendable args"
  shows "exec_command al clk (encode args @ encode args' @ NUL # r) t = exec_command al clk (encode args @ NUL # r') t"
  unfolding exec_command_def parse_encode [OF assms] ..

lemma pipelined_request_dropped_instance:
  "exec_command all_ok (\<lambda>_. 0) (encode [''PING''] @ encode [''PING''] @ [NUL]) empty_table =
   exec_command all_ok (\<lambda>_. 0) (encode [''PING''] @ [NUL]) empty_table"
  by (rule pipelined_request_dropped) (simp add: sendable_def INT_MAX_def)

section \<open>Allocation failure\<close>

text \<open>When the copy of the new value of an existing key cannot be allocated, the old value is
  already gone: the next GET of the key dereferences a null pointer.\<close>

lemma failed_update_breaks_get:
  assumes t: "table_ok t" and m: "db_abs t k = Some (v, 0)" and "node_ok al" "key_ok al" and f: "\<not> value_ok al"
  shows "\<exists>t'. db_set_ex al k w 0 t = Inr (t', False) \<and> db_get all_ok now k t' = Inl NullDeref"
proof -
  let ?p = "\<lparr>key = k, val = Some v, expires_at_ms = Some 0\<rparr>"
  let ?f = "\<lambda>e. e\<lparr>val := None\<rparr>"
  let ?t = "t(hash k := chain_modify key k ?f (t (hash k)))"
  have p: "lookup k t = Some ?p" by (rule db_abs_SomeE [OF t m])
  have sv: "store_value al w 0 = ?f" using f by (simp add: store_value_def fun_eq_iff)
  have "db_set_ex al k w 0 t = Inr (?t, False)"
    using p f by (simp add: db_set_ex_def install_def Let_def sv)
  moreover have "lookup k ?t = Some (?f ?p)"
    using p table_find_modify [of key ?f hash t k] by (simp add: lookup_eq_find)
  ultimately show ?thesis by (simp add: db_get_def expired_at_def)
qed

lemma failed_update_breaks_get_instance:
  "\<exists>t'. db_set_ex (all_ok\<lparr>value_ok := False\<rparr>) ''k'' ''w'' 0 (db_put ''k'' (''v'', 0) empty_table) = Inr (t', False) \<and>
     db_get all_ok 5 ''k'' t' = Inl NullDeref"
  by (rule failed_update_breaks_get [where v = "''v''"]) (simp_all add: db.invar_put db.get_put)

end
