(* ===== verification/Redis_Clients.thy ===== *)
theory Redis_Clients
  imports Redis_Server
begin

text \<open>
  Many clients at once (\<open>start_server\<close>, \<open>handle_client\<close> and the threads of \<open>per_client\<close> in
  \<open>src/server.c\<close>). A client is what each of its reads returns, how far its thread has come, its buffer
  and the replies it was sent. Threads interleave between commands: each command but \<open>DEL\<close> works on
  the store in one operation under \<open>db_lock\<close>, and parsing and replying touch nothing shared. (The
  operation of \<open>DEL\<close> takes no lock; what that can do is shown in \<open>Threads\<close>. The lemmas here speak
  of runs in which deletions do not overlap with other operations; \<open>Redis_Deletions\<close> lets them
  overlap, key by key.)

  Two kinds of result: whatever bytes the clients send and whatever allocations fail, the table keeps
  its structure; and well-formed requests are answered as if one client had sent them, in some order
  that respects the order of each client.
\<close>

section \<open>The server\<close>

record client =
  reads :: "mem list"
  pos :: nat
  buf :: mem
  replies :: "reply list"

record server =
  tab :: table
  clients :: "client list"

text \<open>Which inputs the clients may have is a parameter (\<open>adm\<close>), as are the allocations.\<close>

inductive serve_step :: "(mem list \<Rightarrow> bool) \<Rightarrow> alloc \<Rightarrow> server \<Rightarrow> server \<Rightarrow> bool" for adm al where
  Accept: "adm cs \<Longrightarrow>
    serve_step adm al s (s\<lparr>clients := clients s @ [\<lparr>reads = cs, pos = 0, buf = b, replies = []\<rparr>]\<rparr>)"
| Request: "i < length (clients s) \<Longrightarrow> cl = clients s ! i \<Longrightarrow> pos cl < length (reads cl) \<Longrightarrow>
    reads cl ! pos cl = c \<Longrightarrow> c \<noteq> [] \<Longrightarrow> b = fill_buffer (buf cl) c \<Longrightarrow>
    exec_command al clk b (tab s) = Inr (t, r) \<Longrightarrow>
    serve_step adm al s
      (s\<lparr>tab := t, clients := (clients s)[i := cl\<lparr>pos := pos cl + 1, buf := b, replies := replies cl @ [r]\<rparr>]\<rparr>)"

inductive_cases serve_stepE: "serve_step adm al s s'"

section \<open>The structure of the table\<close>

text \<open>Each key once, in its own bucket; and every field initialised, when copies of values succeed.\<close>

definition store_inv :: "alloc \<Rightarrow> table \<Rightarrow> bool" where
  "store_inv al t \<longleftrightarrow> table_wf hash key t \<and> (value_ok al \<longrightarrow> (\<forall>i. \<forall>e \<in> set (t i). entry_init e))"

lemma store_inv_empty: "store_inv al empty_table"
  by (simp add: store_inv_def empty_table_def)

lemma entry_init_store: "value_ok al \<Longrightarrow> entry_init (store_value al v ex e)"
  by (simp add: entry_init_def)

lemma install_inv: "install al k v ex t = Inr (t', p) \<Longrightarrow> store_inv al t \<Longrightarrow> store_inv al t'"
proof (cases "lookup k t")
  case None
  assume i: "install al k v ex t = Inr (t', p)" and t: "store_inv al t"
  let ?p = "store_value al v ex \<lparr>key = k, val = None, expires_at_ms = None\<rparr>"
  have "t' = t \<or> t' = t(hash k := ?p # t (hash k))"
    using i None by (auto simp: install_def Let_def split: if_splits)
  moreover have "table_wf hash key (t(hash k := ?p # t (hash k)))"
    using table_wf_link [of hash key t ?p] t None by (simp add: store_inv_def lookup_def)
  ultimately show ?thesis using t by (auto simp: store_inv_def entry_init_store simp del: store_value_ok split: if_splits)
next
  case (Some q)
  assume i: "install al k v ex t = Inr (t', p)" and t: "store_inv al t"
  have t': "t' = t(hash k := chain_modify key k (store_value al v ex) (t (hash k)))"
    using i Some by (auto simp: install_def Let_def)
  show ?thesis
    using t table_wf_modify [of hash key t "store_value al v ex" "hash k" k]
      set_chain_modify [of key k "store_value al v ex" "t (hash k)"]
    by (auto simp: store_inv_def t' entry_init_store)
qed

lemma undef_inv: "store_inv al t \<Longrightarrow> store_inv al (fst (undef k t))"
  using table_wf_unlink [of hash key t "hash k" k] set_chain_unlink [of key k "t (hash k)"]
  by (auto simp: store_inv_def undef_def split_beta)

lemma db_get_inv: "db_get al now k t = Inr (t', v) \<Longrightarrow> store_inv al t \<Longrightarrow> store_inv al t'"
  by (auto simp: db_get_def result_inv undef_inv split: option.splits if_splits)

lemma db_set_ex_inv: "db_set_ex al k v ex t = Inr (t', b) \<Longrightarrow> store_inv al t \<Longrightarrow> store_inv al t'"
  by (auto simp: db_set_ex_def result_inv intro: install_inv)

lemma db_incr_inv: "db_incr al k t = Inr (t', r) \<Longrightarrow> store_inv al t \<Longrightarrow> store_inv al t'"
  by (auto simp: db_incr_def result_inv Let_def split: option.splits if_splits dest: install_inv)

lemma db_del_inv: "db_del k t = (t', b) \<Longrightarrow> store_inv al t \<Longrightarrow> store_inv al t'"
  using undef_inv [of al t k] by (simp add: db_del_def)

lemma del_loop_inv: "del_loop cmd i m n t = Inr (t', n') \<Longrightarrow> store_inv al t \<Longrightarrow> store_inv al t'"
proof (induction m arbitrary: i n t)
  case (Suc m)
  obtain k where k: "item_string cmd i = Inr k" using Suc.prems(1) by (auto simp: result_inv)
  obtain t1 b where d: "db_del k t = (t1, b)" by fastforce
  show ?case using Suc.IH [OF _ db_del_inv [OF d Suc.prems(2)]] Suc.prems(1) k d by simp
qed simp

lemma cmd_del_inv: "cmd_del cmd t = Inr (t', r) \<Longrightarrow> store_inv al t \<Longrightarrow> store_inv al t'"
  by (auto simp: cmd_del_def result_inv Let_def simp del: del_loop.simps dest: del_loop_inv)

lemma cmd_set_inv: "cmd_set al clk cmd t = Inr (t', r) \<Longrightarrow> store_inv al t \<Longrightarrow> store_inv al t'"
  by (auto simp: cmd_set_def result_inv split: if_splits option.splits dest: db_set_ex_inv)

lemma cmd_get_inv: "cmd_get al clk cmd t = Inr (t', r) \<Longrightarrow> store_inv al t \<Longrightarrow> store_inv al t'"
  by (auto simp: cmd_get_def result_inv split: if_splits dest: db_get_inv)

lemma cmd_exists_inv: "cmd_exists al clk cmd t = Inr (t', r) \<Longrightarrow> store_inv al t \<Longrightarrow> store_inv al t'"
  by (auto simp: cmd_exists_def result_inv dest: db_get_inv)

lemma cmd_incr_inv: "cmd_incr al cmd t = Inr (t', r) \<Longrightarrow> store_inv al t \<Longrightarrow> store_inv al t'"
  by (auto simp: cmd_incr_def result_inv split: if_splits dest: db_incr_inv)

lemmas cmd_invs = cmd_set_inv cmd_get_inv cmd_exists_inv cmd_del_inv cmd_incr_inv

lemma dispatch_inv: "dispatch al clk name cmd t = Inr (t', r) \<Longrightarrow> store_inv al t \<Longrightarrow> store_inv al t'"
  by (auto simp: dispatch_def cmd_echo_def result_inv split: if_splits dest: cmd_invs)

lemma exec_command_inv: "exec_command al clk req t = Inr (t', r) \<Longrightarrow> store_inv al t \<Longrightarrow> store_inv al t'"
  by (auto simp: exec_command_def result_inv split: option.splits dest: dispatch_inv)

interpretation serve: step_invariant "serve_step adm al" "\<lambda>s. store_inv al (tab s)" for adm al
  by unfold_locales (auto elim!: serve_stepE dest: exec_command_inv)

section \<open>Clients see one sequential server\<close>

type_synonym 'a tagged = "(nat \<times> 'a) list"

definition of_client :: "nat \<Rightarrow> 'a tagged \<Rightarrow> 'a list" where
  "of_client i xs = map snd (filter (\<lambda>x. fst x = i) xs)"

lemma of_client_simps [simp]:
  "of_client i [] = []"
  "of_client i (xs @ ys) = of_client i xs @ of_client i ys"
  "of_client i [(j, x)] = (if j = i then [x] else [])"
  by (simp_all add: of_client_def)

text \<open>The abstract machine run on a sequence of commands, each with its client and its clock.\<close>

fun spec_run :: "(clock \<times> string list) tagged \<Rightarrow> store \<Rightarrow> (store \<times> reply tagged) result" where
  "spec_run [] m = Inr (m, [])"
| "spec_run ((i, clk, ws) # tr) m =
     ebind (spec_command clk (map cstr ws) m) (\<lambda>(m', r).
       ebind (spec_run tr m') (\<lambda>(m'', rs). Inr (m'', (i, r) # rs)))"

lemma spec_run_append:
  assumes "spec_run tr m = Inr (m', rs)" and "spec_command clk (map cstr ws) m' = Inr (m'', r)"
  shows "spec_run (tr @ [(i, clk, ws)]) m = Inr (m'', rs @ [(i, r)])"
  using assms
proof (induction tr arbitrary: m rs)
  case (Cons x tr)
  obtain j clk' ws' where x: "x = (j, clk', ws')" by (cases x)
  then obtain m1 r1 rs1 where "spec_command clk' (map cstr ws') m = Inr (m1, r1)" "spec_run tr m1 = Inr (m', rs1)" "rs = (j, r1) # rs1"
    using Cons.prems(1) by (auto simp: result_inv)
  then show ?case using Cons.IH [of m1 rs1] Cons.prems(2) x by simp
qed simp

text \<open>A client that sends well-formed requests, one per read of at most 1023 bytes.\<close>

definition polite :: "mem list \<Rightarrow> bool" where
  "polite cs \<longleftrightarrow> (\<exists>wss. cs = map encode wss \<and> list_all sendable wss \<and> (\<forall>ws \<in> set wss. length (encode ws) \<le> 1023))"

definition explained :: "store \<Rightarrow> server \<Rightarrow> bool" where
  "explained m0 s \<longleftrightarrow> (\<exists>tr rs. spec_run tr m0 = Inr (db_abs (tab s), rs) \<and>
     (\<forall>i < length (clients s).
        replies (clients s ! i) = of_client i rs \<and>
        map (encode \<circ> snd) (of_client i tr) = take (pos (clients s ! i)) (reads (clients s ! i))) \<and>
     (\<forall>i \<ge> length (clients s). of_client i rs = [] \<and> of_client i tr = []))"

definition serve_inv :: "store \<Rightarrow> server \<Rightarrow> bool" where
  "serve_inv m0 s \<longleftrightarrow> table_ok (tab s) \<and> (\<forall>cl \<in> set (clients s). polite (reads cl)) \<and> explained m0 s"

lemma exec_reply:
  assumes "table_ok t" and "sendable ws" and "exec_command all_ok clk (fill_buffer b (encode ws)) t = Inr (t', r)"
  shows "table_ok t' \<and> spec_command clk (map cstr ws) (db_abs t) = Inr (db_abs t', r)"
  using exec_refines [OF assms(1,2), of clk "drop (length (encode ws) + 1) b"] assms(3)
  by (auto simp: refines_def fill_buffer_def split: sum.splits)

lemma explained_accept:
  "explained m0 s \<Longrightarrow>
     explained m0 (s\<lparr>clients := clients s @ [\<lparr>reads = cs, pos = 0, buf = b, replies = []\<rparr>]\<rparr>)"
  unfolding explained_def by (elim exE conjE, intro exI conjI) (auto simp: nth_append less_Suc_eq)

lemma explained_request:
  assumes ex: "explained m0 s" and i: "i < length (clients s)" and cl: "cl = clients s ! i"
    and pos: "pos cl < length (reads cl)" and c: "reads cl ! pos cl = encode ws"
    and sp: "spec_command clk (map cstr ws) (db_abs (tab s)) = Inr (db_abs t, r)"
  shows "explained m0 (s\<lparr>tab := t, clients := (clients s)[i := cl\<lparr>pos := pos cl + 1, buf := b, replies := replies cl @ [r]\<rparr>]\<rparr>)"
proof -
  obtain tr rs where tr: "spec_run tr m0 = Inr (db_abs (tab s), rs)"
    "\<And>j. j < length (clients s) \<Longrightarrow> replies (clients s ! j) = of_client j rs \<and>
        map (encode \<circ> snd) (of_client j tr) = take (pos (clients s ! j)) (reads (clients s ! j))"
    "\<And>j. length (clients s) \<le> j \<Longrightarrow> of_client j rs = [] \<and> of_client j tr = []"
    using ex by (auto simp: explained_def)
  have "spec_run (tr @ [(i, clk, ws)]) m0 = Inr (db_abs t, rs @ [(i, r)])" by (rule spec_run_append [OF tr(1) sp])
  moreover have "take (pos cl + 1) (reads cl) = take (pos cl) (reads cl) @ [encode ws]"
    using pos c by (simp add: take_Suc_conv_app_nth)
  ultimately show ?thesis
    unfolding explained_def using tr(2,3) i cl
    by (intro exI [of _ "tr @ [(i, clk, ws)]"] exI [of _ "rs @ [(i, r)]"]) (auto simp: nth_list_update)
qed

lemma serve_inv_step: "serve_inv m0 s \<Longrightarrow> serve_step polite all_ok s s' \<Longrightarrow> serve_inv m0 s'"
proof (erule serve_stepE)
  fix cs b
  assume "serve_inv m0 s" "polite cs" "s' = s\<lparr>clients := clients s @ [\<lparr>reads = cs, pos = 0, buf = b, replies = []\<rparr>]\<rparr>"
  then show "serve_inv m0 s'" using explained_accept by (auto simp: serve_inv_def)
next
  fix i clk t r
  let ?cl = "clients s ! i"
  let ?c = "reads ?cl ! pos ?cl"
  let ?b = "fill_buffer (buf ?cl) ?c"
  assume inv: "serve_inv m0 s" and i: "i < length (clients s)" and pos: "pos ?cl < length (reads ?cl)"
    and ex: "exec_command all_ok clk ?b (tab s) = Inr (t, r)"
    and s': "s' = s\<lparr>tab := t, clients := (clients s)[i := ?cl\<lparr>pos := Suc (pos ?cl), buf := ?b, replies := replies ?cl @ [r]\<rparr>]\<rparr>"
  have pol: "polite (reads ?cl)" using inv i by (simp add: serve_inv_def)
  obtain ws where ws: "?c = encode ws" "sendable ws"
    using pol pos by (auto simp: polite_def list_all_iff dest: nth_mem)
  have st: "table_ok t \<and> spec_command clk (map cstr ws) (db_abs (tab s)) = Inr (db_abs t, r)"
    using exec_reply [of "tab s" ws clk "buf ?cl" t r] inv ws ex by (simp add: serve_inv_def)
  have "explained m0 s'"
    using explained_request [OF _ i refl pos ws(1), of m0 clk t r ?b] inv st by (simp add: serve_inv_def s')
  moreover have "\<forall>cl' \<in> set (clients s'). polite (reads cl')"
    using inv pol by (auto simp: serve_inv_def s' dest!: set_update_subset_insert [THEN subsetD])
  ultimately show "serve_inv m0 s'" using st by (simp add: serve_inv_def s')
qed

interpretation polite: step_invariant "serve_step polite all_ok" "serve_inv m0" for m0
  by unfold_locales (rule serve_inv_step)

lemma ping_run:
  "\<exists>s. steps (serve_step polite all_ok) \<lparr>tab = empty_table, clients = []\<rparr> s \<and>
     map replies (clients s) = [[''+PONG'' @ CRLF]]"
proof -
  let ?c = "encode [''PING'']"
  have p: "polite [?c]"
    unfolding polite_def
    by (rule exI [of _ "[[''PING'']]"]) (simp add: sendable_def INT_MAX_def encode_def encode_bulk_def nat_str_1 nat_str.simps)
  have sp: "spec_command (\<lambda>_. 0) (map cstr [''PING'']) (db_abs empty_table) = Inr (Map.empty, ''+PONG'' @ CRLF)"
    by (simp add: spec_command_def caseeq_def tolower_def resp_simple_def)
  have sd: "sendable [''PING'']" by (simp add: sendable_def INT_MAX_def)
  obtain t where t: "exec_command all_ok (\<lambda>_. 0) (?c @ NUL # []) empty_table = Inr (t, ''+PONG'' @ CRLF)"
    by (rule exec_step [OF table_ok_empty sd sp])
  let ?s0 = "\<lparr>tab = empty_table, clients = []\<rparr>"
  let ?s1 = "?s0\<lparr>clients := clients ?s0 @ [\<lparr>reads = [?c], pos = 0, buf = [], replies = []\<rparr>]\<rparr>"
  have 1: "serve_step polite all_ok ?s0 ?s1" by (rule serve_step.Accept [of polite, OF p])
  have ne: "?c \<noteq> []" by (simp add: encode_def)
  have ex: "exec_command all_ok (\<lambda>_. 0) (fill_buffer [] ?c) (tab ?s1) = Inr (t, ''+PONG'' @ CRLF)"
    using t by (simp add: fill_buffer_def)
  have 2: "serve_step polite all_ok ?s1
      (?s1\<lparr>tab := t, clients := (clients ?s1)[0 := (clients ?s1 ! 0)\<lparr>pos := pos (clients ?s1 ! 0) + 1,
         buf := fill_buffer [] ?c, replies := replies (clients ?s1 ! 0) @ [''+PONG'' @ CRLF]\<rparr>]\<rparr>)"
    by (rule serve_step.Request [OF _ refl _ _ ne _ ex]) simp_all
  show ?thesis
    by (rule exI, rule conjI, rule steps_trans [OF steps_one [of "serve_step polite all_ok", OF 2] steps_one [of "serve_step polite all_ok", OF 1]]) simp
qed

section \<open>Properties\<close>





end
