(* ===== verification/Redis_Heap.thy ===== *)
theory Redis_Heap
  imports Redis_DB Step_System
begin

text \<open>
  The store of the Redis clone at the level of its pointers: \<open>src/db.c\<close> over an explicit heap. \<open>Redis_DB\<close> has the
  chains of the table as lists; here an entry is a block with pointers to its key, its value and the
  next entry, and every function is the sequence of its accesses to the heap, so that it can be
  interleaved with others (\<open>Redis_Locks\<close>).

  A pointer is an address or \<open>NULL\<close> (\<open>None\<close>), a field of a fresh block is indeterminate (the outer \<open>None\<close>).
  Addresses are not given out twice, so that every use of a freed block is seen as the fault
  \<open>Dangling\<close>. The program counter \<open>pc\<close> says what a call does next; \<open>heap_step\<close> does it. The lemmas show that
  a call that runs alone does to the heap what the function of \<open>Redis_DB\<close> does to the table the heap
  represents, faults included.
\<close>

section \<open>The heap\<close>

type_synonym addr = nat

record node =
  n_key :: "addr option"
  n_val :: "addr option option"
  n_exp :: "u64 option"
  n_next :: "addr option option"

record heap =
  strs :: "addr \<rightharpoonup> string"
  nodes :: "addr \<rightharpoonup> node"
  tab :: "nat \<Rightarrow> addr option"
  fresh :: addr

definition empty_heap :: heap where
  "empty_heap = \<lparr>strs = Map.empty, nodes = Map.empty, tab = (\<lambda>_. None), fresh = 0\<rparr>"

definition get_node :: "heap \<Rightarrow> addr \<Rightarrow> node result" where
  "get_node h a = read_init Dangling (nodes h a)"

definition get_str :: "heap \<Rightarrow> addr \<Rightarrow> string result" where
  "get_str h a = read_init Dangling (strs h a)"

definition put_node :: "addr \<Rightarrow> node \<Rightarrow> heap \<Rightarrow> heap" where
  "put_node a n h = h\<lparr>nodes := (nodes h)(a \<mapsto> n)\<rparr>"

definition key_of :: "heap \<Rightarrow> addr \<Rightarrow> string result" where
  "key_of h a = ebind (get_node h a) (\<lambda>n. ebind (read_init Uninit (n_key n)) (get_str h))"

definition next_of :: "heap \<Rightarrow> addr \<Rightarrow> addr option result" where
  "next_of h a = ebind (get_node h a) (\<lambda>n. read_init Uninit (n_next n))"

text \<open>The string \<open>p->value\<close> points to; \<open>free(p->value)\<close>, which does nothing to \<open>NULL\<close>.\<close>

definition value_of :: "heap \<Rightarrow> addr \<Rightarrow> string result" where
  "value_of h a =
     ebind (get_node h a) (\<lambda>n. ebind (read_init Uninit (n_val n)) (\<lambda>v.
       case v of None \<Rightarrow> Inl NullDeref | Some s \<Rightarrow> get_str h s))"

definition free_str :: "addr option \<Rightarrow> heap \<Rightarrow> heap result" where
  "free_str p h =
     (case p of
        None \<Rightarrow> Inr h
      | Some s \<Rightarrow> if s \<in> dom (strs h) then Inr (h\<lparr>strs := (strs h)(s := None)\<rparr>) else Inl Dangling)"

definition strdup :: "string \<Rightarrow> heap \<Rightarrow> addr \<times> heap" where
  "strdup s h = (fresh h, h\<lparr>strs := (strs h)(fresh h \<mapsto> s), fresh := fresh h + 1\<rparr>)"

definition alloc_node :: "heap \<Rightarrow> addr \<times> heap" where
  "alloc_node h =
     (fresh h, h\<lparr>nodes := (nodes h)(fresh h \<mapsto> \<lparr>n_key = None, n_val = None, n_exp = None, n_next = None\<rparr>), fresh := fresh h + 1\<rparr>)"

section \<open>Calls in progress\<close>

datatype op = OSet string string u64 | OGet string u64 | ODel string | OIncr string

datatype answer = ASet bool | AGet "string option" | ADel bool | AIncr db_result

text \<open>The arguments of \<open>install\<close>, and whether \<open>db_incr\<close> called it.\<close>

record ins =
  i_key :: string
  i_val :: string
  i_exp :: u64
  i_incr :: bool

text \<open>Who called \<open>lookup\<close>: \<open>db_get\<close> with its clock, \<open>db_incr\<close>, or \<open>install\<close>.\<close>

datatype purpose = ForGet string u64 | ForIncr string | ForInstall ins

text \<open>The argument of \<open>undef\<close>: a string of the caller, or the key field of an entry.\<close>

datatype kref = Given string | KeyOf addr

datatype pc =
    Enter purpose
  | Look purpose "addr option"
  | NewNode ins
  | NewKey ins addr
  | LinkNext ins addr
  | SetHead ins addr
  | FreeVal ins addr
  | NewVal ins addr
  | SetExp ins addr
  | CheckExp u64 addr
  | CopyVal addr
  | IncrAlloc string
  | IncrRead string addr
  | IncrCopy addr
  | UEnter kref
  | ULook kref "addr option" "addr option"
  | Unlink kref addr "addr option"
  | FreeKey kref addr
  | FreeUVal kref addr
  | FreeNode kref addr
  | Finish answer

fun begin_op :: "op \<Rightarrow> pc" where
  "begin_op (OSet k v ex) = Enter (ForInstall \<lparr>i_key = k, i_val = v, i_exp = ex, i_incr = False\<rparr>)"
| "begin_op (OGet k now) = Enter (ForGet k now)"
| "begin_op (ODel k) = UEnter (Given k)"
| "begin_op (OIncr k) = IncrAlloc k"

fun sought :: "purpose \<Rightarrow> string" where
  "sought (ForGet k now) = k"
| "sought (ForIncr k) = k"
| "sought (ForInstall i) = i_key i"

fun found :: "purpose \<Rightarrow> addr \<Rightarrow> pc" where
  "found (ForGet k now) a = CheckExp now a"
| "found (ForIncr k) a = IncrRead k a"
| "found (ForInstall i) a = FreeVal i a"

fun missing :: "purpose \<Rightarrow> pc" where
  "missing (ForGet k now) = Finish (AGet None)"
| "missing (ForIncr k) = Enter (ForInstall \<lparr>i_key = k, i_val = ''1'', i_exp = 0, i_incr = True\<rparr>)"
| "missing (ForInstall i) = NewNode i"

text \<open>\<open>install\<close> returns \<open>NULL\<close>.\<close>

definition not_installed :: "ins \<Rightarrow> pc" where
  "not_installed i =
     Finish (if i_incr i then AIncr \<lparr>ok = False, res_value = None, res_error = Some ''failed to save''\<rparr> else ASet False)"

text \<open>The key \<open>undef\<close> looks for, and the answer of its caller: \<open>db_del\<close> passes the result on, \<open>db_get\<close> does not
  look at it.\<close>

fun kref_str :: "heap \<Rightarrow> kref \<Rightarrow> string result" where
  "kref_str h (Given k) = Inr k"
| "kref_str h (KeyOf a) = key_of h a"

fun undef_answer :: "kref \<Rightarrow> bool \<Rightarrow> answer" where
  "undef_answer (Given k) b = ADel b"
| "undef_answer (KeyOf a) b = AGet None"

section \<open>One access\<close>

fun heap_step :: "alloc \<Rightarrow> pc \<Rightarrow> heap \<Rightarrow> (pc \<times> heap) result" where
  "heap_step al (Enter pu) h = Inr (Look pu (tab h (hash (sought pu))), h)"
| "heap_step al (Look pu cur) h =
     (case cur of
        None \<Rightarrow> Inr (missing pu, h)
      | Some a \<Rightarrow>
          ebind (key_of h a) (\<lambda>s.
            if sought pu = s then Inr (found pu a, h)
            else ebind (next_of h a) (\<lambda>q. Inr (Look pu q, h))))"
| "heap_step al (NewNode i) h =
     (if \<not> node_ok al then Inl NullDeref else let (a, h') = alloc_node h in Inr (NewKey i a, h'))"
| "heap_step al (NewKey i a) h =
     (if \<not> key_ok al then Inr (not_installed i, h)
      else ebind (get_node h a) (\<lambda>n.
        let (s, h') = strdup (i_key i) h in Inr (LinkNext i a, put_node a (n\<lparr>n_key := Some s\<rparr>) h')))"
| "heap_step al (LinkNext i a) h =
     ebind (key_of h a) (\<lambda>k. ebind (get_node h a) (\<lambda>n.
       Inr (SetHead i a, put_node a (n\<lparr>n_next := Some (tab h (hash k))\<rparr>) h)))"
| "heap_step al (SetHead i a) h =
     ebind (key_of h a) (\<lambda>k. Inr (NewVal i a, h\<lparr>tab := (tab h)(hash k := Some a)\<rparr>))"
| "heap_step al (FreeVal i a) h =
     ebind (get_node h a) (\<lambda>n. ebind (read_init Uninit (n_val n)) (\<lambda>p.
       ebind (free_str p h) (\<lambda>h'. Inr (NewVal i a, h'))))"
| "heap_step al (NewVal i a) h =
     ebind (get_node h a) (\<lambda>n.
       if value_ok al then
         (let (s, h') = strdup (i_val i) h in Inr (SetExp i a, put_node a (n\<lparr>n_val := Some (Some s)\<rparr>) h'))
       else Inr (not_installed i, put_node a (n\<lparr>n_val := Some None\<rparr>) h))"
| "heap_step al (SetExp i a) h =
     ebind (get_node h a) (\<lambda>n.
       Inr (if i_incr i then IncrCopy a else Finish (ASet True), put_node a (n\<lparr>n_exp := Some (i_exp i)\<rparr>) h))"
| "heap_step al (CheckExp now a) h =
     ebind (get_node h a) (\<lambda>n. ebind (read_init Uninit (n_exp n)) (\<lambda>ex.
       Inr (if ex \<noteq> 0 \<and> ex \<le> now then UEnter (KeyOf a) else CopyVal a, h)))"
| "heap_step al (CopyVal a) h =
     ebind (value_of h a) (\<lambda>v. Inr (Finish (AGet (if copy_ok al then Some v else None)), h))"
| "heap_step al (IncrAlloc k) h = (if \<not> res_ok al then Inl NullDeref else Inr (Enter (ForIncr k), h))"
| "heap_step al (IncrRead k a) h =
     ebind (value_of h a) (\<lambda>v. ebind (is_number v) (\<lambda>num.
       if \<not> num then
         Inr (Finish (AIncr \<lparr>ok = False, res_value = None, res_error = Some not_integer_msg\<rparr>), h)
       else if atoi v = INT_MAX then Inl SignedOverflow
       else ebind (get_node h a) (\<lambda>n. ebind (read_init Uninit (n_exp n)) (\<lambda>ex.
         Inr (Enter (ForInstall \<lparr>i_key = k, i_val = snprintf 63 (int_str (atoi v + 1)), i_exp = ex, i_incr = True\<rparr>), h)))))"
| "heap_step al (IncrCopy a) h =
     ebind (value_of h a) (\<lambda>v.
       Inr (Finish (AIncr \<lparr>ok = True, res_value = (if copy_ok al then Some v else None), res_error = None\<rparr>), h))"
| "heap_step al (UEnter kr) h = ebind (kref_str h kr) (\<lambda>k. Inr (ULook kr (tab h (hash k)) None, h))"
| "heap_step al (ULook kr cur prev) h =
     (case cur of
        None \<Rightarrow> Inr (Finish (undef_answer kr False), h)
      | Some a \<Rightarrow>
          ebind (key_of h a) (\<lambda>s. ebind (kref_str h kr) (\<lambda>k.
            if s = k then Inr (Unlink kr a prev, h)
            else ebind (next_of h a) (\<lambda>q. Inr (ULook kr q (Some a), h)))))"
| "heap_step al (Unlink kr a prev) h =
     ebind (next_of h a) (\<lambda>q.
       case prev of
         None \<Rightarrow> ebind (key_of h a) (\<lambda>k. Inr (FreeKey kr a, h\<lparr>tab := (tab h)(hash k := q)\<rparr>))
       | Some b \<Rightarrow> ebind (get_node h b) (\<lambda>n. Inr (FreeKey kr a, put_node b (n\<lparr>n_next := Some q\<rparr>) h)))"
| "heap_step al (FreeKey kr a) h =
     ebind (get_node h a) (\<lambda>n. ebind (read_init Uninit (n_key n)) (\<lambda>s.
       ebind (free_str (Some s) h) (\<lambda>h'. Inr (FreeUVal kr a, h'))))"
| "heap_step al (FreeUVal kr a) h =
     ebind (get_node h a) (\<lambda>n. ebind (read_init Uninit (n_val n)) (\<lambda>p.
       ebind (free_str p h) (\<lambda>h'. Inr (FreeNode kr a, h'))))"
| "heap_step al (FreeNode kr a) h =
     ebind (get_node h a) (\<lambda>_. Inr (Finish (undef_answer kr True), h\<lparr>nodes := (nodes h)(a := None)\<rparr>))"
| "heap_step al (Finish x) h = Inr (Finish x, h)"


section \<open>A call that runs alone\<close>

text \<open>\<open>call al x h r\<close>: from \<open>x\<close> the call ends with \<open>r\<close>, its answer and the heap it leaves, or a fault.\<close>

inductive call :: "alloc \<Rightarrow> pc \<Rightarrow> heap \<Rightarrow> (answer \<times> heap) result \<Rightarrow> bool" for al :: alloc where
  Done: "call al (Finish x) h (Inr (x, h))"
| Fault: "heap_step al p h = Inl f \<Longrightarrow> call al p h (Inl f)"
| Next: "(\<And>x. p \<noteq> Finish x) \<Longrightarrow> heap_step al p h = Inr (p', h') \<Longrightarrow> call al p' h' r \<Longrightarrow> call al p h r"

section \<open>The table a heap represents\<close>

text \<open>An entry with the addresses of its blocks: the node, the key, and the value unless it is \<open>NULL\<close>.\<close>

record entry_cell =
  c_node :: addr
  c_key :: addr
  c_val :: "addr option"
  c_ent :: entry

definition cell_blocks :: "entry_cell \<Rightarrow> addr list" where
  "cell_blocks c = c_node c # c_key c # (case c_val c of None \<Rightarrow> [] | Some s \<Rightarrow> [s])"

definition blocks :: "entry_cell list \<Rightarrow> addr list" where
  "blocks cs = concat (map cell_blocks cs)"

definition holds :: "heap \<Rightarrow> entry_cell \<Rightarrow> addr option \<Rightarrow> bool" where
  "holds h c q \<longleftrightarrow>
     nodes h (c_node c) =
       Some \<lparr>n_key = Some (c_key c), n_val = Some (c_val c), n_exp = expires_at_ms (c_ent c), n_next = Some q\<rparr> \<and>
     strs h (c_key c) = Some (key (c_ent c)) \<and>
     (case c_val c of
        None \<Rightarrow> val (c_ent c) = None
      | Some s \<Rightarrow> val (c_ent c) \<noteq> None \<and> strs h s = val (c_ent c))"

fun link_to :: "entry_cell list \<Rightarrow> addr option \<Rightarrow> addr option" where
  "link_to [] q = q"
| "link_to (c # cs) q = Some (c_node c)"

fun chain :: "heap \<Rightarrow> entry_cell list \<Rightarrow> addr option \<Rightarrow> bool" where
  "chain h [] q = True"
| "chain h (c # cs) q = (holds h c (link_to cs q) \<and> chain h cs q)"

definition allocated :: "heap \<Rightarrow> addr set" where
  "allocated h = dom (nodes h) \<union> dom (strs h)"

definition laid_out :: "(nat \<Rightarrow> entry_cell list) \<Rightarrow> addr set \<Rightarrow> table \<Rightarrow> heap \<Rightarrow> bool" where
  "laid_out C L t h \<longleftrightarrow>
     (\<forall>i. t i = map c_ent (C i) \<and> chain h (C i) None \<and> tab h i = link_to (C i) None \<and> distinct (blocks (C i))) \<and>
     (\<forall>i j. i \<noteq> j \<longrightarrow> set (blocks (C i)) \<inter> set (blocks (C j)) = {}) \<and>
     (\<forall>i. set (blocks (C i)) \<inter> L = {}) \<and>
     allocated h = (\<Union>i. set (blocks (C i))) \<union> L \<and>
     dom (nodes h) \<inter> dom (strs h) = {} \<and>
     (\<forall>x \<in> allocated h. x < fresh h)"

text \<open>
  The heap holds exactly the blocks of the table \<open>t\<close>, each owned by one entry, and besides them
  those of \<open>L\<close>, which nothing points to any more.
\<close>

definition represents :: "addr set \<Rightarrow> table \<Rightarrow> heap \<Rightarrow> bool" where
  "represents L t h \<longleftrightarrow> (\<exists>C. laid_out C L t h)"

lemma represents_empty [simp]: "represents {} empty_table empty_heap"
  unfolding represents_def
  by (rule exI [of _ "\<lambda>_. []"]) (simp add: laid_out_def empty_table_def empty_heap_def blocks_def allocated_def)

lemma blocks_simps [simp]:
  "blocks [] = []" "blocks (c # cs) = cell_blocks c @ blocks cs" "blocks (cs @ ds) = blocks cs @ blocks ds"
  by (simp_all add: blocks_def)

lemma link_to_append [simp]: "link_to (cs @ ds) q = link_to cs (link_to ds q)"
  by (cases cs) auto

lemma chain_append [simp]: "chain h (cs @ ds) q \<longleftrightarrow> chain h cs (link_to ds q) \<and> chain h ds q"
  by (induction cs) auto

text \<open>A chain depends on its own blocks only.\<close>

lemma holds_frame:
  "holds h c q \<Longrightarrow> (\<And>x. x \<in> set (cell_blocks c) \<Longrightarrow> nodes h' x = nodes h x \<and> strs h' x = strs h x) \<Longrightarrow> holds h' c q"
  by (auto simp: holds_def cell_blocks_def split: option.splits)

lemma chain_frame:
  "chain h cs q \<Longrightarrow> (\<And>x. x \<in> set (blocks cs) \<Longrightarrow> nodes h' x = nodes h x \<and> strs h' x = strs h x) \<Longrightarrow> chain h' cs q"
  by (induction cs) (auto intro: holds_frame)

lemma holds_allocated: "holds h c q \<Longrightarrow> set (cell_blocks c) \<subseteq> allocated h"
  by (auto simp: holds_def cell_blocks_def allocated_def split: option.splits)

lemma holds_reads:
  assumes "holds h c q"
  shows "get_node h (c_node c) =
      Inr \<lparr>n_key = Some (c_key c), n_val = Some (c_val c), n_exp = expires_at_ms (c_ent c), n_next = Some q\<rparr>"
    and "key_of h (c_node c) = Inr (key (c_ent c))"
    and "next_of h (c_node c) = Inr q"
    and "value_of h (c_node c) = read_init NullDeref (val (c_ent c))"
  using assms
  by (auto simp: holds_def get_node_def key_of_def next_of_def value_of_def get_str_def split: option.splits)

text \<open>One bucket is replaced.\<close>

lemma laid_out_update:
  assumes l: "laid_out C L t h"
    and same: "\<And>x. x \<notin> set (blocks (C b)) \<Longrightarrow> x < fresh h \<Longrightarrow> nodes h' x = nodes h x \<and> strs h' x = strs h x"
    and tab: "tab h' = (tab h)(b := link_to cs None)"
    and cs: "chain h' cs None" "distinct (blocks cs)" "set (blocks cs) \<subseteq> set (blocks (C b)) \<union> {fresh h..}"
    and al: "allocated h' = (allocated h - set (blocks (C b))) \<union> set (blocks cs)"
    and doms: "dom (nodes h') \<inter> dom (strs h') = {}"
    and fresh: "\<And>x. x \<in> set (blocks cs) \<Longrightarrow> x < fresh h'" "fresh h \<le> fresh h'"
    and t': "t' = t(b := map c_ent cs)"
  shows "represents L t' h'"
proof -
  let ?C = "C(b := cs)"
  have C: "t i = map c_ent (C i)" "chain h (C i) None" "tab h i = link_to (C i) None" "distinct (blocks (C i))"
    and CC: "i \<noteq> j \<Longrightarrow> set (blocks (C i)) \<inter> set (blocks (C j)) = {}"
    and CL: "set (blocks (C i)) \<inter> L = {}"
    and A: "allocated h = (\<Union>i. set (blocks (C i))) \<union> L" "\<And>x. x \<in> allocated h \<Longrightarrow> x < fresh h" for i j
    using l by (simp_all add: laid_out_def)
  have old: "x < fresh h" if "x \<in> set (blocks (C j))" for x j
    using A that by blast
  have dis: "set (blocks cs) \<inter> set (blocks (C j)) = {}" if "j \<noteq> b" for j
    using cs(3) CC [OF that] old [of _ j] by fastforce
  have disL: "set (blocks cs) \<inter> L = {}"
    using cs(3) CL [of b] A by fastforce
  have "chain h' (C j) None" if "j \<noteq> b" for j
  proof (rule chain_frame [OF C(2)])
    fix x assume "x \<in> set (blocks (C j))"
    with CC [OF that] old show "nodes h' x = nodes h x \<and> strs h' x = strs h x"
      by (intro same) auto
  qed
  then have 1: "\<forall>i. t' i = map c_ent (?C i) \<and> chain h' (?C i) None \<and> tab h' i = link_to (?C i) None \<and> distinct (blocks (?C i))"
    using C cs tab t' by simp
  have 2: "\<forall>i j. i \<noteq> j \<longrightarrow> set (blocks (?C i)) \<inter> set (blocks (?C j)) = {}"
    using CC dis by (auto simp: Int_commute)
  have 3: "\<forall>i. set (blocks (?C i)) \<inter> L = {}"
    using CL disL by simp
  have 4: "allocated h' = (\<Union>i. set (blocks (?C i))) \<union> L"
  proof (rule set_eqI)
    fix x
    have "x \<in> set (blocks (C j)) \<Longrightarrow> j \<noteq> b \<Longrightarrow> x \<notin> set (blocks (C b))" for j using CC by blast
    then show "x \<in> allocated h' \<longleftrightarrow> x \<in> (\<Union>i. set (blocks (?C i))) \<union> L"
      using CL [of b] by (auto simp: al A(1) split: if_splits)
  qed
  have 5: "\<forall>x \<in> allocated h'. x < fresh h'"
    using A(2) al fresh by fastforce
  show ?thesis unfolding represents_def laid_out_def
    by (rule exI [of _ ?C]) (intro conjI 1 2 3 4 doms 5)
qed


lemma represents_leak:
  assumes l: "represents L t h" and h': "nodes h' = (nodes h)(fresh h \<mapsto> n)" "strs h' = strs h" "tab h' = tab h" "fresh h' = fresh h + 1"
  shows "represents (insert (fresh h) L) t h'"
proof -
  obtain C where C: "laid_out C L t h" using l by (auto simp: represents_def)
  have new: "fresh h \<notin> allocated h" using C by (auto simp: laid_out_def)
  have "chain h' (C i) None" for i
  proof (rule chain_frame [of h])
    fix x assume "x \<in> set (blocks (C i))"
    then have "x \<in> allocated h" using C by (auto simp: laid_out_def)
    then show "nodes h' x = nodes h x \<and> strs h' x = strs h x" using new h' by auto
  qed (use C in \<open>simp add: laid_out_def\<close>)
  moreover have "allocated h' = insert (fresh h) (allocated h)"
    by (auto simp: allocated_def h')
  moreover have "fresh h \<notin> set (blocks (C i))" for i
    using C new by (auto simp: laid_out_def)
  moreover have "dom (nodes h') \<inter> dom (strs h') = {}"
    using C new by (auto simp: laid_out_def h' allocated_def)
  ultimately have "laid_out C (insert (fresh h) L) t h'"
    using C unfolding laid_out_def h' by (auto simp: less_Suc_eq)
  then show ?thesis by (auto simp: represents_def)
qed

end
