(* ===== verification/Redis_Heap_Calls.thy ===== *)
theory Redis_Heap_Calls
  imports Redis_Heap
begin

text \<open>
  The calls of \<open>src/db.c\<close> on the heap of \<open>Redis_Heap\<close>, from their first access to their answer: the walks of
  \<open>lookup\<close> and \<open>undef\<close>, the writes of \<open>install\<close>, and the four operations. Each call ends, with the answer of
  its function in \<open>Redis_DB\<close> on a heap that represents the table the function returns, or with the same
  fault; it never uses a freed block, and it loses one only when the copy of a new key fails.
\<close>

section \<open>The loops\<close>

lemma chain_find_split:
  assumes "chain_find key k (map c_ent cs) = Some e"
  obtains xs c ys where "cs = xs @ c # ys" "c_ent c = e" "key e = k" "k \<notin> key ` c_ent ` set xs"
proof -
  have "\<exists>xs c ys. cs = xs @ c # ys \<and> c_ent c = e \<and> key e = k \<and> k \<notin> key ` c_ent ` set xs"
    using assms
  proof (induction cs)
    case (Cons d cs)
    show ?case
    proof (cases "k = key (c_ent d)")
      case True
      with Cons.prems show ?thesis by (intro exI [of _ "[]"] exI [of _ d] exI [of _ cs]) simp
    next
      case False
      then obtain xs c ys where "cs = xs @ c # ys" "c_ent c = e" "key e = k" "k \<notin> key ` c_ent ` set xs"
        using Cons by auto
      with False show ?thesis by (intro exI [of _ "d # xs"] exI [of _ c] exI [of _ ys]) auto
    qed
  qed simp
  then show thesis using that by blast
qed

lemma chain_modify_split:
  "k \<notin> key ` c_ent ` set xs \<Longrightarrow> key (c_ent c) = k \<Longrightarrow>
   chain_modify key k f (map c_ent (xs @ c # ys)) = map c_ent xs @ f (c_ent c) # map c_ent ys"
  by (induction xs) auto

lemma chain_unlink_split:
  "k \<notin> key ` c_ent ` set xs \<Longrightarrow> key (c_ent c) = k \<Longrightarrow>
   chain_unlink key k (map c_ent (xs @ c # ys)) = (map c_ent (xs @ ys), True)"
  by (induction xs) auto

lemma chain_unlink_none: "chain_find key k es = None \<Longrightarrow> chain_unlink key k es = (es, False)"
  by (induction es) (auto split: if_splits)

text \<open>A step that is not the last.\<close>

lemma call_next:
  assumes "heap_step al p h = Inr (p', h')" and "call al p' h' r" and "\<And>x. p \<noteq> Finish x"
  shows "call al p h r"
  by (rule call.Next [OF assms(3,1,2)])

lemma look_walk:
  "chain h (cs @ ds) None \<Longrightarrow> sought pu \<notin> key ` c_ent ` set cs \<Longrightarrow> call al (Look pu (link_to ds None)) h r \<Longrightarrow>
   call al (Look pu (link_to (cs @ ds) None)) h r"
proof (induction cs)
  case (Cons c cs)
  then have "holds h c (link_to (cs @ ds) None)" "sought pu \<noteq> key (c_ent c)" by auto
  moreover have "call al (Look pu (link_to (cs @ ds) None)) h r"
    using Cons by auto
  ultimately show ?case
    by - (rule call_next [of _ _ _ "Look pu (link_to (cs @ ds) None)" h], simp_all add: holds_reads)
qed simp

text \<open>\<open>lookup\<close>.\<close>

lemma enter_missing:
  assumes "laid_out C L t h" and "lookup (sought pu) t = None" and "call al (missing pu) h r"
  shows "call al (Enter pu) h r"
proof -
  let ?cs = "C (hash (sought pu))"
  have C: "chain h ?cs None" "tab h (hash (sought pu)) = link_to ?cs None" "t (hash (sought pu)) = map c_ent ?cs"
    using assms(1) by (auto simp: laid_out_def)
  have "sought pu \<notin> key ` c_ent ` set ?cs"
    using assms(2) by (simp add: lookup_def C chain_find_None_iff image_image)
  then have "call al (Look pu (link_to ?cs None)) h r"
    using look_walk [of h ?cs "[]" pu al r] C call_next [of al "Look pu None" h "missing pu" h r] assms(3) by simp
  then show ?thesis
    by - (rule call_next [of _ _ _ "Look pu (link_to ?cs None)" h], simp_all add: C)
qed

lemma enter_found:
  assumes "laid_out C L t h" and cs: "C (hash (sought pu)) = xs @ c # ys" "key (c_ent c) = sought pu"
    "sought pu \<notin> key ` c_ent ` set xs" and r: "call al (found pu (c_node c)) h r"
  shows "call al (Enter pu) h r"
proof -
  let ?cs = "xs @ c # ys"
  have C: "chain h ?cs None" "tab h (hash (sought pu)) = link_to ?cs None"
    using assms(1) by (auto simp: laid_out_def cs(1) [symmetric])
  then have "holds h c (link_to ys None)" by simp
  then have "call al (Look pu (link_to (c # ys) None)) h r"
    by - (rule call_next [of _ _ _ "found pu (c_node c)" h], simp_all add: holds_reads cs r)
  then have "call al (Look pu (link_to ?cs None)) h r"
    using look_walk [of h xs "c # ys" pu] C cs by simp
  then show ?thesis
    by - (rule call_next [of _ _ _ "Look pu (link_to ?cs None)" h], simp_all add: C del: link_to_append)
qed

text \<open>\<open>undef\<close>.\<close>

fun last_node :: "addr option \<Rightarrow> entry_cell list \<Rightarrow> addr option" where
  "last_node p [] = p"
| "last_node p (c # cs) = last_node (Some (c_node c)) cs"

lemma last_node_snoc [simp]: "last_node p (cs @ [c]) = Some (c_node c)"
  by (induction cs arbitrary: p) auto

lemma undef_walk:
  "chain h (cs @ ds) None \<Longrightarrow> kref_str h kr = Inr k \<Longrightarrow> k \<notin> key ` c_ent ` set cs \<Longrightarrow>
   call al (ULook kr (link_to ds None) (last_node prev cs)) h r \<Longrightarrow>
   call al (ULook kr (link_to (cs @ ds) None) prev) h r"
proof (induction cs arbitrary: prev)
  case (Cons c cs)
  then have "holds h c (link_to (cs @ ds) None)" "key (c_ent c) \<noteq> k" by auto
  moreover have "call al (ULook kr (link_to (cs @ ds) None) (Some (c_node c))) h r"
    using Cons by auto
  ultimately show ?case
    using Cons.prems(2)
    by - (rule call_next [of _ _ _ "ULook kr (link_to (cs @ ds) None) (Some (c_node c))" h], simp_all add: holds_reads)
qed simp

lemma undef_missing:
  assumes "laid_out C L t h" and kr: "kref_str h kr = Inr k" and "lookup k t = None"
  shows "call al (UEnter kr) h (Inr (undef_answer kr False, h))"
proof -
  let ?cs = "C (hash k)" let ?r = "Inr (undef_answer kr False, h)"
  have C: "chain h ?cs None" "tab h (hash k) = link_to ?cs None" "t (hash k) = map c_ent ?cs"
    using assms(1) by (auto simp: laid_out_def)
  have k: "k \<notin> key ` c_ent ` set ?cs"
    using assms(3) by (simp add: lookup_def C chain_find_None_iff image_image)
  have "call al (ULook kr None (last_node None ?cs)) h ?r"
    by - (rule call_next [of _ _ _ "Finish (undef_answer kr False)" h], simp_all add: call.Done)
  then have "call al (ULook kr (link_to ?cs None) None) h ?r"
    using undef_walk [of h ?cs "[]" kr k al None ?r] C kr k by simp
  then show ?thesis
    by - (rule call_next [of _ _ _ "ULook kr (link_to ?cs None) None" h], simp_all add: C kr)
qed


definition released :: "entry_cell \<Rightarrow> heap \<Rightarrow> heap" where
  "released c h =
     h\<lparr>strs := (\<lambda>x. if x = c_key c \<or> Some x = c_val c then None else strs h x), nodes := (nodes h)(c_node c := None)\<rparr>"

lemma free_cell:
  assumes "holds h c q" and "distinct (cell_blocks c)"
  shows "call al (FreeKey kr (c_node c)) h (Inr (undef_answer kr True, released c h))"
proof -
  let ?h1 = "h\<lparr>strs := (strs h)(c_key c := None)\<rparr>"
  let ?h2 = "h\<lparr>strs := (\<lambda>x. if x = c_key c \<or> Some x = c_val c then None else strs h x)\<rparr>"
  have n: "get_node h (c_node c) =
      Inr \<lparr>n_key = Some (c_key c), n_val = Some (c_val c), n_exp = expires_at_ms (c_ent c), n_next = Some q\<rparr>"
    by (rule holds_reads(1) [OF assms(1)])
  then have n': "get_node (h\<lparr>strs := s\<rparr>) (c_node c) =
      Inr \<lparr>n_key = Some (c_key c), n_val = Some (c_val c), n_exp = expires_at_ms (c_ent c), n_next = Some q\<rparr>" for s
    by (simp add: get_node_def)
  have 1: "heap_step al (FreeKey kr (c_node c)) h = Inr (FreeUVal kr (c_node c), ?h1)"
    using assms(1) by (auto simp: n free_str_def holds_def)
  have "free_str (c_val c) ?h1 = Inr ?h2"
    using assms by (auto simp: free_str_def holds_def cell_blocks_def fun_eq_iff split: option.splits)
  then have 2: "heap_step al (FreeUVal kr (c_node c)) ?h1 = Inr (FreeNode kr (c_node c), ?h2)"
    by (simp add: n')
  have 3: "heap_step al (FreeNode kr (c_node c)) ?h2 = Inr (Finish (undef_answer kr True), released c h)"
    by (simp add: n' released_def)
  show ?thesis
    by (rule call_next [OF 1 call_next [OF 2 call_next [OF 3 call.Done]]]) simp_all
qed

lemma holds_relink:
  assumes "holds h c q" and "nodes h' (c_node c) = map_option (n_next_update (\<lambda>_. Some q')) (nodes h (c_node c))"
    and "\<And>x. x \<in> set (cell_blocks c) \<Longrightarrow> strs h' x = strs h x"
  shows "holds h' c q'"
  using assms by (auto simp: holds_def cell_blocks_def split: option.splits)

text \<open>The heap after the unlinking: bucket \<open>b\<close> or the predecessor points past the cell.\<close>

fun unlinked :: "nat \<Rightarrow> addr option \<Rightarrow> addr option \<Rightarrow> heap \<Rightarrow> heap" where
  "unlinked b None q h = h\<lparr>tab := (tab h)(b := q)\<rparr>"
| "unlinked b (Some a) q h = h\<lparr>nodes := (nodes h)(a := map_option (n_next_update (\<lambda>_. Some q)) (nodes h a))\<rparr>"

lemma undef_found_call:
  assumes l: "laid_out C L t h" and kr: "kref_str h kr = Inr k" and cs: "C (hash k) = xs @ c # ys" "key (c_ent c) = k"
    "k \<notin> key ` c_ent ` set xs"
  shows "call al (UEnter kr) h
           (Inr (undef_answer kr True, released c (unlinked (hash k) (last_node None xs) (link_to ys None) h)))"
    (is "call al _ h ?r")
proof -
  let ?cs = "xs @ c # ys" let ?q = "link_to ys None"
  let ?h1 = "unlinked (hash k) (last_node None xs) ?q h"
  have C: "chain h ?cs None" "tab h (hash k) = link_to ?cs None" "distinct (blocks ?cs)"
    using l by (auto simp: laid_out_def cs(1) [symmetric])
  then have h: "holds h c ?q" by simp
  have 3: "heap_step al (Unlink kr (c_node c) (last_node None xs)) h = Inr (FreeKey kr (c_node c), ?h1) \<and> holds ?h1 c ?q"
  proof (cases xs rule: rev_cases)
    case Nil
    then have "holds ?h1 c ?q" by (intro holds_frame [OF h]) simp
    with Nil h show ?thesis by (simp add: holds_reads cs(2))
  next
    case (snoc ps p)
    then have p: "last_node None xs = Some (c_node p)" by simp
    have pn: "holds h p (Some (c_node c))" using C snoc by simp
    then obtain n where n: "nodes h (c_node p) = Some n" by (auto simp: holds_def)
    have "c_node p \<notin> set (cell_blocks c)" using C(3) snoc by (auto simp: cell_blocks_def)
    then have "holds ?h1 c ?q"
      by (intro holds_frame [OF h]) (auto simp: p)
    then show ?thesis using h n by (simp add: p holds_reads get_node_def put_node_def)
  qed
  have "call al (FreeKey kr (c_node c)) ?h1 ?r"
    by (rule free_cell [of _ _ ?q]) (use 3 C(3) in auto)
  then have "call al (Unlink kr (c_node c) (last_node None xs)) h ?r"
    by (rule call_next [OF conjunct1 [OF 3]]) simp
  then have "call al (ULook kr (link_to (c # ys) None) (last_node None xs)) h ?r"
    using h kr cs by - (rule call_next [of _ _ _ "Unlink kr (c_node c) (last_node None xs)" h], simp_all add: holds_reads)
  then have "call al (ULook kr (link_to ?cs None) None) h ?r"
    using undef_walk [of h xs "c # ys" kr k al None ?r] C kr cs by simp
  then show ?thesis
    by - (rule call_next [of _ _ _ "ULook kr (link_to ?cs None) None" h], simp_all add: C kr del: link_to_append)
qed


lemma blocks_node: "c \<in> set cs \<Longrightarrow> c_node c \<in> set (blocks cs)"
  by (auto simp: blocks_def cell_blocks_def)

lemma undef_found_represents:
  assumes l: "laid_out C L t h" and cs: "C b = xs @ c # ys"
  shows "represents L (t(b := map c_ent (xs @ ys))) (released c (unlinked b (last_node None xs) (link_to ys None) h))"
    (is "represents _ _ ?h")
proof -
  let ?q = "link_to ys None"
  have C: "chain h (C b) None" "tab h b = link_to (C b) None" "distinct (blocks (C b))" "dom (nodes h) \<inter> dom (strs h) = {}"
    and below: "\<And>x. x \<in> set (blocks (C b)) \<Longrightarrow> x < fresh h"
    using l by (auto simp: laid_out_def)
  have ns: "nodes ?h x = (if x = c_node c then None else
        if last_node None xs = Some x then map_option (n_next_update (\<lambda>_. Some ?q)) (nodes h x) else nodes h x)" for x
    by (cases "last_node None xs") (auto simp: released_def)
  have ss: "strs ?h x = (if x = c_key c \<or> Some x = c_val c then None else strs h x)" for x
    by (cases "last_node None xs") (simp_all add: released_def)
  have others: "x \<notin> set (cell_blocks c)" if "x \<in> set (blocks (xs @ ys))" for x
    using C(3) that by (auto simp: cs)
  have frame: "chain ?h zs q" if "chain h zs q" "set (blocks zs) \<subseteq> set (blocks (xs @ ys))"
      "\<And>a. last_node None xs = Some a \<Longrightarrow> a \<notin> set (blocks zs)" for zs q
    using that(1) by (rule chain_frame) (use that others in \<open>auto simp: ns ss cell_blocks_def\<close>)
  have chain': "chain ?h (xs @ ys) None"
  proof (cases xs rule: rev_cases)
    case Nil
    then show ?thesis using C frame [of ys None] by (simp add: cs)
  next
    case (snoc ps p)
    have dp: "c_node p \<notin> set (blocks ps)" "c_node p \<notin> set (blocks ys)" "c_node p \<noteq> c_node c"
      using C(3) by (auto simp: cs snoc cell_blocks_def)
    have "holds ?h p ?q"
    proof (rule holds_relink [of h])
      show "holds h p (Some (c_node c))" using C(1) by (simp add: cs snoc)
      show "nodes ?h (c_node p) = map_option (n_next_update (\<lambda>_. Some ?q)) (nodes h (c_node p))"
        using dp ns [of "c_node p"] by (simp add: snoc)
      show "strs ?h x = strs h x" if "x \<in> set (cell_blocks p)" for x
        using others [of x] that ss [of x] by (auto simp: snoc cell_blocks_def)
    qed
    moreover have "chain ?h ps (Some (c_node p))"
      using C dp by (intro frame) (auto simp: cs snoc)
    moreover have "chain ?h ys None"
      using C dp by (intro frame) (auto simp: cs snoc)
    ultimately show ?thesis by (simp add: snoc)
  qed
  have tab': "tab ?h = (tab h)(b := link_to (xs @ ys) None)"
    using C(2) by (cases xs rule: rev_cases) (auto simp: released_def cs fun_eq_iff)
  have alloc': "allocated ?h = (allocated h - set (blocks (C b))) \<union> set (blocks (xs @ ys))"
  proof -
    have c: "nodes h (c_node c) \<noteq> None" "strs h (c_key c) \<noteq> None" "\<And>s. c_val c = Some s \<Longrightarrow> strs h s \<noteq> None"
      using C(1) by (auto simp: cs holds_def)
    then have "strs h (c_node c) = None" "nodes h (c_key c) = None" "\<And>s. c_val c = Some s \<Longrightarrow> nodes h s = None"
      using C(4) by auto
    then have "allocated ?h = allocated h - set (cell_blocks c)"
      by (auto simp: allocated_def dom_def ns ss cell_blocks_def split: if_splits option.splits) 
    moreover have "set (blocks (C b)) \<subseteq> allocated h" using l by (auto simp: laid_out_def)
    ultimately show ?thesis using C(3) by (auto simp: cs)
  qed
  have "dom (nodes ?h) \<subseteq> dom (nodes h)" "dom (strs ?h) \<subseteq> dom (strs h)"
    by (auto simp: ns ss split: if_splits)
  then have doms': "dom (nodes ?h) \<inter> dom (strs ?h) = {}"
    using C(4) by blast
  have fresh': "fresh ?h = fresh h"
    by (cases "last_node None xs") (simp_all add: released_def)
  have same: "x \<notin> set (blocks (C b)) \<Longrightarrow> nodes ?h x = nodes h x \<and> strs ?h x = strs h x" for x
  proof -
    have "last_node None xs \<noteq> Some x" if "x \<notin> set (blocks (C b))"
      using that by (cases xs rule: rev_cases) (auto simp: cs cell_blocks_def)
    then show "x \<notin> set (blocks (C b)) \<Longrightarrow> nodes ?h x = nodes h x \<and> strs ?h x = strs h x"
      by (auto simp: cs ns ss cell_blocks_def)
  qed
  show ?thesis
    by (rule laid_out_update [OF l same tab' chain' _ _ alloc' doms'])
      (use C(3) below in \<open>auto simp: cs fresh'\<close>)
qed

section \<open>Writing an entry\<close>

text \<open>What \<open>NewVal\<close> and \<open>SetExp\<close> leave in the entry at \<open>a\<close>, whose value field is free to be written.\<close>

definition written :: "alloc \<Rightarrow> ins \<Rightarrow> addr \<Rightarrow> heap \<Rightarrow> heap" where
  "written al i a h =
     (let n = the (nodes h a) in
      if value_ok al
      then h\<lparr>nodes := (nodes h)(a \<mapsto> n\<lparr>n_val := Some (Some (fresh h)), n_exp := Some (i_exp i)\<rparr>),
             strs := (strs h)(fresh h \<mapsto> i_val i), fresh := fresh h + 1\<rparr>
      else h\<lparr>nodes := (nodes h)(a \<mapsto> n\<lparr>n_val := Some None\<rparr>)\<rparr>)"

definition after_write :: "alloc \<Rightarrow> ins \<Rightarrow> addr \<Rightarrow> pc" where
  "after_write al i a =
     (if value_ok al then if i_incr i then IncrCopy a else Finish (ASet True) else not_installed i)"

lemma write_value:
  assumes "nodes h a = Some n" and "call al (after_write al i a) (written al i a h) r"
  shows "call al (NewVal i a) h r"
proof (cases "value_ok al")
  case True
  let ?h = "h\<lparr>nodes := (nodes h)(a \<mapsto> n\<lparr>n_val := Some (Some (fresh h))\<rparr>), strs := (strs h)(fresh h \<mapsto> i_val i), fresh := fresh h + 1\<rparr>"
  have "call al (SetExp i a) ?h r"
    by (rule call_next [of _ _ _ "after_write al i a" "written al i a h"])
      (use assms True in \<open>simp_all add: get_node_def put_node_def after_write_def written_def Let_def\<close>)
  then show ?thesis
    by - (rule call_next [of _ _ _ "SetExp i a" ?h],
      use assms(1) True in \<open>simp_all add: get_node_def put_node_def strdup_def\<close>)
next
  case False
  with assms show ?thesis
    by - (rule call_next [of _ _ _ "after_write al i a" "written al i a h"],
      simp_all add: get_node_def put_node_def after_write_def written_def Let_def)
qed

text \<open>The cell after the write.\<close>

definition written_cell :: "alloc \<Rightarrow> ins \<Rightarrow> addr \<Rightarrow> entry_cell \<Rightarrow> entry_cell" where
  "written_cell al i s c =
     c\<lparr>c_val := (if value_ok al then Some s else None), c_ent := store_value al (i_val i) (i_exp i) (c_ent c)\<rparr>"

lemma written_cell_simps [simp]:
  "c_node (written_cell al i s c) = c_node c" "c_key (written_cell al i s c) = c_key c"
  "c_ent (written_cell al i s c) = store_value al (i_val i) (i_exp i) (c_ent c)"
  by (simp_all add: written_cell_def)

lemma written_cell_blocks [simp]:
  "cell_blocks (written_cell al i s c) = c_node c # c_key c # (if value_ok al then [s] else [])"
  by (simp add: cell_blocks_def written_cell_def)

lemma unused:
  assumes "laid_out C L t h"
  shows "nodes h (fresh h + n) = None" "strs h (fresh h + n) = None"
proof -
  have "\<forall>x \<in> allocated h. x < fresh h" using assms by (simp add: laid_out_def)
  then have "fresh h + n \<notin> allocated h" by auto
  then show "nodes h (fresh h + n) = None" "strs h (fresh h + n) = None" by (auto simp: allocated_def)
qed

lemma written_holds:
  assumes "nodes h (c_node c) = Some \<lparr>n_key = Some (c_key c), n_val = x, n_exp = expires_at_ms (c_ent c), n_next = Some q\<rparr>"
    and "strs h (c_key c) = Some (key (c_ent c))" and "c_key c < fresh h"
  shows "holds (written al i (c_node c) h) (written_cell al i (fresh h) c) q"
  using assms by (auto simp: holds_def written_def written_cell_def store_value_def Let_def)

text \<open>\<open>install\<close> of an absent key.\<close>

definition linked_new :: "ins \<Rightarrow> heap \<Rightarrow> heap" where
  "linked_new i h =
     h\<lparr>nodes := (nodes h)(fresh h \<mapsto> \<lparr>n_key = Some (fresh h + 1), n_val = None, n_exp = None, n_next = Some (tab h (hash (i_key i)))\<rparr>),
       strs := (strs h)(fresh h + 1 \<mapsto> i_key i), tab := (tab h)(hash (i_key i) := Some (fresh h)), fresh := fresh h + 2\<rparr>"

lemma link_node:
  assumes "node_ok al" "key_ok al" and "call al (NewVal i (fresh h)) (linked_new i h) r"
  shows "call al (NewNode i) h r"
proof -
  let ?a = "fresh h"
  let ?h1 = "h\<lparr>nodes := (nodes h)(?a \<mapsto> \<lparr>n_key = None, n_val = None, n_exp = None, n_next = None\<rparr>), fresh := ?a + 1\<rparr>"
  let ?h2 = "h\<lparr>nodes := (nodes h)(?a \<mapsto> \<lparr>n_key = Some (?a + 1), n_val = None, n_exp = None, n_next = None\<rparr>),
      strs := (strs h)(?a + 1 \<mapsto> i_key i), fresh := ?a + 2\<rparr>"
  let ?h3 = "h\<lparr>nodes := (nodes h)(?a \<mapsto> \<lparr>n_key = Some (?a + 1), n_val = None, n_exp = None, n_next = Some (tab h (hash (i_key i)))\<rparr>),
      strs := (strs h)(?a + 1 \<mapsto> i_key i), fresh := ?a + 2\<rparr>"
  have 1: "heap_step al (NewNode i) h = Inr (NewKey i ?a, ?h1)"
    using assms(1) by (simp add: alloc_node_def)
  have 2: "heap_step al (NewKey i ?a) ?h1 = Inr (LinkNext i ?a, ?h2)"
    using assms(2) by (simp add: get_node_def put_node_def strdup_def)
  have 3: "heap_step al (LinkNext i ?a) ?h2 = Inr (SetHead i ?a, ?h3)"
    by (simp add: key_of_def get_node_def get_str_def put_node_def)
  have 4: "heap_step al (SetHead i ?a) ?h3 = Inr (NewVal i ?a, linked_new i h)"
    by (simp add: key_of_def get_node_def get_str_def linked_new_def)
  show ?thesis
    by (rule call_next [OF 1 call_next [OF 2 call_next [OF 3 call_next [OF 4 assms(3)]]]]) simp_all
qed


definition installed :: "alloc \<Rightarrow> ins \<Rightarrow> answer" where
  "installed al i =
     (if \<not> i_incr i then ASet (value_ok al)
      else if value_ok al
      then AIncr \<lparr>ok = True, res_value = (if copy_ok al then Some (i_val i) else None), res_error = None\<rparr>
      else AIncr \<lparr>ok = False, res_value = None, res_error = Some ''failed to save''\<rparr>)"

lemma finish_install:
  assumes "nodes h a = Some n"
  shows "call al (after_write al i a) (written al i a h) (Inr (installed al i, written al i a h))"
proof (cases "value_ok al \<and> i_incr i")
  case True
  then have "value_of (written al i a h) a = Inr (i_val i)"
    by (simp add: value_of_def get_node_def get_str_def written_def Let_def)
  with True show ?thesis
    by - (rule call_next [of _ _ _ "Finish (installed al i)" "written al i a h"],
      simp_all add: after_write_def installed_def call.Done)
next
  case False
  then show ?thesis
    by (auto simp: after_write_def installed_def not_installed_def intro: call.Done)
qed

lemma install_new_represents:
  assumes l: "laid_out C L t h" and k: "k = i_key i"
  shows "represents L (t(hash k := store_value al (i_val i) (i_exp i) \<lparr>key = k, val = None, expires_at_ms = None\<rparr> # t (hash k)))
           (written al i (fresh h) (linked_new i h))"
    (is "represents _ _ ?h")
proof -
  let ?b = "hash k"
  let ?c = "\<lparr>c_node = fresh h, c_key = fresh h + 1, c_val = None, c_ent = \<lparr>key = k, val = None, expires_at_ms = None\<rparr>\<rparr>"
  let ?cs = "written_cell al i (fresh h + 2) ?c # C ?b"
  have C: "chain h (C ?b) None" "tab h ?b = link_to (C ?b) None" "distinct (blocks (C ?b))" "t ?b = map c_ent (C ?b)"
    and below: "\<And>x. x \<in> allocated h \<Longrightarrow> x < fresh h" and own: "set (blocks (C ?b)) \<subseteq> allocated h"
    using l by (auto simp: laid_out_def)
  have old: "nodes ?h x = nodes h x" "strs ?h x = strs h x" if "x < fresh h" for x
    using that by (auto simp: written_def linked_new_def Let_def)
  have nf: "fresh h + n \<notin> set (blocks (C ?b))" for n
    using below [of "fresh h + n"] own by auto
  show ?thesis
  proof (rule laid_out_update [OF l, of ?b _ ?cs])
    show "tab ?h = (tab h)(?b := link_to ?cs None)"
      by (simp add: written_def linked_new_def Let_def k)
    have "holds ?h (written_cell al i (fresh h + 2) ?c) (tab h ?b)"
      using written_holds [of "linked_new i h" ?c None "tab h ?b" al i] by (simp add: linked_new_def k)
    moreover have "chain ?h (C ?b) None"
      by (rule chain_frame [OF C(1)]) (use old own below in blast)
    ultimately show "chain ?h ?cs None" by (simp add: C(2))
    show "distinct (blocks ?cs)" 
      using C(3) nf [of 0] nf [of 1] nf [of 2] by simp
    show "set (blocks ?cs) \<subseteq> set (blocks (C ?b)) \<union> {fresh h..}" by auto
    show "allocated ?h = (allocated h - set (blocks (C ?b))) \<union> set (blocks ?cs)"
      using own by (auto simp: allocated_def written_def linked_new_def Let_def)
    show "dom (nodes ?h) \<inter> dom (strs ?h) = {}"
      using l unused [OF l, of 0] unused [OF l, of 1] unused [OF l, of 2]
      by (auto simp: laid_out_def written_def linked_new_def Let_def)
    show "x < fresh ?h" if "x \<in> set (blocks ?cs)" for x
      using that below [OF subsetD [OF own]] by (fastforce simp: written_def linked_new_def Let_def split: if_splits)
    show "fresh h \<le> fresh ?h" by (simp add: written_def linked_new_def Let_def)
  qed (use old C(4) in auto)
qed


text \<open>\<open>install\<close> of a key that has an entry: its old value is freed, the new one is copied.\<close>

definition value_freed :: "entry_cell \<Rightarrow> heap \<Rightarrow> heap" where
  "value_freed c h = h\<lparr>strs := (\<lambda>x. if Some x = c_val c then None else strs h x)\<rparr>"

lemma free_value:
  assumes "holds h c q" and "call al (NewVal i (c_node c)) (value_freed c h) r"
  shows "call al (FreeVal i (c_node c)) h r"
proof -
  have "free_str (c_val c) h = Inr (value_freed c h)"
    using assms(1) by (auto simp: free_str_def value_freed_def holds_def fun_eq_iff split: option.splits)
  then have "heap_step al (FreeVal i (c_node c)) h = Inr (NewVal i (c_node c), value_freed c h)"
    by (simp add: holds_reads [OF assms(1)])
  then show ?thesis by (rule call_next) (simp_all add: assms(2))
qed

lemma install_old_represents:
  assumes l: "laid_out C L t h" and cs: "C b = xs @ c # ys"
  shows "represents L (t(b := map c_ent xs @ store_value al (i_val i) (i_exp i) (c_ent c) # map c_ent ys))
           (written al i (c_node c) (value_freed c h))"
    (is "represents _ _ ?h")
proof -
  let ?c = "written_cell al i (fresh h) c" and ?q = "link_to ys None" and ?h1 = "value_freed c h"
  let ?cs = "xs @ ?c # ys"
  have C: "chain h (C b) None" "tab h b = link_to (C b) None" "distinct (blocks (C b))"
    and below: "\<And>x. x \<in> allocated h \<Longrightarrow> x < fresh h" and own: "set (blocks (C b)) \<subseteq> allocated h"
    and doms: "dom (nodes h) \<inter> dom (strs h) = {}"
    using l by (auto simp: laid_out_def)
  have c: "holds h c ?q" "c_key c < fresh h" "c_node c < fresh h" and dc: "distinct (cell_blocks c)"
    using C below [OF subsetD [OF own]] by (auto simp: cs cell_blocks_def)
  then obtain n where n: "nodes h (c_node c) = Some n" by (auto simp: holds_def)
  have keyv: "c_val c \<noteq> Some (c_key c)" using dc by (auto simp: cell_blocks_def)
  have same: "nodes ?h x = nodes h x \<and> strs ?h x = strs h x" if "x \<notin> set (cell_blocks c)" "x < fresh h" for x
    using that by (auto simp: written_def value_freed_def Let_def cell_blocks_def)
  have frame: "chain ?h zs q" if "chain h zs q" "set (blocks zs) \<subseteq> set (blocks (xs @ ys))" for zs q
    using that(1)
  proof (rule chain_frame)
    fix x assume "x \<in> set (blocks zs)"
    with that(2) C(3) below [OF subsetD [OF own]] show "nodes ?h x = nodes h x \<and> strs ?h x = strs h x"
      by (intro same) (auto simp: cs)
  qed
  note cb = cell_blocks_def [of c]
  show ?thesis
  proof (rule laid_out_update [OF l, of b _ ?cs])
    show "nodes ?h x = nodes h x \<and> strs ?h x = strs h x" if "x \<notin> set (blocks (C b))" "x < fresh h" for x
      using that by (intro same) (auto simp: cs)
    show "tab ?h = (tab h)(b := link_to ?cs None)"
      using C(2) by (cases xs) (auto simp: written_def value_freed_def Let_def cs fun_eq_iff)
    have "holds ?h ?c ?q"
      using written_holds [of ?h1 c "Some (c_val c)" ?q al i] c keyv by (auto simp: value_freed_def holds_def)
    then show "chain ?h ?cs None"
      using frame [of xs "Some (c_node c)"] frame [of ys None] C(1) by (simp add: cs)
    show "distinct (blocks ?cs)"
      using C(3) c(2,3) below [OF subsetD [OF own], of "fresh h"] by (auto simp: cs cb)
    show "set (blocks ?cs) \<subseteq> set (blocks (C b)) \<union> {fresh h..}"
      by (auto simp: cs cb)
    show "dom (nodes ?h) \<inter> dom (strs ?h) = {}"
      using doms c(3) n unused [OF l, of 0] by (auto simp: written_def value_freed_def Let_def split: if_splits)
    show "x < fresh ?h" if "x \<in> set (blocks ?cs)" for x
      using that below [OF subsetD [OF own]]
      by (fastforce simp: cs written_def value_freed_def Let_def cb split: if_splits)
    show "fresh h \<le> fresh ?h" by (simp add: written_def value_freed_def Let_def)
    show "allocated ?h = (allocated h - set (blocks (C b))) \<union> set (blocks ?cs)"
    proof -
      have v: "nodes h x = None" "strs h x \<noteq> None" if "c_val c = Some x" for x
        using doms c(1) that by (auto simp: holds_def)
      have "allocated ?h = (allocated h - {x. c_val c = Some x}) \<union> (if value_ok al then {fresh h} else {})"
        using n v by (auto simp: allocated_def written_def value_freed_def Let_def split: if_splits)
      then show ?thesis using own C(3) by (auto simp: cs cb)
    qed
  qed (simp add: cs)
qed


section \<open>Each call on the heap does what its function does on the table\<close>

text \<open>The entry a failed copy of the key leaves behind: \<open>install\<close> returns without freeing it.\<close>

definition leaks :: "alloc \<Rightarrow> op \<Rightarrow> table \<Rightarrow> bool" where
  "leaks al x t \<longleftrightarrow>
     node_ok al \<and> \<not> key_ok al \<and>
     (case x of OSet k v ex \<Rightarrow> lookup k t = None | OIncr k \<Rightarrow> res_ok al \<and> lookup k t = None | _ \<Rightarrow> False)"

text \<open>The functions of \<open>Redis_DB\<close>.\<close>

fun spec_op :: "alloc \<Rightarrow> op \<Rightarrow> table \<Rightarrow> (table \<times> answer) result" where
  "spec_op al (OSet k v ex) t = ebind (db_set_ex al k v ex t) (\<lambda>(t', b). Inr (t', ASet b))"
| "spec_op al (OGet k now) t = ebind (db_get al now k t) (\<lambda>(t', v). Inr (t', AGet v))"
| "spec_op al (ODel k) t = (let (t', b) = db_del k t in Inr (t', ADel b))"
| "spec_op al (OIncr k) t = ebind (db_incr al k t) (\<lambda>(t', r). Inr (t', AIncr r))"

text \<open>
  \<open>agrees L t h s r\<close>: the outcome \<open>r\<close> of a call on the heap \<open>h\<close> is the outcome \<open>s\<close> of its function on the
  table, and the heap it leaves represents the table the function returns.
\<close>

definition agrees :: "addr set \<Rightarrow> (table \<times> answer) result \<Rightarrow> (answer \<times> heap) result \<Rightarrow> bool" where
  "agrees L s r \<longleftrightarrow>
     (case s of
        Inl f \<Rightarrow> r = Inl f
      | Inr (t', x) \<Rightarrow> \<exists>h'. r = Inr (x, h') \<and> represents L t' h')"

lemma enter_install:
  assumes l: "laid_out C L t h"
  shows "\<exists>r. call al (Enter (ForInstall i)) h r \<and>
    agrees (if lookup (i_key i) t = None \<and> node_ok al \<and> \<not> key_ok al then insert (fresh h) L else L)
      (ebind (install al (i_key i) (i_val i) (i_exp i) t) (\<lambda>(t', p). Inr (t',
         if p \<noteq> None then installed al i else case not_installed i of Finish x \<Rightarrow> x))) r"
    (is "\<exists>r. call al ?p h r \<and> agrees ?L ?s r")
proof (cases "lookup (i_key i) t")
  case None
  have new: "call al (NewNode i) h r \<Longrightarrow> call al ?p h r" for r
    by (rule enter_missing [OF l]) (simp_all add: None)
  consider "\<not> node_ok al" | "node_ok al" "\<not> key_ok al" | "node_ok al" "key_ok al" by blast
  then show ?thesis
  proof cases
    case 1
    then have "call al (NewNode i) h (Inl NullDeref)" by (intro call.Fault) simp
    with new None 1 show ?thesis by (auto simp: install_def agrees_def)
  next
    case 2
    let ?h = "h\<lparr>nodes := (nodes h)(fresh h \<mapsto> \<lparr>n_key = None, n_val = None, n_exp = None, n_next = None\<rparr>), fresh := fresh h + 1\<rparr>"
    let ?x = "case not_installed i of Finish x \<Rightarrow> x"
    have f: "not_installed i = Finish ?x" by (simp add: not_installed_def)
    have s1: "heap_step al (NewNode i) h = Inr (NewKey i (fresh h), ?h)" using 2 by (simp add: alloc_node_def)
    have s2: "heap_step al (NewKey i (fresh h)) ?h = Inr (Finish ?x, ?h)" using 2 f by simp
    have "call al (NewNode i) h (Inr (?x, ?h))"
      by (rule call_next [OF s1 call_next [OF s2 call.Done]]) simp_all
    moreover have "represents (insert (fresh h) L) t ?h"
      by (rule represents_leak [of L t h]) (use l in \<open>auto simp: represents_def\<close>)
    ultimately show ?thesis using new None 2 by (auto simp: install_def agrees_def)
  next
    case 3
    let ?h = "written al i (fresh h) (linked_new i h)"
    have n: "nodes (linked_new i h) (fresh h) \<noteq> None" by (simp add: linked_new_def)
    then obtain n where n: "nodes (linked_new i h) (fresh h) = Some n" by blast
    have "call al ?p h (Inr (installed al i, ?h))"
      by (intro new link_node 3 write_value [OF n] finish_install [OF n])
    moreover have "represents L (t(hash (i_key i) := store_value al (i_val i) (i_exp i) \<lparr>key = i_key i, val = None, expires_at_ms = None\<rparr> # t (hash (i_key i)))) ?h"
      by (rule install_new_represents [OF l refl])
    ultimately show ?thesis
      using None 3 by (auto simp: install_def agrees_def Let_def installed_def not_installed_def)
  qed
next
  case (Some e)
  have t: "t (hash (i_key i)) = map c_ent (C (hash (i_key i)))" using l by (simp add: laid_out_def)
  obtain xs c ys where cs: "C (hash (i_key i)) = xs @ c # ys" "c_ent c = e" "key e = i_key i" "i_key i \<notin> key ` c_ent ` set xs"
    by (rule chain_find_split [of "i_key i" "C (hash (i_key i))" e]) (use Some t in \<open>simp add: lookup_def\<close>)
  let ?h = "written al i (c_node c) (value_freed c h)"
  have h: "holds h c (link_to ys None)" using l by (auto simp: laid_out_def cs(1) dest!: spec [of _ "hash (i_key i)"])
  then obtain n where n: "nodes (value_freed c h) (c_node c) = Some n" by (auto simp: holds_def value_freed_def)
  have "call al (FreeVal i (c_node c)) h (Inr (installed al i, ?h))"
    by (intro free_value [OF h] write_value [OF n] finish_install [OF n])
  then have "call al ?p h (Inr (installed al i, ?h))"
    by (intro enter_found [OF l]) (use cs in simp_all)
  moreover have "represents L (t(hash (i_key i) := chain_modify key (i_key i) (store_value al (i_val i) (i_exp i)) (t (hash (i_key i))))) ?h"
    using install_old_represents [OF l cs(1), of al i] chain_modify_split [of "i_key i" xs c "store_value al (i_val i) (i_exp i)" ys]
    by (simp add: t cs)
  ultimately show ?thesis
    using Some by (auto simp: install_def agrees_def Let_def installed_def not_installed_def)
qed


lemma enter_undef:
  assumes l: "laid_out C L t h" and kr: "kref_str h kr = Inr k"
  shows "\<exists>h'. call al (UEnter kr) h (Inr (undef_answer kr (snd (undef k t)), h')) \<and> represents L (fst (undef k t)) h'"
proof (cases "lookup k t")
  case None
  then have "undef k t = (t, False)" by (simp add: undef_def lookup_def chain_unlink_none)
  with undef_missing [OF l kr None, of al] l show ?thesis by (auto simp: represents_def)
next
  case (Some e)
  have t: "t (hash k) = map c_ent (C (hash k))" using l by (simp add: laid_out_def)
  obtain xs c ys where cs: "C (hash k) = xs @ c # ys" "c_ent c = e" "key e = k" "k \<notin> key ` c_ent ` set xs"
    by (rule chain_find_split [of k "C (hash k)" e]) (use Some t in \<open>simp add: lookup_def\<close>)
  have "undef k t = (t(hash k := map c_ent (xs @ ys)), True)"
    using chain_unlink_split [of k xs c ys] cs by (simp add: undef_def t)
  moreover have "call al (UEnter kr) h
      (Inr (undef_answer kr True, released c (unlinked (hash k) (last_node None xs) (link_to ys None) h)))"
    by (rule undef_found_call [OF l kr cs(1)]) (use cs in simp_all)
  ultimately show ?thesis
    using undef_found_represents [OF l cs(1)] by auto
qed

text \<open>The cell of the entry that \<open>lookup\<close> finds.\<close>

lemma lookup_cell:
  assumes l: "laid_out C L t h" and e: "lookup k t = Some e"
  obtains xs c ys where "C (hash k) = xs @ c # ys" "c_ent c = e" "key e = k" "k \<notin> key ` c_ent ` set xs"
    "holds h c (link_to ys None)"
proof -
  have t: "t (hash k) = map c_ent (C (hash k))" using l by (simp add: laid_out_def)
  obtain xs c ys where cs: "C (hash k) = xs @ c # ys" "c_ent c = e" "key e = k" "k \<notin> key ` c_ent ` set xs"
    by (rule chain_find_split [of k "C (hash k)" e]) (use e t in \<open>simp add: lookup_def\<close>)
  moreover have "holds h c (link_to ys None)"
    using l by (auto simp: laid_out_def cs(1) dest!: spec [of _ "hash k"])
  ultimately show thesis using that by blast
qed

lemma call_get:
  assumes l: "laid_out C L t h"
  shows "\<exists>r. call al (Enter (ForGet k now)) h r \<and> agrees L (spec_op al (OGet k now) t) r"
proof (cases "lookup k t")
  case None
  have "call al (Enter (ForGet k now)) h (Inr (AGet None, h))"
    by (rule enter_missing [OF l]) (simp_all add: None call.Done)
  then show ?thesis using None l by (auto simp: db_get_def agrees_def represents_def)
next
  case (Some e)
  obtain xs c ys where cs: "C (hash k) = xs @ c # ys" "c_ent c = e" "key e = k" "k \<notin> key ` c_ent ` set xs"
    and h: "holds h c (link_to ys None)" by (rule lookup_cell [OF l Some])
  let ?a = "c_node c"
  have rep: "represents L t h" using l by (auto simp: represents_def)
  have look: "call al (CheckExp now ?a) h r \<Longrightarrow> call al (Enter (ForGet k now)) h r" for r
    by (rule enter_found [OF l, of _ xs c ys]) (use cs in simp_all)
  note reads = holds_reads [OF h] cs(2)
  show ?thesis
  proof (cases "expires_at_ms e")
    case None
    then have "call al (CheckExp now ?a) h (Inl Uninit)" by (intro call.Fault) (simp add: reads)
    with look None Some show ?thesis by (auto simp: db_get_def expired_def agrees_def)
  next
    case ex: (Some ex)
    show ?thesis
    proof (cases "ex \<noteq> 0 \<and> ex \<le> now")
      case True
      have "kref_str h (KeyOf ?a) = Inr k" by (simp add: reads cs)
      from enter_undef [OF l this, of al] obtain h'
        where u: "call al (UEnter (KeyOf ?a)) h (Inr (AGet None, h'))" "represents L (fst (undef k t)) h'" by auto
      have "heap_step al (CheckExp now ?a) h = Inr (UEnter (KeyOf ?a), h)" using True ex by (simp add: reads)
      from look [OF call_next [OF this u(1)]] u(2) ex True Some cs(3) show ?thesis
        by (auto simp: db_get_def expired_def agrees_def)
    next
      case False
      have 1: "heap_step al (CheckExp now ?a) h = Inr (CopyVal ?a, h)" using False ex by (auto simp: reads)
      show ?thesis
      proof (cases "val e")
        case None
        then have "call al (CopyVal ?a) h (Inl NullDeref)" by (intro call.Fault) (simp add: reads)
        from look [OF call_next [OF 1 this]] None Some ex False show ?thesis
          by (auto simp: db_get_def expired_def agrees_def)
      next
        case v: (Some v)
        then have 2: "heap_step al (CopyVal ?a) h = Inr (Finish (AGet (if copy_ok al then Some v else None)), h)"
          by (simp add: reads)
        from look [OF call_next [OF 1 call_next [OF 2 call.Done]]] v Some ex False rep show ?thesis
          by (auto simp: db_get_def expired_def agrees_def)
      qed
    qed
  qed
qed


lemma install_Some:
  assumes "install al k v ex t = Inr (t', Some e)"
  shows "value_ok al" and "val e = Some v"
  using assms by (auto simp: install_def store_value_def Let_def split: option.splits if_splits)

text \<open>The end of \<open>db_incr\<close>, after \<open>install\<close>.\<close>

definition finish_incr :: "alloc \<Rightarrow> table \<times> entry option \<Rightarrow> (table \<times> db_result) result" where
  "finish_incr al = (\<lambda>(t', p).
     case p of
       None \<Rightarrow> Inr (t', \<lparr>ok = False, res_value = None, res_error = Some ''failed to save''\<rparr>)
     | Some e \<Rightarrow> ebind (read_init NullDeref (val e)) (\<lambda>v.
         Inr (t', \<lparr>ok = True, res_value = (if copy_ok al then Some v else None), res_error = None\<rparr>)))"

lemma call_incr_install:
  assumes l: "laid_out C L t h" and i: "i_incr i"
  shows "\<exists>r. call al (Enter (ForInstall i)) h r \<and>
    agrees (if lookup (i_key i) t = None \<and> node_ok al \<and> \<not> key_ok al then insert (fresh h) L else L)
      (ebind (ebind (install al (i_key i) (i_val i) (i_exp i) t) (finish_incr al)) (\<lambda>(t', r). Inr (t', AIncr r))) r"
proof -
  have end_eq: "ebind (finish_incr al tp) (\<lambda>(t', r). Inr (t', AIncr r)) =
      (case tp of (t', p) \<Rightarrow> Inr (t', if p \<noteq> None then installed al i else case not_installed i of Finish x \<Rightarrow> x))"
    if "install al (i_key i) (i_val i) (i_exp i) t = Inr tp" for tp
  proof (cases tp)
    case (Pair t' p)
    show ?thesis
    proof (cases p)
      case None
      with Pair i show ?thesis by (simp add: finish_incr_def not_installed_def)
    next
      case (Some e)
      with that Pair have "install al (i_key i) (i_val i) (i_exp i) t = Inr (t', Some e)" by simp
      from install_Some [OF this] Pair Some i show ?thesis by (simp add: finish_incr_def installed_def)
    qed
  qed
  have "ebind (ebind (install al (i_key i) (i_val i) (i_exp i) t) (finish_incr al)) (\<lambda>(t', r). Inr (t', AIncr r)) =
      ebind (install al (i_key i) (i_val i) (i_exp i) t) (\<lambda>(t', p). Inr (t',
         if p \<noteq> None then installed al i else case not_installed i of Finish x \<Rightarrow> x))"
    unfolding ebind_assoc by (intro ebind_cong refl end_eq)
  with enter_install [OF l, of al i] show ?thesis by simp
qed

lemma call_incr:
  assumes l: "laid_out C L t h"
  shows "\<exists>r. call al (IncrAlloc k) h r \<and>
    agrees (if leaks al (OIncr k) t then insert (fresh h) L else L) (spec_op al (OIncr k) t) r"
proof (cases "res_ok al")
  case False
  then have "call al (IncrAlloc k) h (Inl NullDeref)" by (intro call.Fault) simp
  with False show ?thesis by (auto simp: db_incr_def agrees_def leaks_def)
next
  case True
  have start: "call al (Enter (ForIncr k)) h r \<Longrightarrow> call al (IncrAlloc k) h r" for r
    by (rule call_next [of _ _ _ "Enter (ForIncr k)" h]) (simp_all add: True)
  show ?thesis
  proof (cases "lookup k t")
    case None
    let ?i = "\<lparr>i_key = k, i_val = ''1'', i_exp = 0, i_incr = True\<rparr>"
    have enter: "call al (Enter (ForInstall ?i)) h r \<Longrightarrow> call al (IncrAlloc k) h r" for r
      by (intro start enter_missing [OF l]) (simp_all add: None)
    have "leaks al (OIncr k) t \<longleftrightarrow> lookup k t = None \<and> node_ok al \<and> \<not> key_ok al"
      using True None by (auto simp: leaks_def)
    moreover have "spec_op al (OIncr k) t = ebind (ebind (install al k ''1'' 0 t) (finish_incr al)) (\<lambda>(t', r). Inr (t', AIncr r))"
      using True None by (simp add: db_incr_def finish_incr_def)
    ultimately have "\<exists>r. call al (Enter (ForInstall ?i)) h r \<and>
        agrees (if leaks al (OIncr k) t then insert (fresh h) L else L) (spec_op al (OIncr k) t) r"
      using call_incr_install [OF l, of ?i al] by (simp only: ins.simps)
    then show ?thesis using enter by blast
  next
    case (Some e)
    obtain xs c ys where cs: "C (hash k) = xs @ c # ys" "c_ent c = e" "key e = k" "k \<notin> key ` c_ent ` set xs"
      and h: "holds h c (link_to ys None)" by (rule lookup_cell [OF l Some])
    have rep: "represents L t h" using l by (auto simp: represents_def)
    let ?p = "IncrRead k (c_node c)"
    note reads = holds_reads [OF h] cs(2)
    have look: "call al ?p h r \<Longrightarrow> call al (IncrAlloc k) h r" for r
      by (intro start enter_found [OF l, of _ xs c ys]) (use cs in simp_all)
    have stuck: "heap_step al ?p h = Inl f \<Longrightarrow> call al (IncrAlloc k) h (Inl f)" for f
      by (intro look call.Fault)
    show ?thesis
    proof (cases "\<exists>v. val e = Some v \<and> is_number v = Inr True \<and> atoi v \<noteq> INT_MAX \<and> expires_at_ms e \<noteq> None")
      case True
      then obtain v ex where v: "val e = Some v" "is_number v = Inr True" "atoi v \<noteq> INT_MAX" "expires_at_ms e = Some ex" by blast
      let ?i = "\<lparr>i_key = k, i_val = snprintf 63 (int_str (atoi v + 1)), i_exp = ex, i_incr = True\<rparr>"
      have "heap_step al ?p h = Inr (Enter (ForInstall ?i), h)" using v by (simp add: reads)
      then have enter: "call al (Enter (ForInstall ?i)) h r \<Longrightarrow> call al (IncrAlloc k) h r" for r
        by (intro look) (rule call_next, simp_all)
      have "spec_op al (OIncr k) t =
          ebind (ebind (install al k (snprintf 63 (int_str (atoi v + 1))) ex t) (finish_incr al)) (\<lambda>(t', r). Inr (t', AIncr r))"
        using \<open>res_ok al\<close> Some v by (simp add: db_incr_def finish_incr_def)
      moreover have "leaks al (OIncr k) t \<longleftrightarrow> lookup k t = None \<and> node_ok al \<and> \<not> key_ok al"
        using Some by (simp add: leaks_def)
      ultimately have "\<exists>r. call al (Enter (ForInstall ?i)) h r \<and>
          agrees (if leaks al (OIncr k) t then insert (fresh h) L else L) (spec_op al (OIncr k) t) r"
        using call_incr_install [OF l, of ?i al] by (simp only: ins.simps)
      then show ?thesis using enter by blast
    next
      case False
      consider "val e = None"
        | v f where "val e = Some v" "is_number v = Inl f"
        | v where "val e = Some v" "is_number v = Inr False"
        | v where "val e = Some v" "is_number v = Inr True" "atoi v = INT_MAX"
        | v where "val e = Some v" "is_number v = Inr True" "atoi v \<noteq> INT_MAX" "expires_at_ms e = None"
        using False by (cases "val e"; cases "is_number (the (val e))") auto
      then show ?thesis
      proof cases
        case 1
        then show ?thesis using stuck [of NullDeref] Some \<open>res_ok al\<close> by (auto simp: reads db_incr_def agrees_def)
      next
        case (2 v f)
        then show ?thesis using stuck [of f] Some \<open>res_ok al\<close> by (auto simp: reads db_incr_def agrees_def)
      next
        case (3 v)
        let ?x = "AIncr \<lparr>ok = False, res_value = None, res_error = Some not_integer_msg\<rparr>"
        have "heap_step al ?p h = Inr (Finish ?x, h)" using 3 by (simp add: reads)
        then have "call al (IncrAlloc k) h (Inr (?x, h))"
          by (intro look) (rule call_next [OF _ call.Done], simp_all)
        with 3 rep Some \<open>res_ok al\<close> show ?thesis by (auto simp: db_incr_def agrees_def leaks_def)
      next
        case (4 v)
        then show ?thesis using stuck [of SignedOverflow] Some \<open>res_ok al\<close> by (auto simp: reads db_incr_def agrees_def)
      next
        case (5 v)
        then show ?thesis using stuck [of Uninit] Some \<open>res_ok al\<close> by (auto simp: reads db_incr_def agrees_def)
      qed
    qed
  qed
qed

text \<open>Every call on a heap that represents a table.\<close>

lemma call_refines:
  assumes "represents L t h"
  shows "\<exists>r. call al (begin_op x) h r \<and> agrees (if leaks al x t then insert (fresh h) L else L) (spec_op al x t) r"
proof -
  obtain C where l: "laid_out C L t h" using assms by (auto simp: represents_def)
  show ?thesis
  proof (cases x)
    case (OSet k v ex)
    let ?i = "\<lparr>i_key = k, i_val = v, i_exp = ex, i_incr = False\<rparr>"
    have "ebind (install al k v ex t) (\<lambda>(t', p). Inr (t', if p \<noteq> None then installed al ?i else case not_installed ?i of Finish x \<Rightarrow> x)) =
        spec_op al (OSet k v ex) t"
      by (simp add: db_set_ex_def ebind_assoc split_def)
        (intro ebind_cong refl, auto simp: installed_def not_installed_def dest: install_Some)
    moreover have "leaks al x t \<longleftrightarrow> lookup k t = None \<and> node_ok al \<and> \<not> key_ok al"
      by (auto simp: OSet leaks_def)
    ultimately show ?thesis using enter_install [OF l, of al ?i] by (simp only: OSet begin_op.simps ins.simps)
  next
    case (OGet k now)
    with call_get [OF l, of al k now] show ?thesis by (simp add: leaks_def)
  next
    case (ODel k)
    have "agrees L (spec_op al (ODel k) t) (Inr (ADel (snd (undef k t)), h'))" if "represents L (fst (undef k t)) h'" for h'
      using that by (simp add: agrees_def db_del_def split_def Let_def)
    with enter_undef [OF l, of "Given k" k al] ODel show ?thesis by (auto simp: leaks_def)
  next
    case (OIncr k)
    with call_incr [OF l, of al k] show ?thesis by simp
  qed
qed

lemma spec_op_not_dangling: "spec_op al x t \<noteq> Inl Dangling"
proof (cases x)
  case (OSet k v ex)
  then show ?thesis
    by (auto simp: db_set_ex_def install_def Let_def split: option.splits)
next
  case (OGet k now)
  then show ?thesis
    by (auto simp: db_get_def expired_def read_init_def ebind_eq_Inl split: option.splits if_splits)
next
  case (ODel k)
  then show ?thesis by (simp add: split_def Let_def)
next
  case (OIncr k)
  have "is_number v \<noteq> Inl f" for v f using is_number_total [of v] by auto
  moreover have "install al k v ex t \<noteq> Inl Dangling" for v ex
    by (auto simp: install_def Let_def split: option.splits)
  ultimately show ?thesis using OIncr
    by (auto simp: db_incr_def Let_def read_init_def ebind_eq_Inl split: option.splits if_splits)
qed

section \<open>A call has one outcome\<close>

inductive_cases call_FinishE: "call al (Finish x) h r"

lemma call_Finish [simp]: "call al (Finish x) h r \<longleftrightarrow> r = Inr (x, h)"
  by (auto intro: call.Done elim: call_FinishE)

lemma call_step: "call al p h r \<Longrightarrow> (\<And>x. p \<noteq> Finish x) \<Longrightarrow> heap_step al p h = Inr (p', h') \<Longrightarrow> call al p' h' r"
  by (erule call.cases) auto

lemma call_fault: "call al p h r \<Longrightarrow> heap_step al p h = Inl f \<Longrightarrow> r = Inl f"
  by (erule call.cases) auto

lemma call_unique: "call al p h r \<Longrightarrow> call al p h r' \<Longrightarrow> r' = r"
proof (induction rule: call.induct)
  case (Done x h)
  then show ?case by simp
next
  case (Fault p h f)
  then show ?case using call_fault by blast
next
  case (Next p h p' h' r)
  then show ?case using call_step by blast
qed

lemma call_outcome:
  assumes "represents L t h" and "call al (begin_op x) h r"
  shows "agrees (if leaks al x t then insert (fresh h) L else L) (spec_op al x t) r"
  using call_refines [OF assms(1), of al x] call_unique [OF assms(2)] by blast

text \<open>The one way to lose a block: \<open>install\<close> returns without freeing the entry whose key it could not copy.\<close>

lemma failed_key_copy_leaks:
  assumes "represents L t h" and "lookup k t = None" and "node_ok al" and "\<not> key_ok al"
  shows "\<exists>h'. call al (begin_op (OSet k v ex)) h (Inr (ASet False, h')) \<and> represents (insert (fresh h) L) t h'"
  using call_refines [OF assms(1), of al "OSet k v ex"] assms(2-)
  by (auto simp: leaks_def agrees_def db_set_ex_def install_def)

text \<open>C4: On a heap that represents a table every call of \<open>db.c\<close> ends: its pointer operations give the answer,
  or the fault, of the function on the table, and leave a heap that represents the table the function returns.
  No call uses a block that was freed, frees one twice or gives up an entry of the table; the blocks
  that nothing points to stay those of before, but for the entry that \<open>install\<close> drops when the copy of the key fails.
\<close>

theorem heap_calls_refine:
  assumes "represents L t h"
  shows "\<exists>r. call al (begin_op x) h r \<and> r \<noteq> Inl Dangling \<and>
    agrees (if leaks al x t then insert (fresh h) L else L) (spec_op al x t) r"
  using call_refines [OF assms, of al x] spec_op_not_dangling [of al x t]
  by (auto simp: agrees_def split: sum.splits)

lemma heap_calls_refine_witness:
  "\<exists>h. call all_ok (begin_op (OSet ''n'' ''6'' 0)) empty_heap (Inr (ASet True, h)) \<and>
     (\<exists>t. represents {} t h \<and> lookup ''n'' t = Some \<lparr>key = ''n'', val = Some ''6'', expires_at_ms = Some 0\<rparr>)"
proof -
  let ?t = "empty_table(hash ''n'' := [\<lparr>key = ''n'', val = Some ''6'', expires_at_ms = Some 0\<rparr>])"
  have "spec_op all_ok (OSet ''n'' ''6'' 0) empty_table = Inr (?t, ASet True)"
    by (simp add: db_set_ex_def install_def Let_def lookup_def empty_table_def)
  with heap_calls_refine [OF represents_empty, of all_ok "OSet ''n'' ''6'' 0"] obtain h
    where h: "call all_ok (begin_op (OSet ''n'' ''6'' 0)) empty_heap (Inr (ASet True, h))" "represents {} ?t h"
    by (auto simp: leaks_def agrees_def)
  moreover have "lookup ''n'' ?t = Some \<lparr>key = ''n'', val = Some ''6'', expires_at_ms = Some 0\<rparr>"
    by (simp add: lookup_def)
  ultimately show ?thesis by blast
qed

end
