(* ===== verification/Redis_API.thy ===== *)
theory Redis_API
  imports Redis_Heap_Calls
begin

text \<open>
  The contract of the store as \<open>db.h\<close> documents it, function by function, on a map from keys to values with
  an expiry. \<open>spec_op\<close>, the functions of \<open>db.c\<close> on the table, keep it whenever their memory allocations succeed, but for
  the counter at its limit, which overflows.
\<close>

section \<open>The documented functions\<close>

type_synonym api_store = "string \<rightharpoonup> string \<times> u64"

text \<open>\<open>db_set\<close> (an expiry of 0 disables expiration) and \<open>db_set_ex\<close>: the value and any expiry are replaced.\<close>

definition api_set :: "string \<Rightarrow> string \<Rightarrow> u64 \<Rightarrow> api_store \<Rightarrow> api_store" where
  "api_set k v ex m = m(k \<mapsto> (v, ex))"

text \<open>\<open>db_get\<close>: the value, or \<open>NULL\<close> if the key does not exist or has expired; expired keys are removed when accessed.\<close>

definition api_get :: "u64 \<Rightarrow> string \<Rightarrow> api_store \<Rightarrow> api_store \<times> string option" where
  "api_get now k m =
     (case m k of
        None \<Rightarrow> (m, None)
      | Some (v, ex) \<Rightarrow> if ex \<noteq> 0 \<and> ex \<le> now then (m(k := None), None) else (m, Some v))"

text \<open>\<open>db_del\<close>: true if the key existed and was removed.\<close>

definition api_del :: "string \<Rightarrow> api_store \<Rightarrow> api_store \<times> bool" where
  "api_del k m = (m(k := None), m k \<noteq> None)"

text \<open>\<open>db_incr\<close>: a missing key counts as 0; a value that is no base-10 integer makes it fail and stays as it is.\<close>

definition api_incr :: "string \<Rightarrow> api_store \<Rightarrow> api_store \<times> db_result" where
  "api_incr k m =
     (case m k of
        None \<Rightarrow> (m(k \<mapsto> (''1'', 0)), \<lparr>ok = True, res_value = Some ''1'', res_error = None\<rparr>)
      | Some (v, ex) \<Rightarrow>
          if is_number v = Inr True
          then (m(k \<mapsto> (int_str (atoi v + 1), ex)), \<lparr>ok = True, res_value = Some (int_str (atoi v + 1)), res_error = None\<rparr>)
          else (m, \<lparr>ok = False, res_value = None, res_error = Some not_integer_msg\<rparr>))"

fun api_op :: "op \<Rightarrow> api_store \<Rightarrow> api_store \<times> answer" where
  "api_op (OSet k v ex) m = (api_set k v ex m, ASet True)"
| "api_op (OGet k now) m = map_prod id AGet (api_get now k m)"
| "api_op (ODel k) m = map_prod id ADel (api_del k m)"
| "api_op (OIncr k) m = map_prod id AIncr (api_incr k m)"

lemma api_get_spec: "api_get now k m = spec_get now k m"
  by (simp add: api_get_def spec_get_def expired_at_def split: option.split)

section \<open>The functions of \<open>db.c\<close> keep it\<close>

lemma db_incr_keeps:
  assumes t: "table_ok t" and r: "db_incr all_ok k t = Inr (t', r)"
  shows "table_ok t' \<and> api_incr k (db_abs t) = (db_abs t', r)"
proof (cases "db_abs t k")
  case None
  obtain u where "db_incr all_ok k t = Inr (u, \<lparr>ok = True, res_value = Some ''1'', res_error = None\<rparr>)"
    "table_ok u" "db_abs u = (db_abs t)(k \<mapsto> (''1'', 0))" by (rule db_incr_missing [OF t None])
  with r None show ?thesis by (auto simp: api_incr_def)
next
  case (Some ve)
  obtain v ex where m: "db_abs t k = Some (v, ex)" using Some by (cases ve) auto
  obtain b where b: "is_number v = Inr b" using is_number_total by blast
  show ?thesis
  proof (cases b)
    case False
    with b have "is_number v = Inr False" by simp
    from db_incr_not_number [OF t m this] r t m b False show ?thesis by (auto simp: api_incr_def)
  next
    case True
    with b have num: "is_number v = Inr True" by simp
    show ?thesis
    proof (cases "atoi v = INT_MAX")
      case True
      from db_incr_overflow [OF t m num this] r show ?thesis by simp
    next
      case False
      obtain u where "db_incr all_ok k t = Inr (u, \<lparr>ok = True, res_value = Some (int_str (atoi v + 1)), res_error = None\<rparr>)"
        "table_ok u" "db_abs u = (db_abs t)(k \<mapsto> (int_str (atoi v + 1), ex))"
        by (rule db_incr_number [OF t m num False])
      with r m num show ?thesis by (auto simp: api_incr_def)
    qed
  qed
qed

lemma spec_op_keeps:
  assumes t: "table_ok t" and r: "spec_op all_ok x t = Inr (t', y)"
  shows "table_ok t' \<and> api_op x (db_abs t) = (db_abs t', y)"
proof (cases x)
  case (OSet k v ex)
  obtain u where "db_set_ex all_ok k v ex t = Inr (u, True)" "table_ok u" "db_abs u = (db_abs t)(k \<mapsto> (v, ex))"
    by (rule db_set_ex_refines [OF t set_ok_all_ok])
  with r OSet show ?thesis by (auto simp: api_set_def)
next
  case (OGet k now)
  obtain u where "db_get all_ok now k t = Inr (u, snd (spec_get now k (db_abs t)))" "table_ok u"
    "db_abs u = fst (spec_get now k (db_abs t))" by (rule db_get_cases [OF t]) auto
  with r OGet show ?thesis by (auto simp: api_get_spec intro: prod_eqI)
next
  case (ODel k)
  with r undef_refines [OF t, of k] show ?thesis by (auto simp: db_del_def api_del_def split_def Let_def)
next
  case (OIncr k)
  with r obtain z where "db_incr all_ok k t = Inr (t', z)" "y = AIncr z" by (auto simp: result_inv)
  with db_incr_keeps [OF t this(1)] OIncr show ?thesis by simp
qed

end
