(* ===== verification/Locked_Calls.thy ===== *)
theory Locked_Calls
  imports Step_System
begin

text \<open>
  Threads that call the operations of a shared structure behind one mutex. A call is a sequence of
  accesses to the shared state (\<open>lstep\<close>); a call whose operation \<open>locks\<close> holds the mutex from its first
  access to its answer, another does not ask for it. The locale \<open>locked_calls\<close> states what a structure
  promises about a call that runs alone, and shows that under the lock every interleaving of the
  threads gives the answers of one order of the calls.
\<close>

section \<open>The machine\<close>

record ('o, 'l, 'a, 'h, 'f) lock_machine =
  shared :: 'h
  owner :: "nat option"
  running :: "nat \<Rightarrow> 'l option"
  pending :: "nat \<Rightarrow> 'o list"
  replies :: "(nat \<times> 'o \<times> 'a) list"
  failed :: "'f option"

definition machine_start :: "'h \<Rightarrow> (nat \<Rightarrow> 'o list) \<Rightarrow> ('o, 'l, 'a, 'h, 'f) lock_machine" where
  "machine_start h progs =
     \<lparr>shared = h, owner = None, running = (\<lambda>_. None), pending = progs, replies = [], failed = None\<rparr>"

text \<open>One step of thread \<open>i\<close>: it starts a call (and takes the mutex), makes an access, or returns.\<close>

definition move ::
    "('o \<Rightarrow> bool) \<Rightarrow> ('o \<Rightarrow> 'l) \<Rightarrow> ('l \<Rightarrow> 'h \<Rightarrow> 'f + ('l \<times> 'h)) \<Rightarrow> ('l \<Rightarrow> 'a option) \<Rightarrow> nat \<Rightarrow>
     ('o, 'l, 'a, 'h, 'f) lock_machine \<Rightarrow> ('o, 'l, 'a, 'h, 'f) lock_machine option" where
  "move locks begin_call lstep answer_of i m =
     (if failed m \<noteq> None then None
      else
        case running m i of
          None \<Rightarrow>
            (case pending m i of
               [] \<Rightarrow> None
             | x # xs \<Rightarrow>
                 if locks x
                 then if owner m = None
                   then Some (m\<lparr>owner := Some i, running := (running m)(i \<mapsto> begin_call x)\<rparr>)
                   else None
                 else Some (m\<lparr>running := (running m)(i \<mapsto> begin_call x)\<rparr>))
        | Some l \<Rightarrow>
            (case answer_of l of
               Some a \<Rightarrow>
                 Some (m\<lparr>running := (running m)(i := None), pending := (pending m)(i := tl (pending m i)),
                         owner := (if owner m = Some i then None else owner m),
                         replies := replies m @ [(i, hd (pending m i), a)]\<rparr>)
             | None \<Rightarrow>
                 (case lstep l (shared m) of
                    Inl f \<Rightarrow> Some (m\<lparr>failed := Some f\<rparr>)
                  | Inr (l', h') \<Rightarrow> Some (m\<lparr>shared := h', running := (running m)(i \<mapsto> l')\<rparr>))))"

definition mstep ::
    "('o \<Rightarrow> bool) \<Rightarrow> ('o \<Rightarrow> 'l) \<Rightarrow> ('l \<Rightarrow> 'h \<Rightarrow> 'f + ('l \<times> 'h)) \<Rightarrow> ('l \<Rightarrow> 'a option) \<Rightarrow>
     ('o, 'l, 'a, 'h, 'f) lock_machine \<Rightarrow> ('o, 'l, 'a, 'h, 'f) lock_machine \<Rightarrow> bool" where
  "mstep locks begin_call lstep answer_of m m' \<longleftrightarrow> (\<exists>i. move locks begin_call lstep answer_of i m = Some m')"

text \<open>A schedule: the thread of each step.\<close>

fun run_schedule ::
    "('o \<Rightarrow> bool) \<Rightarrow> ('o \<Rightarrow> 'l) \<Rightarrow> ('l \<Rightarrow> 'h \<Rightarrow> 'f + ('l \<times> 'h)) \<Rightarrow> ('l \<Rightarrow> 'a option) \<Rightarrow> nat list \<Rightarrow>
     ('o, 'l, 'a, 'h, 'f) lock_machine \<Rightarrow> ('o, 'l, 'a, 'h, 'f) lock_machine option" where
  "run_schedule locks begin_call lstep answer_of [] m = Some m"
| "run_schedule locks begin_call lstep answer_of (i # is) m =
     Option.bind (move locks begin_call lstep answer_of i m) (run_schedule locks begin_call lstep answer_of is)"

lemma run_schedule_steps:
  "run_schedule locks begin_call lstep answer_of is m = Some m' \<Longrightarrow> steps (mstep locks begin_call lstep answer_of) m m'"
proof (induction "is" arbitrary: m)
  case Nil
  then show ?case by (simp add: steps.Refl)
next
  case (Cons i "is")
  then obtain m1 where m1: "move locks begin_call lstep answer_of i m = Some m1"
    "run_schedule locks begin_call lstep answer_of is m1 = Some m'" by (auto simp: bind_eq_Some_conv)
  then have "mstep locks begin_call lstep answer_of m m1" by (auto simp: mstep_def)
  from steps_trans [OF Cons.IH [OF m1(2)] steps_one [of "mstep locks begin_call lstep answer_of", OF this]] show ?case .
qed

text \<open>The calls one after the other, with the answers they gave.\<close>

fun replay :: "('o \<Rightarrow> 't \<Rightarrow> 'f + ('t \<times> 'a)) \<Rightarrow> (nat \<times> 'o \<times> 'a) list \<Rightarrow> 't \<Rightarrow> 't option" where
  "replay spec [] t = Some t"
| "replay spec ((i, x, a) # log) t =
     (case spec x t of
        Inl f \<Rightarrow> None
      | Inr (t', b) \<Rightarrow> if b = a then replay spec log t' else None)"

lemma replay_append: "replay spec (log @ log') t = Option.bind (replay spec log t) (replay spec log')"
  by (induction spec log t rule: replay.induct) (auto split: sum.splits)

text \<open>The answers are answers to calls the threads had to make.\<close>

definition calls_of :: "(nat \<Rightarrow> 'o list) \<Rightarrow> ('o, 'l, 'a, 'h, 'f) lock_machine \<Rightarrow> bool" where
  "calls_of progs m \<longleftrightarrow>
     (\<forall>i. set (pending m i) \<subseteq> set (progs i)) \<and> (\<forall>(i, x, a) \<in> set (replies m). x \<in> set (progs i)) \<and>
     (\<forall>i. running m i \<noteq> None \<longrightarrow> pending m i \<noteq> [])"

lemma calls_of_start: "calls_of progs (machine_start h progs)"
  by (simp add: calls_of_def machine_start_def)

lemma calls_of_step:
  assumes c: "calls_of progs m" and "mstep locks begin_call lstep answer_of m m'"
  shows "calls_of progs m'"
proof -
  from assms(2) obtain i where mv: "move locks begin_call lstep answer_of i m = Some m'" by (auto simp: mstep_def)
  show ?thesis
  proof (cases "running m i")
    case None
    with mv obtain x xs where "pending m i = x # xs" "pending m' = pending m" "replies m' = replies m"
        "running m' = (running m)(i \<mapsto> begin_call x)"
      by (auto simp: move_def split: if_splits list.splits)
    with c show ?thesis by (simp add: calls_of_def)
  next
    case (Some l)
    with c obtain x xs where x: "pending m i = x # xs" "x \<in> set (progs i)"
      by (cases "pending m i") (force simp: calls_of_def)+
    show ?thesis
    proof (cases "answer_of l")
      case (Some a)
      with mv x \<open>running m i = Some l\<close> have "m' = m\<lparr>running := (running m)(i := None), pending := (pending m)(i := xs),
          owner := (if owner m = Some i then None else owner m), replies := replies m @ [(i, x, a)]\<rparr>"
        by (simp add: move_def split: if_splits)
      then have "pending m' = (pending m)(i := xs)" "running m' = (running m)(i := None)" "replies m' = replies m @ [(i, x, a)]"
        by simp_all
      moreover have "set xs \<subseteq> set (progs i)" using c x by (auto simp: calls_of_def dest!: spec [of _ i])
      ultimately show ?thesis using c x by (auto simp: calls_of_def)
    next
      case None
      with mv \<open>running m i = Some l\<close> have "pending m' = pending m \<and> replies m' = replies m \<and>
          (running m' = running m \<or> (\<exists>l'. running m' = (running m)(i \<mapsto> l')))"
        by (cases "lstep l (shared m)") (auto simp: move_def split: if_splits)
      with c x show ?thesis by (auto simp: calls_of_def split: if_splits)
    qed
  qed
qed

interpretation calls: step_invariant "mstep locks begin_call lstep answer_of" "calls_of progs"
  for locks :: "'o \<Rightarrow> bool" and begin_call :: "'o \<Rightarrow> 'l" and lstep :: "'l \<Rightarrow> 'h \<Rightarrow> 'f + ('l \<times> 'h)" and answer_of :: "'l \<Rightarrow> 'a option" and progs :: "nat \<Rightarrow> 'o list"
  by unfold_locales (rule calls_of_step)

section \<open>The contract of a locked structure\<close>

text \<open>
  \<open>ends l h r\<close>: alone from \<open>l\<close> a call ends with \<open>r\<close>. The first three laws say that \<open>ends\<close> describes the runs
  of \<open>lstep\<close>, the last that a call on a state that represents \<open>t\<close> does what \<open>spec\<close> says.
\<close>

locale locked_calls =
  fixes begin_call :: "'o \<Rightarrow> 'l"
    and lstep :: "'l \<Rightarrow> 'h \<Rightarrow> 'f + ('l \<times> 'h)"
    and answer_of :: "'l \<Rightarrow> 'a option"
    and ends :: "'l \<Rightarrow> 'h \<Rightarrow> 'f + ('a \<times> 'h) \<Rightarrow> bool"
    and repr :: "'t \<Rightarrow> 'h \<Rightarrow> bool"
    and spec :: "'o \<Rightarrow> 't \<Rightarrow> 'f + ('t \<times> 'a)"
  assumes ends_answer: "ends l h r \<Longrightarrow> answer_of l = Some a \<Longrightarrow> r = Inr (a, h)"
    and ends_step: "ends l h r \<Longrightarrow> answer_of l = None \<Longrightarrow> lstep l h = Inr (l', h') \<Longrightarrow> ends l' h' r"
    and ends_fault: "ends l h r \<Longrightarrow> answer_of l = None \<Longrightarrow> lstep l h = Inl f \<Longrightarrow> r = Inl f"
    and begin_ends: "repr t h \<Longrightarrow> \<exists>r. ends (begin_call x) h r \<and>
      (case spec x t of
         Inl f \<Rightarrow> r = Inl f
       | Inr (t', a) \<Rightarrow> \<exists>h'. r = Inr (a, h') \<and> repr t' h')"
begin

text \<open>The holder of the mutex is inside a call whose end is known; nobody else is inside one.\<close>

definition serial :: "('o \<Rightarrow> bool) \<Rightarrow> 't \<Rightarrow> ('o, 'l, 'a, 'h, 'f) lock_machine \<Rightarrow> bool" where
  "serial locks t0 m \<longleftrightarrow>
     (\<forall>i. \<forall>x \<in> set (pending m i). locks x) \<and>
     (\<exists>t. replay spec (replies m) t0 = Some t \<and>
       (case owner m of
          None \<Rightarrow> (\<forall>i. running m i = None) \<and> repr t (shared m) \<and> failed m = None
        | Some i \<Rightarrow>
            (\<forall>j. j \<noteq> i \<longrightarrow> running m j = None) \<and>
            (\<exists>x xs l r. pending m i = x # xs \<and> running m i = Some l \<and> ends l (shared m) r \<and>
               (case spec x t of
                  Inl f \<Rightarrow> r = Inl f
                | Inr (t', a) \<Rightarrow> \<exists>h'. r = Inr (a, h') \<and> repr t' h') \<and>
               (\<forall>f. failed m = Some f \<longrightarrow> r = Inl f))))"

lemma serial_start: "repr t0 h \<Longrightarrow> \<forall>i. \<forall>x \<in> set (progs i). locks x \<Longrightarrow> serial locks t0 (machine_start h progs)"
  by (simp add: serial_def machine_start_def)

lemma serial_step:
  assumes s: "serial locks t0 m" and st: "mstep locks begin_call lstep answer_of m m'"
  shows "serial locks t0 m'"
proof -
  from st obtain i where mv: "move locks begin_call lstep answer_of i m = Some m'" by (auto simp: mstep_def)
  then have nf: "failed m = None" by (auto simp: move_def split: if_splits)
  obtain t where locks: "\<And>i x. x \<in> set (pending m i) \<Longrightarrow> locks x" and t: "replay spec (replies m) t0 = Some t"
    using s by (auto simp: serial_def)
  show ?thesis
  proof (cases "owner m")
    case None
    with s t have idle: "\<And>j. running m j = None" "repr t (shared m)" by (auto simp: serial_def)
    with mv nf obtain x xs where x: "pending m i = x # xs"
      by (auto simp: move_def split: list.splits)
    with locks [of x i] mv nf idle None have m': "m' = m\<lparr>owner := Some i, running := (running m)(i \<mapsto> begin_call x)\<rparr>"
      by (auto simp: move_def)
    obtain r where r: "ends (begin_call x) (shared m) r"
        "case spec x t of Inl f \<Rightarrow> r = Inl f | Inr (t', a) \<Rightarrow> \<exists>h'. r = Inr (a, h') \<and> repr t' h'"
      using begin_ends [OF idle(2), of x] by blast
    then show ?thesis using locks t x idle nf unfolding serial_def m' by auto
  next
    case (Some k)
    with s t obtain x xs l r where k: "pending m k = x # xs" "running m k = Some l" "ends l (shared m) r"
        "case spec x t of Inl f \<Rightarrow> r = Inl f | Inr (t', a) \<Rightarrow> \<exists>h'. r = Inr (a, h') \<and> repr t' h'"
      and others: "\<And>j. j \<noteq> k \<Longrightarrow> running m j = None"
      by (auto simp: serial_def)
    have ik: "i = k"
    proof (rule ccontr)
      assume "i \<noteq> k"
      with others have "running m i = None" by blast
      with mv nf Some obtain x xs where "pending m i = x # xs" "\<not> locks x"
        by (auto simp: move_def split: list.splits if_splits)
      with locks [of x i] show False by simp
    qed
    show ?thesis
    proof (cases "answer_of l")
      case ans: (Some a)
      have m': "m' = m\<lparr>running := (running m)(k := None), pending := (pending m)(k := xs), owner := None,
          replies := replies m @ [(k, x, a)]\<rparr>"
        using mv nf k ans Some by (simp add: move_def ik)
      have "r = Inr (a, shared m)" by (rule ends_answer [OF k(3) ans])
      with k(4) obtain t' where t': "spec x t = Inr (t', a)" "repr t' (shared m)"
        by (auto split: sum.splits)
      moreover have "replay spec (replies m') t0 = Some t'"
        using t t' by (simp add: m' replay_append)
      moreover have "locks y" if "y \<in> set (pending m' j)" for y j
        using that locks [of y j] locks [of y k] k(1) by (auto simp: m' split: if_splits)
      ultimately show ?thesis using others nf unfolding serial_def by (auto simp: m')
    next
      case None
      show ?thesis
      proof (cases "lstep l (shared m)")
        case (Inl f)
        then have m': "m' = m\<lparr>failed := Some f\<rparr>" using mv nf k None by (simp add: move_def ik)
        have "r = Inl f" by (rule ends_fault [OF k(3) None Inl])
        then show ?thesis using locks t k others Some unfolding serial_def m' by auto
      next
        case (Inr y)
        obtain l' h' where y: "y = (l', h')" by (cases y)
        then have m': "m' = m\<lparr>shared := h', running := (running m)(k \<mapsto> l')\<rparr>"
          using mv nf k None Inr by (simp add: move_def ik)
        have "ends l' h' r" using ends_step [OF k(3) None] Inr y by simp
        then show ?thesis using locks t k others nf Some unfolding serial_def m' by auto
      qed
    qed
  qed
qed

sublocale step_invariant "mstep locks begin_call lstep answer_of" "serial locks t0"
  by unfold_locales (rule serial_step)

text \<open>What the threads got are the answers of the calls in the order in which they held the mutex.\<close>

lemma locked_run:
  assumes "repr t0 h" and "\<forall>i. \<forall>x \<in> set (progs i). locks x"
    and "steps (mstep locks begin_call lstep answer_of) (machine_start h progs) m"
  shows "\<exists>t. replay spec (replies m) t0 = Some t \<and>
    (owner m = None \<longrightarrow> repr t (shared m) \<and> failed m = None) \<and>
    (\<forall>f. failed m = Some f \<longrightarrow> (\<exists>i x xs. owner m = Some i \<and> pending m i = x # xs \<and> spec x t = Inl f))"
proof -
  have "serial locks t0 m" by (rule inv_steps [OF assms(3) serial_start [OF assms(1,2)]])
  then obtain t where t: "replay spec (replies m) t0 = Some t" and
    o: "case owner m of
          None \<Rightarrow> (\<forall>i. running m i = None) \<and> repr t (shared m) \<and> failed m = None
        | Some i \<Rightarrow> (\<forall>j. j \<noteq> i \<longrightarrow> running m j = None) \<and>
            (\<exists>x xs l r. pending m i = x # xs \<and> running m i = Some l \<and> ends l (shared m) r \<and>
               (case spec x t of
                  Inl f \<Rightarrow> r = Inl f
                | Inr (t', a) \<Rightarrow> \<exists>h'. r = Inr (a, h') \<and> repr t' h') \<and>
               (\<forall>f. failed m = Some f \<longrightarrow> r = Inl f))"
    by (auto simp: serial_def)
  have "repr t (shared m) \<and> failed m = None" if "owner m = None" using o that by simp
  moreover have "\<exists>i x xs. owner m = Some i \<and> pending m i = x # xs \<and> spec x t = Inl f" if "failed m = Some f" for f
  proof (cases "owner m")
    case None
    with o that show ?thesis by simp
  next
    case (Some i)
    with o that obtain x xs where "pending m i = x # xs"
      "case spec x t of Inl g \<Rightarrow> Inl f = (Inl g :: 'f + ('a \<times> 'h)) | Inr (t', a) \<Rightarrow> \<exists>h'. Inl f = Inr (a, h') \<and> repr t' h'"
      by auto
    with Some show ?thesis by (cases "spec x t") auto
  qed
  ultimately show ?thesis using t by (intro exI [of _ t]) simp
qed

text \<open>The mutex never blocks every thread that still has calls to make.\<close>

lemma locked_not_blocked:
  assumes "serial locks t0 m" and "failed m = None" and "pending m i \<noteq> []"
  shows "\<exists>m'. mstep locks begin_call lstep answer_of m m'"
proof (cases "owner m")
  case None
  with assms have "running m i = None" "\<And>x. x \<in> set (pending m i) \<Longrightarrow> locks x" by (auto simp: serial_def)
  with None assms(2,3) have "\<exists>m'. move locks begin_call lstep answer_of i m = Some m'"
    by (cases "pending m i") (auto simp: move_def)
  then show ?thesis by (auto simp: mstep_def)
next
  case (Some k)
  with assms obtain l where "running m k = Some l" by (auto simp: serial_def)
  with assms(2) have "\<exists>m'. move locks begin_call lstep answer_of k m = Some m'"
    by (auto simp: move_def split: option.splits sum.splits)
  then show ?thesis by (auto simp: mstep_def)
qed

end

end
