(* ===== verification/Redis_Locks.thy ===== *)
theory Redis_Locks
  imports Redis_API Locked_Calls
begin

text \<open>
  The threads of the Redis clone on its store: calls of \<open>src/db.c\<close> on the shared heap, access by access,
  with \<open>db_lock\<close>. \<open>db_set\<close>, \<open>db_set_ex\<close>, \<open>db_get\<close> and \<open>db_incr\<close> hold the mutex from their first access to
  their last; \<open>db_del\<close> does not take it. A call carries the outcomes of its allocations.
\<close>

section \<open>The calls and the lock\<close>

type_synonym job = "alloc \<times> op"

type_synonym store_machine = "(job, alloc \<times> pc, answer, heap, cfault) lock_machine"

text \<open>Which functions of \<open>db.c\<close> contain \<open>pthread_mutex_lock(&db_lock)\<close>.\<close>

fun takes_lock :: "job \<Rightarrow> bool" where
  "takes_lock (al, ODel k) = False"
| "takes_lock (al, OSet k v ex) = True"
| "takes_lock (al, OGet k now) = True"
| "takes_lock (al, OIncr k) = True"

definition begin_job :: "job \<Rightarrow> alloc \<times> pc" where
  "begin_job j = (fst j, begin_op (snd j))"

definition job_step :: "alloc \<times> pc \<Rightarrow> heap \<Rightarrow> ((alloc \<times> pc) \<times> heap) result" where
  "job_step l h = ebind (heap_step (fst l) (snd l) h) (\<lambda>(p, h'). Inr ((fst l, p), h'))"

fun answer_of :: "alloc \<times> pc \<Rightarrow> answer option" where
  "answer_of (al, Finish x) = Some x"
| "answer_of (al, p) = None"

abbreviation store_step :: "(job \<Rightarrow> bool) \<Rightarrow> store_machine \<Rightarrow> store_machine \<Rightarrow> bool" where
  "store_step locks \<equiv> mstep locks begin_job job_step answer_of"

abbreviation store_schedule :: "(job \<Rightarrow> bool) \<Rightarrow> nat list \<Rightarrow> store_machine \<Rightarrow> store_machine option" where
  "store_schedule locks \<equiv> run_schedule locks begin_job job_step answer_of"

definition run_job :: "job \<Rightarrow> table \<Rightarrow> (table \<times> answer) result" where
  "run_job j = spec_op (fst j) (snd j)"

definition some_table :: "table \<Rightarrow> heap \<Rightarrow> bool" where
  "some_table t h \<longleftrightarrow> (\<exists>L. represents L t h)"

lemma answer_of_Some: "answer_of l = Some x \<longleftrightarrow> snd l = Finish x"
  by (cases l rule: answer_of.cases) auto

lemma answer_of_None: "answer_of l = None \<longleftrightarrow> (\<forall>x. snd l \<noteq> Finish x)"
  by (cases l rule: answer_of.cases) auto

section \<open>The store keeps the contract of a locked structure\<close>

interpretation store: locked_calls begin_job job_step answer_of "\<lambda>l. call (fst l) (snd l)" some_table run_job
proof unfold_locales
  show "r = Inr (x, h)" if "call (fst l) (snd l) h r" "answer_of l = Some x" for l h r x
    using that by (simp add: answer_of_Some)
  show "call (fst l') (snd l') h' r"
    if "call (fst l) (snd l) h r" "answer_of l = None" "job_step l h = Inr (l', h')" for l h r l' h'
    using that call_step [OF that(1)] by (auto simp: job_step_def answer_of_None result_inv)
  show "r = Inl f" if "call (fst l) (snd l) h r" "answer_of l = None" "job_step l h = Inl f" for l h r f
    using that call_fault [OF that(1)] by (auto simp: job_step_def ebind_eq_Inl)
  show "\<exists>r. call (fst (begin_job j)) (snd (begin_job j)) h r \<and>
      (case run_job j t of
         Inl f \<Rightarrow> r = Inl f
       | Inr (t', x) \<Rightarrow> \<exists>h'. r = Inr (x, h') \<and> some_table t' h')"
    if t: "some_table t h" for t h j
  proof -
    obtain L where L: "represents L t h" using t by (auto simp: some_table_def)
    obtain r where r: "call (fst j) (begin_op (snd j)) h r"
      "agrees (if leaks (fst j) (snd j) t then insert (fresh h) L else L) (spec_op (fst j) (snd j) t) r"
      using call_refines [OF L] by blast
    show ?thesis
      by (rule exI [of _ r]) (use r in \<open>auto simp: begin_job_def run_job_def agrees_def some_table_def split: sum.splits\<close>)
  qed
qed

lemma some_table_empty [simp]: "some_table empty_table empty_heap"
  unfolding some_table_def by (rule exI [of _ "{}"]) simp

lemma store_serial:
  assumes "steps (store_step locks) (machine_start empty_heap progs) m"
    and "\<forall>i. \<forall>j \<in> set (progs i). locks j"
  shows "\<exists>t. replay run_job (replies m) empty_table = Some t \<and>
    (owner m = None \<longrightarrow> some_table t (shared m) \<and> failed m = None) \<and>
    (\<forall>f. failed m = Some f \<longrightarrow>
       f \<noteq> Dangling \<and> (\<exists>i j js. owner m = Some i \<and> pending m i = j # js \<and> run_job j t = Inl f))"
proof -
  obtain t where t: "replay run_job (replies m) empty_table = Some t" "owner m = None \<longrightarrow> some_table t (shared m) \<and> failed m = None"
    "\<forall>f. failed m = Some f \<longrightarrow> (\<exists>i j js. owner m = Some i \<and> pending m i = j # js \<and> run_job j t = Inl f)"
    using store.locked_run [OF some_table_empty assms(2,1)] by metis
  have "f \<noteq> Dangling" if "failed m = Some f" for f
    using t(3) that spec_op_not_dangling by (auto simp: run_job_def)
  with t show ?thesis by (intro exI [of _ t]) simp
qed

text \<open>C6: Under the lock every interleaving of the threads is one of their calls in some order: whatever
  the accesses of the threads look like in time, the answers given so far are those of the functions
  of \<open>db.c\<close> on the table, one call after the other in the order in which they held \<open>db_lock\<close>; when nobody holds it the
  heap is a heap of the table those calls leave; and a thread that dies in an access is in a call
  that dies alone too, never by using a freed block.
\<close>

theorem locked_store_serial:
  assumes "steps (store_step takes_lock) (machine_start empty_heap progs) m"
    and "\<forall>i. \<forall>j \<in> set (progs i). takes_lock j"
  shows "\<exists>t. replay run_job (replies m) empty_table = Some t \<and>
    (owner m = None \<longrightarrow> some_table t (shared m) \<and> failed m = None) \<and>
    (\<forall>f. failed m = Some f \<longrightarrow>
       f \<noteq> Dangling \<and> (\<exists>i j js. owner m = Some i \<and> pending m i = j # js \<and> run_job j t = Inl f))"
  by (rule store_serial [OF assms])

section \<open>The documented store, shared\<close>

definition api_job :: "job \<Rightarrow> api_store \<Rightarrow> (api_store \<times> answer) result" where
  "api_job j m = Inr (api_op (snd j) m)"

lemma replay_api:
  "replay run_job log t = Some u \<Longrightarrow> table_ok t \<Longrightarrow> \<forall>(i, j, x) \<in> set log. fst j = all_ok \<Longrightarrow>
   replay api_job log (db_abs t) = Some (db_abs u) \<and> table_ok u"
proof (induction log arbitrary: t)
  case Nil
  then show ?case by simp
next
  case (Cons e log)
  obtain i al x y where e: "e = (i, (al, x), y)" by (cases e) auto
  with Cons.prems obtain t1 where t1: "spec_op all_ok x t = Inr (t1, y)" "replay run_job log t1 = Some u"
    by (auto simp: run_job_def [of "(al, x)"] split: sum.splits if_splits)
  from spec_op_keeps [OF Cons.prems(2) t1(1)] have "table_ok t1" "api_op x (db_abs t) = (db_abs t1, y)" by auto
  with Cons.IH [OF t1(2)] Cons.prems(3) e show ?case by (simp add: api_job_def)
qed


text \<open>Two clients: one stores a key and reads it, the other counts it up.\<close>

definition locked_programs :: "nat \<Rightarrow> job list" where
  "locked_programs i =
     (if i = 0 then [(all_ok, OSet ''n'' ''6'' 0), (all_ok, OGet ''n'' 9)]
      else if i = 1 then [(all_ok, OIncr ''n'')]
      else [])"

definition incr_between :: "nat list" where
  "incr_between = replicate 10 0 @ replicate 12 1 @ replicate 6 0"

text \<open>What an observer sees of a run: who got which answer, and the fault.\<close>

definition observed :: "store_machine option \<Rightarrow> ((nat \<times> answer) list \<times> cfault option) option" where
  "observed m = map_option (\<lambda>m. (map (\<lambda>(i, x, a). (i, a)) (replies m), failed m)) m"

lemma incr_between_observed:
  "observed (store_schedule takes_lock incr_between (machine_start empty_heap locked_programs)) =
     Some ([(0, ASet True), (1, AIncr \<lparr>ok = True, res_value = Some ''7'', res_error = None\<rparr>), (0, AGet (Some ''7''))], None)"
  by code_simp

lemma locked_store_serial_witness:
  "\<exists>m t. steps (store_step takes_lock) (machine_start empty_heap locked_programs) m \<and>
     map (\<lambda>(i, x, a). (i, a)) (replies m) =
       [(0, ASet True), (1, AIncr \<lparr>ok = True, res_value = Some ''7'', res_error = None\<rparr>), (0, AGet (Some ''7''))] \<and>
     replay run_job (replies m) empty_table = Some t"
proof -
  obtain m where m: "store_schedule takes_lock incr_between (machine_start empty_heap locked_programs) = Some m"
    "map (\<lambda>(i, x, a). (i, a)) (replies m) =
       [(0, ASet True), (1, AIncr \<lparr>ok = True, res_value = Some ''7'', res_error = None\<rparr>), (0, AGet (Some ''7''))]"
    using incr_between_observed by (auto simp: observed_def)
  have st: "steps (store_step takes_lock) (machine_start empty_heap locked_programs) m"
    by (rule run_schedule_steps [OF m(1)])
  have "\<forall>i. \<forall>j \<in> set (locked_programs i). takes_lock j" by (simp add: locked_programs_def)
  from locked_store_serial [OF st this] obtain t where "replay run_job (replies m) empty_table = Some t" by metis
  with st m(2) show ?thesis by metis
qed


section \<open>The call without the lock\<close>

text \<open>A client stores a key and reads it while another deletes it.\<close>

definition del_programs :: "nat \<Rightarrow> job list" where
  "del_programs i =
     (if i = 0 then [(all_ok, OSet ''n'' ''6'' 0), (all_ok, OGet ''n'' 9)]
      else if i = 1 then [(all_ok, ODel ''n'')]
      else [])"

definition del_during_get :: "nat list" where
  "del_during_get = replicate 12 0 @ replicate 5 1 @ [0]"

lemma del_during_get_observed:
  "observed (store_schedule takes_lock del_during_get (machine_start empty_heap del_programs)) =
     Some ([(0, ASet True)], Some Dangling)"
  by code_simp

text \<open>C33: \<open>db_del\<close> is the one function of \<open>db.c\<close> that changes the table without \<open>db_lock\<close>: a deletion that falls
  between two accesses of a read makes the read use a freed block. With the lock around it as around the others no
  interleaving of the same calls does.
\<close>

theorem unlocked_delete_unsafe:
  "(\<exists>m. steps (store_step takes_lock) (machine_start empty_heap del_programs) m \<and> failed m = Some Dangling) \<and>
   \<not> (\<exists>m. steps (store_step (\<lambda>_. True)) (machine_start empty_heap del_programs) m \<and> failed m = Some Dangling)"
proof
  obtain m where "store_schedule takes_lock del_during_get (machine_start empty_heap del_programs) = Some m" "failed m = Some Dangling"
    using del_during_get_observed by (auto simp: observed_def)
  then show "\<exists>m. steps (store_step takes_lock) (machine_start empty_heap del_programs) m \<and> failed m = Some Dangling"
    using run_schedule_steps by blast
  show "\<not> (\<exists>m. steps (store_step (\<lambda>_. True)) (machine_start empty_heap del_programs) m \<and> failed m = Some Dangling)"
    using store_serial [of "\<lambda>_. True" del_programs] by auto
qed

text \<open>A thread with calls to make is never stopped for good by the lock.\<close>

lemma locked_store_progress:
  assumes "steps (store_step takes_lock) (machine_start empty_heap progs) m"
    and "\<forall>i. \<forall>j \<in> set (progs i). takes_lock j" and "failed m = None" and "pending m i \<noteq> []"
  shows "\<exists>m'. store_step takes_lock m m'"
  using store.locked_not_blocked [OF store.inv_steps [OF assms(1) store.serial_start [OF some_table_empty assms(2)]] assms(3,4)] .

end
