(* ===== verification/Load_Balancer.thy ===== *)
theory Load_Balancer
  imports CLib
begin

text \<open>
  The load balancer, \<open>5. load balancer/theories/lessons/lb.c\<close>, with the backend it is tested against
  (\<open>lessons/backend.c\<close>) and the earlier round-robin pickers of the lessons.

  \<open>lb\<close> is the shared state (the static variables), \<open>pick_healthy\<close> and one store of \<open>health_loop\<close> are its
  two atomic steps (both hold the lock), and \<open>lb_reachable\<close> the states any interleaving of workers and
  the health thread can reach. The network is a parameter: \<open>dial\<close> gives the peer, if there is one, as the
  function from the bytes it is sent to what the successive reads from it return; \<open>ws i\<close> is the result of
  the \<open>i\<close>-th \<open>send\<close>. The request line is parsed for the log only and does not influence anything.
\<close>

section \<open>State\<close>

definition MAX_BACKENDS :: nat where "MAX_BACKENDS = 64"

record backend =
  host :: string
  port :: int
  healthy :: bool

record lb =
  backends :: "backend list"
  rr :: nat
  health_path :: string
  health_period :: int

definition initial :: lb where
  "initial = \<lparr>backends = [], rr = 0, health_path = ''/health'', health_period = 10\<rparr>"

type_synonym peer = "mem \<Rightarrow> mem list"
type_synonym network = "string \<Rightarrow> int \<Rightarrow> peer option"

section \<open>Relaying bytes\<close>

text \<open>The bytes sent, the number of calls of \<open>send\<close> made, and whether all of the buffer was sent.\<close>

function send_all :: "(nat \<Rightarrow> int) \<Rightarrow> nat \<Rightarrow> mem \<Rightarrow> mem \<times> nat \<times> bool" where
  "send_all ws i buf =
     (if buf = [] then ([], i, True)
      else if ws i \<le> 0 then ([], i + 1, False)
      else let n = nat (ws i); (out, j, done) = send_all ws (i + 1) (drop n buf)
           in (take n buf @ out, j, done))"
  by pat_completeness auto
termination
  by (relation "measure (\<lambda>(ws, i, buf). length buf)") auto

declare send_all.simps [simp del]

fun pipe_until_eof :: "(nat \<Rightarrow> int) \<Rightarrow> nat \<Rightarrow> mem list \<Rightarrow> mem" where
  "pipe_until_eof ws i [] = []"
| "pipe_until_eof ws i (chunk # chunks) =
     (if chunk = [] then []
      else let (out, j, done) = send_all ws i chunk
           in if done then out @ pipe_until_eof ws j chunks else out)"

definition msg_502 :: string where
  "msg_502 = ''HTTP/1.1 502 Bad Gateway'' @ [CR, LF] @ ''Content-Length: 16'' @ [CR, LF] @
     ''Connection: close'' @ [CR, LF, CR, LF] @ ''502 Bad Gateway'' @ [LF]"

text \<open>One call of \<open>send\<close>, whose result the code does not look at.\<close>

definition send_502 :: "(nat \<Rightarrow> int) \<Rightarrow> mem" where
  "send_502 ws = take (nat (ws 0)) msg_502"

section \<open>Health checks\<close>

definition health_request :: "string \<Rightarrow> string \<Rightarrow> string" where
  "health_request path h =
     ''GET '' @ path @ '' HTTP/1.1'' @ [CR, LF] @ ''Host: '' @ h @ [CR, LF] @ ''Connection: close'' @ [CR, LF, CR, LF]"

definition check_health :: "network \<Rightarrow> string \<Rightarrow> backend \<Rightarrow> bool" where
  "check_health dial path b =
     (case dial (host b) (port b) of
        None \<Rightarrow> False
      | Some peer \<Rightarrow>
          (case peer (snprintf 512 (health_request path (host b))) of
             [] \<Rightarrow> False
           | chunk # _ \<Rightarrow> chunk \<noteq> [] \<and> strstr (cstr (take 255 chunk)) '' 200 '' \<noteq> None))"

definition set_health :: "nat \<Rightarrow> bool \<Rightarrow> lb \<Rightarrow> lb" where
  "set_health i up s = s\<lparr>backends := (backends s)[i := (backends s ! i)\<lparr>healthy := up\<rparr>]\<rparr>"

text \<open>One round of the health thread, when nothing else happens in between.\<close>

definition health_round :: "network \<Rightarrow> lb \<Rightarrow> lb" where
  "health_round dial s =
     foldl (\<lambda>s i. set_health i (check_health dial (health_path s) (backends s ! i)) s) s [0..<length (backends s)]"

section \<open>Picking a backend\<close>

fun pick_loop :: "nat \<Rightarrow> lb \<Rightarrow> nat option \<times> lb" where
  "pick_loop 0 s = (None, s)"
| "pick_loop (Suc t) s =
     (let c = rr s; s' = s\<lparr>rr := (rr s + 1) mod length (backends s)\<rparr> in
      if healthy (backends s ! c) then (Some c, s') else pick_loop t s')"

definition pick_healthy :: "lb \<Rightarrow> nat option \<times> lb" where
  "pick_healthy s = pick_loop (length (backends s)) s"

text \<open>The pickers of the earlier lessons, which know no health (\<open>n\<close> backends, cursor \<open>i\<close>).\<close>

definition next_backend :: "nat \<Rightarrow> nat \<Rightarrow> nat \<times> nat" where
  "next_backend n i = (let chosen = i in (chosen, (i + 1) mod n))"

definition next_backend_5 :: "nat \<Rightarrow> nat \<Rightarrow> nat \<times> nat" where
  "next_backend_5 n i = (let chosen = i; i = i + 1; i = i mod n in (chosen, i))"

section \<open>A client connection\<close>

record outcome =
  to_client :: mem
  to_backend :: "(nat \<times> mem) option"

text \<open>\<open>req\<close> is what the only read of the request returned; \<open>wb\<close> and \<open>wc\<close> are the results of the sends to
  the backend and to the client.\<close>

definition handle :: "network \<Rightarrow> (nat \<Rightarrow> int) \<Rightarrow> (nat \<Rightarrow> int) \<Rightarrow> mem \<Rightarrow> lb \<Rightarrow> outcome \<times> lb" where
  "handle dial wb wc req s =
     (if req = [] then (\<lparr>to_client = [], to_backend = None\<rparr>, s)
      else
        let (idx, s') = pick_healthy s in
        case idx of
          None \<Rightarrow> (\<lparr>to_client = send_502 wc, to_backend = None\<rparr>, s')
        | Some c \<Rightarrow>
            (case dial (host (backends s ! c)) (port (backends s ! c)) of
               None \<Rightarrow> (\<lparr>to_client = send_502 wc, to_backend = None\<rparr>, s')
             | Some peer \<Rightarrow>
                 let (sent, _, done) = send_all wb 0 (take 8191 req) in
                 (\<lparr>to_client = (if done then pipe_until_eof wc 0 (peer sent) else []),
                   to_backend = Some (c, sent)\<rparr>, s')))"

section \<open>Configuration\<close>

text \<open>The part before the last colon and the part behind it (\<open>strrchr\<close>).\<close>

definition split_colon :: "string \<Rightarrow> (string \<times> string) option" where
  "split_colon s =
     (if CHR '':'' \<notin> set s then None
      else Some (rev (tl (dropWhile (\<lambda>c. c \<noteq> CHR '':'') (rev s))), rev (takeWhile (\<lambda>c. c \<noteq> CHR '':'') (rev s))))"

definition add_backend :: "string \<Rightarrow> lb \<Rightarrow> lb" where
  "add_backend hostport s =
     (if length (backends s) \<ge> MAX_BACKENDS then s
      else case split_colon hostport of
             None \<Rightarrow> s
           | Some (h, p) \<Rightarrow>
               s\<lparr>backends := backends s @ [\<lparr>host = take 63 h, port = atoi p, healthy = True\<rparr>]\<rparr>)"

text \<open>The options as \<open>getopt\<close> delivers them; \<open>None\<close>: usage error or no backend.\<close>

fun parse_opts :: "(char \<times> string) list \<Rightarrow> int \<times> lb \<Rightarrow> (int \<times> lb) option" where
  "parse_opts [] (p, s) = Some (p, s)"
| "parse_opts ((opt, optarg) # os) (p, s) =
     (if opt = CHR ''p'' then parse_opts os (atoi optarg, s)
      else if opt = CHR ''b'' then parse_opts os (p, add_backend optarg s)
      else if opt = CHR ''h'' then parse_opts os (p, s\<lparr>health_path := snprintf 256 optarg\<rparr>)
      else if opt = CHR ''t'' then parse_opts os (p, s\<lparr>health_period := atoi optarg\<rparr>)
      else None)"

definition lb_config :: "(char \<times> string) list \<Rightarrow> (int \<times> lb) option" where
  "lb_config os =
     (case parse_opts os (8080, initial) of
        None \<Rightarrow> None
      | Some (p, s) \<Rightarrow> if backends s = [] then None else Some (p, s))"

section \<open>The backend program\<close>

definition request_path :: "string \<Rightarrow> string" where
  "request_path s = fst (scan_word 1023 (snd (scan_word 15 s)))"

definition ok_response :: "string \<Rightarrow> string" where
  "ok_response body =
     ''HTTP/1.1 200 OK'' @ [CR, LF] @ ''Content-Type: text/plain'' @ [CR, LF] @
     ''Content-Length: '' @ nat_str (length body) @ [CR, LF] @ ''Connection: close'' @ [CR, LF, CR, LF] @ body"

definition backend_handle :: "string \<Rightarrow> peer" where
  "backend_handle g_name req =
     (if req = [] then []
      else
        let path = request_path (cstr (take 2047 req));
            body = (if path = ''/health'' then snprintf 1100 ''OK'' else snprintf 1100 g_name)
        in [snprintf 1400 (ok_response body)])"

section \<open>Interleavings\<close>

inductive lb_step :: "lb \<Rightarrow> lb \<Rightarrow> bool" where
  Pick: "pick_healthy s = (c, s') \<Longrightarrow> lb_step s s'"
| Check: "i < length (backends s) \<Longrightarrow> lb_step s (set_health i up s)"

abbreviation lb_reachable :: "lb \<Rightarrow> lb \<Rightarrow> bool" where
  "lb_reachable \<equiv> steps lb_step"

inductive_cases lb_stepE: "lb_step s t"

definition lb_inv :: "lb \<Rightarrow> bool" where
  "lb_inv s \<longleftrightarrow> backends s \<noteq> [] \<and> length (backends s) \<le> MAX_BACKENDS \<and> rr s < length (backends s) \<and>
     (\<forall>b \<in> set (backends s). length (host b) \<le> 63) \<and> length (health_path s) \<le> 255"

section \<open>The picker\<close>

lemma pick_loop_spec:
  assumes "backends s \<noteq> []" and "rr s < length (backends s)"
  shows "case pick_loop t s of
      (None, s') \<Rightarrow> (\<forall>d < t. \<not> healthy (backends s ! ((rr s + d) mod length (backends s)))) \<and>
        s' = s\<lparr>rr := (rr s + t) mod length (backends s)\<rparr>
    | (Some c, s') \<Rightarrow> (\<exists>d < t. c = (rr s + d) mod length (backends s) \<and> healthy (backends s ! c) \<and>
        (\<forall>e < d. \<not> healthy (backends s ! ((rr s + e) mod length (backends s)))) \<and>
        s' = s\<lparr>rr := (c + 1) mod length (backends s)\<rparr>)"
  using assms
proof (induction t arbitrary: s)
  case 0
  then show ?case by simp
next
  case (Suc t)
  let ?n = "length (backends s)"
  let ?s = "s\<lparr>rr := (rr s + 1) mod ?n\<rparr>"
  have r: "rr s mod ?n = rr s" using Suc.prems by simp
  show ?case
  proof (cases "healthy (backends s ! rr s)")
    case True
    then show ?thesis using r by (auto simp: Let_def intro!: exI [of _ 0])
  next
    case False
    then have p: "pick_loop (Suc t) s = pick_loop t ?s" by (simp add: Let_def)
    have sh: "((rr s + 1) mod ?n + d) mod ?n = (rr s + Suc d) mod ?n" for d by (simp add: mod_simps)
    have z: "\<not> healthy (backends s ! ((rr s + 0) mod ?n))" using False r by simp
    show ?thesis
    proof (cases "pick_loop t ?s")
      case (Pair o' s')
      then show ?thesis
      proof (cases o')
        case None
        then have "\<forall>d < t. \<not> healthy (backends s ! ((rr s + Suc d) mod ?n))" "s' = s\<lparr>rr := (rr s + Suc t) mod ?n\<rparr>"
          using Suc.IH [of ?s] Suc.prems sh Pair by simp_all
        then show ?thesis using None Pair p z by (auto simp: less_Suc_eq_0_disj)
      next
        case (Some c)
        then obtain d where d: "d < t" "c = (rr s + Suc d) mod ?n" "healthy (backends s ! c)"
          "\<forall>e < d. \<not> healthy (backends s ! ((rr s + Suc e) mod ?n))" "s' = s\<lparr>rr := (c + 1) mod ?n\<rparr>"
          using Suc.IH [of ?s] Suc.prems sh Pair by auto
        then have "\<forall>e < Suc d. \<not> healthy (backends s ! ((rr s + e) mod ?n))"
          using z by (auto simp: less_Suc_eq_0_disj)
        then show ?thesis using d Pair Some p by (auto intro!: exI [of _ "Suc d"])
      qed
    qed
  qed
qed

lemma pick_healthy_None:
  assumes "backends s \<noteq> []" and "rr s < length (backends s)" and "pick_healthy s = (None, s')"
  shows "s' = s \<and> (\<forall>b \<in> set (backends s). \<not> healthy b)"
proof -
  let ?n = "length (backends s)"
  have *: "\<forall>d < ?n. \<not> healthy (backends s ! ((rr s + d) mod ?n))" "s' = s\<lparr>rr := (rr s + ?n) mod ?n\<rparr>"
    using pick_loop_spec [OF assms(1,2), of ?n] assms(3) by (auto simp: pick_healthy_def)
  have "\<not> healthy (backends s ! i)" if i: "i < ?n" for i
  proof -
    let ?d = "(i + ?n - rr s) mod ?n"
    have "(rr s + ?d) mod ?n = (rr s + (i + ?n - rr s)) mod ?n" by (simp add: mod_simps)
    also have "\<dots> = i" using assms(2) i by simp
    finally show ?thesis using * assms(2) by (metis mod_less_divisor not_less_zero neq0_conv i)
  qed
  moreover have "s' = s" using *(2) assms(2) by simp
  ultimately show ?thesis by (auto simp: in_set_conv_nth)
qed

lemma pick_healthy_Some:
  assumes "backends s \<noteq> []" and "rr s < length (backends s)" and "pick_healthy s = (Some c, s')"
  obtains d where "d < length (backends s)" "c = (rr s + d) mod length (backends s)" "healthy (backends s ! c)"
    "\<forall>e < d. \<not> healthy (backends s ! ((rr s + e) mod length (backends s)))"
    "s' = s\<lparr>rr := (c + 1) mod length (backends s)\<rparr>"
  using pick_loop_spec [OF assms(1,2), of "length (backends s)"] assms(3) that by (auto simp: pick_healthy_def)

section \<open>The invariant\<close>

lemma lb_inv_step: "lb_inv s \<Longrightarrow> lb_step s t \<Longrightarrow> lb_inv t"
proof (erule lb_stepE)
  fix c assume inv: "lb_inv s" and p: "pick_healthy s = (c, t)"
  have s: "backends s \<noteq> []" "rr s < length (backends s)" using inv by (auto simp: lb_inv_def)
  show "lb_inv t"
  proof (cases c)
    case None
    then show ?thesis using pick_healthy_None [OF s] p inv by blast
  next
    case (Some k)
    obtain d where "t = s\<lparr>rr := (k + 1) mod length (backends s)\<rparr>"
      by (rule pick_healthy_Some [OF s, of k t]) (use p Some in simp_all)
    then show ?thesis using inv s by (simp add: lb_inv_def)
  qed
next
  fix i up assume "lb_inv s" "t = set_health i up s" "i < length (backends s)"
  then show "lb_inv t"
    by (auto simp: lb_inv_def set_health_def all_set_conv_all_nth nth_list_update)
qed

lemma add_backend_inv:
  "length (backends s) \<le> MAX_BACKENDS \<and> rr s = 0 \<and> (\<forall>b \<in> set (backends s). length (host b) \<le> 63) \<and> length (health_path s) \<le> 255 \<Longrightarrow>
   length (backends (add_backend h s)) \<le> MAX_BACKENDS \<and> rr (add_backend h s) = 0 \<and>
   (\<forall>b \<in> set (backends (add_backend h s)). length (host b) \<le> 63) \<and> length (health_path (add_backend h s)) \<le> 255"
  by (auto simp: add_backend_def split: option.splits)

lemma parse_opts_inv:
  assumes "parse_opts os (p, s) = Some (p', s')"
    and "length (backends s) \<le> MAX_BACKENDS \<and> rr s = 0 \<and> (\<forall>b \<in> set (backends s). length (host b) \<le> 63) \<and> length (health_path s) \<le> 255"
  shows "length (backends s') \<le> MAX_BACKENDS \<and> rr s' = 0 \<and> (\<forall>b \<in> set (backends s'). length (host b) \<le> 63) \<and> length (health_path s') \<le> 255"
  using assms
proof (induction os "(p, s)" arbitrary: p s rule: parse_opts.induct)
  case (2 opt optarg os p s)
  then show ?case
    by (auto simp: snprintf_def add_backend_inv split: if_splits)
qed simp

lemma lb_config_inv: "lb_config os = Some (p, s) \<Longrightarrow> lb_inv s"
proof -
  assume "lb_config os = Some (p, s)"
  then have o: "parse_opts os (8080, initial) = Some (p, s)" and ne: "backends s \<noteq> []"
    by (auto simp: lb_config_def split: option.splits if_splits)
  from parse_opts_inv [OF o] ne show ?thesis by (simp add: initial_def lb_inv_def)
qed

interpretation lb: step_invariant lb_step lb_inv
  by unfold_locales (rule lb_inv_step)

section \<open>Properties\<close>

text \<open>C16: In every state that any interleaving of client workers and health checks can reach from an
  accepted command line, picking a backend stays inside the array and finds a healthy one whenever
  there is one: the first from the cursor on, behind which the cursor is then set. When there is none
  nothing changes.\<close>

theorem lb_pick_sound:
  assumes "lb_config os = Some (p, s0)" and "lb_reachable s0 s"
  shows "case pick_healthy s of
      (None, s') \<Rightarrow> s' = s \<and> (\<forall>b \<in> set (backends s). \<not> healthy b)
    | (Some c, s') \<Rightarrow> c < length (backends s) \<and> healthy (backends s ! c) \<and>
        (\<exists>d < length (backends s). c = (rr s + d) mod length (backends s) \<and>
           (\<forall>e < d. \<not> healthy (backends s ! ((rr s + e) mod length (backends s))))) \<and>
        s' = s\<lparr>rr := (c + 1) mod length (backends s)\<rparr>"
proof -
  have "lb_inv s" using lb.inv_steps [OF assms(2)] lb_config_inv [OF assms(1)] by blast
  then have s: "backends s \<noteq> []" "rr s < length (backends s)" by (auto simp: lb_inv_def)
  show ?thesis
  proof (cases "pick_healthy s")
    case (Pair o' s')
    show ?thesis
    proof (cases o')
      case None
      then show ?thesis using pick_healthy_None [OF s] Pair by simp
    next
      case (Some c)
      obtain d where "d < length (backends s)" "c = (rr s + d) mod length (backends s)" "healthy (backends s ! c)"
        "\<forall>e < d. \<not> healthy (backends s ! ((rr s + e) mod length (backends s)))"
        "s' = s\<lparr>rr := (c + 1) mod length (backends s)\<rparr>"
        by (rule pick_healthy_Some [OF s, of c s']) (use Pair Some in simp_all)
      then show ?thesis using Pair Some s by auto
    qed
  qed
qed

lemma config_two:
  "lb_config [(CHR ''b'', ''h:81''), (CHR ''b'', ''h:82'')] =
     Some (8080, initial\<lparr>backends := [\<lparr>host = ''h'', port = 81, healthy = True\<rparr>, \<lparr>host = ''h'', port = 82, healthy = True\<rparr>]\<rparr>)"
  by code_simp

theorem lb_pick_sound_witness:
  "fst (pick_healthy (set_health 0 False (initial\<lparr>backends :=
     [\<lparr>host = ''h'', port = 81, healthy = True\<rparr>, \<lparr>host = ''h'', port = 82, healthy = True\<rparr>]\<rparr>))) = Some 1"
proof -
  let ?s0 = "initial\<lparr>backends := [\<lparr>host = ''h'', port = 81, healthy = True\<rparr>, \<lparr>host = ''h'', port = 82, healthy = True\<rparr>]\<rparr>"
  have "lb_reachable ?s0 (set_health 0 False ?s0)"
    by (rule steps_one [of lb_step, OF Check]) simp
  from lb_pick_sound [OF config_two this] show ?thesis
    by (auto simp: set_health_def initial_def less_2_cases_iff nth_Cons' split: prod.splits option.splits if_splits)
qed

section \<open>Fairness\<close>

fun picks :: "nat \<Rightarrow> lb \<Rightarrow> nat option list" where
  "picks 0 s = []"
| "picks (Suc k) s = (let (c, s') = pick_healthy s in c # picks k s')"

lemma pick_all_healthy:
  assumes "backends s \<noteq> []" and "rr s < length (backends s)" and "\<forall>b \<in> set (backends s). healthy b"
  shows "pick_healthy s = (Some (rr s), s\<lparr>rr := (rr s + 1) mod length (backends s)\<rparr>)"
proof -
  obtain m where "length (backends s) = Suc m" using assms(1) by (cases "backends s") auto
  moreover have "healthy (backends s ! rr s)" using assms(2,3) nth_mem by blast
  ultimately show ?thesis by (simp add: pick_healthy_def Let_def)
qed

lemma picks_all_healthy:
  assumes "backends s \<noteq> []" and "rr s < length (backends s)" and "\<forall>b \<in> set (backends s). healthy b"
  shows "picks k s = map (\<lambda>i. Some ((rr s + i) mod length (backends s))) [0..<k]"
  using assms
proof (induction k arbitrary: s)
  case (Suc k)
  let ?n = "length (backends s)"
  have "picks k (s\<lparr>rr := (rr s + 1) mod ?n\<rparr>) = map (\<lambda>i. Some (((rr s + 1) mod ?n + i) mod ?n)) [0..<k]"
    using Suc.IH [of "s\<lparr>rr := (rr s + 1) mod ?n\<rparr>"] Suc.prems by simp
  also have "\<dots> = map (\<lambda>i. Some ((rr s + i) mod ?n)) (map Suc [0..<k])"
    by (simp add: mod_simps)
  also have "map Suc [0..<k] = [1..<Suc k]" by (simp add: map_Suc_upt)
  finally show ?case
    using pick_all_healthy [OF Suc.prems] Suc.prems by (simp add: upt_conv_Cons del: upt_Suc)
qed simp

lemma mod_block_inj:
  fixes r n a :: nat
  assumes "(r + i) mod n = (r + j) mod n" and "i \<in> {a..<a + n}" and "j \<in> {a..<a + n}"
  shows "i = j"
proof -
  have le: "x = y" if "x \<le> y" "(r + x) mod n = (r + y) mod n" "y < x + n" for x y
  proof -
    have "n dvd (r + y) - (r + x)" using that(1,2) mod_eq_dvd_iff_nat [of "r + x" "r + y" n] by simp
    then have "n dvd y - x" by simp
    then show ?thesis using that(1,3) by (auto dest!: dvd_imp_le)
  qed
  show ?thesis
  proof (cases "i \<le> j")
    case True
    then show ?thesis by (rule le) (use assms in auto)
  next
    case False
    then have "j \<le> i" by simp
    then have "j = i" by (rule le) (use assms in auto)
    then show ?thesis ..
  qed
qed

lemma count_block:
  fixes r n a :: nat
  assumes "c < n"
  shows "count_list (map (\<lambda>i. Some ((r + i) mod n)) [a..<a + n]) (Some c) = 1"
proof -
  let ?f = "\<lambda>i. (r + i) mod n"
  have inj: "inj_on ?f {a..<a + n}" by (rule inj_onI) (rule mod_block_inj)
  then have "card (?f ` {a..<a + n}) = n" by (simp add: card_image)
  moreover have "?f ` {a..<a + n} \<subseteq> {..<n}" using assms by auto
  ultimately have "?f ` {a..<a + n} = {..<n}" by (intro card_subset_eq) auto
  then have "c \<in> ?f ` {a..<a + n}" using assms by blast
  then obtain i where i: "i \<in> {a..<a + n}" "?f i = c" by blast
  have "c = ?f k \<longleftrightarrow> k = i" if "k \<in> {a..<a + n}" for k
  proof
    assume "c = ?f k"
    then have "?f k = ?f i" using i(2) by (simp only:)
    then show "k = i" by (rule mod_block_inj) (use that i(1) in simp_all)
  qed (use i(2) in simp)
  then have "filter (\<lambda>k. c = ?f k) [a..<a + n] = filter (\<lambda>k. k = i) [a..<a + n]"
    by (intro filter_cong) simp_all
  moreover have "length (filter (\<lambda>k. k = i) [a..<a + n]) = 1"
    using i(1) distinct_length_filter [of "[a..<a + n]" "\<lambda>k. k = i"] by (simp add: Collect_conv_if)
  ultimately show ?thesis by (simp add: count_list_eq_length_filter filter_map comp_def)
qed

text \<open>While all backends are healthy the load is spread evenly: of any number of consecutive requests
  that is a multiple of the number of backends, each backend gets the same share.\<close>

lemma picks_fair:
  assumes "backends s \<noteq> []" and "rr s < length (backends s)" and "\<forall>b \<in> set (backends s). healthy b"
    and "c < length (backends s)"
  shows "count_list (picks (m * length (backends s)) s) (Some c) = m"
proof (induction m)
  case (Suc m)
  let ?n = "length (backends s)" and ?g = "\<lambda>i. Some ((rr s + i) mod length (backends s))"
  have "Suc m * ?n = m * ?n + ?n" by simp
  then have "[0..<Suc m * ?n] = [0..<m * ?n] @ [m * ?n..<m * ?n + ?n]"
    using upt_add_eq_append [of 0 "m * ?n" ?n] by (simp only: le0 simp_thms)
  then have "picks (Suc m * ?n) s = picks (m * ?n) s @ map ?g [m * ?n..<m * ?n + ?n]"
    by (simp only: picks_all_healthy [OF assms(1-3)] map_append)
  then show ?case using Suc.IH count_block [OF assms(4), of "rr s" "m * ?n"] by (simp only: count_list_append)
qed simp

lemma picks_fair_instance:
  "count_list (picks 6 (initial\<lparr>backends := [\<lparr>host = ''h'', port = 81, healthy = True\<rparr>,
     \<lparr>host = ''h'', port = 82, healthy = True\<rparr>]\<rparr>)) (Some 1) = 3"
  using picks_fair [of "initial\<lparr>backends := [\<lparr>host = ''h'', port = 81, healthy = True\<rparr>,
     \<lparr>host = ''h'', port = 82, healthy = True\<rparr>]\<rparr>" 1 3]
  by (simp add: initial_def)

section \<open>Forwarding\<close>

lemma send_all_complete: "\<forall>i. 0 < ws i \<Longrightarrow> \<exists>j. send_all ws i buf = (buf, j, True)"
proof (induction ws i buf rule: send_all.induct)
  case (1 ws i buf)
  have "\<not> ws i \<le> 0" using 1(2) by (simp add: not_le)
  then show ?case
    using 1 by (subst send_all.simps) (fastforce simp: Let_def)
qed

lemma pipe_complete:
  "\<forall>i. 0 < ws i \<Longrightarrow> pipe_until_eof ws i chunks = concat (takeWhile (\<lambda>c. c \<noteq> []) chunks)"
proof (induction chunks arbitrary: i)
  case (Cons c cs)
  obtain j where "send_all ws i c = (c, j, True)" using send_all_complete [of ws i c] Cons.prems by blast
  then show ?case using Cons by simp
qed simp

lemma handle_complete:
  assumes "pick_healthy s = (Some c, s')" and "dial (host (backends s ! c)) (port (backends s ! c)) = Some peer"
    and "\<forall>i. 0 < wb i" and "\<forall>i. 0 < wc i" and "req \<noteq> []" and "length req \<le> 8191"
  shows "handle dial wb wc req s =
     (\<lparr>to_client = concat (takeWhile (\<lambda>c. c \<noteq> []) (peer req)), to_backend = Some (c, req)\<rparr>, s')"
proof -
  obtain j where "send_all wb 0 req = (req, j, True)" using send_all_complete [OF assms(3)] by blast
  then show ?thesis using assms pipe_complete [OF assms(4)] by (simp add: handle_def)
qed

lemma snprintf_id: "length s < n \<Longrightarrow> snprintf n s = s"
  by (simp add: snprintf_def)

lemma length_ok_response: "length body < 1100 \<Longrightarrow> length (ok_response body) < 1400"
  using length_nat_str [of "length body" 3] by (simp add: ok_response_def)

text \<open>C32: A client whose request is answered by the lesson's backend gets the backend's whole reply, a
  200 response with the name of the backend as its body and the length of that body in its header,
  and the backend gets the request as it was read, however the sends are split.\<close>

theorem lb_relays_backend:
  assumes "pick_healthy s = (Some c, s')"
    and "dial (host (backends s ! c)) (port (backends s ! c)) = Some (backend_handle name)"
    and "\<forall>i. 0 < wb i" and "\<forall>i. 0 < wc i" and "req \<noteq> []" and "length req \<le> 8191"
    and "request_path (cstr (take 2047 req)) \<noteq> ''/health''" and "length name < 1100"
  shows "handle dial wb wc req s = (\<lparr>to_client = ok_response name, to_backend = Some (c, req)\<rparr>, s')"
proof -
  have "backend_handle name req = [ok_response name]"
    using assms(5,7,8) length_ok_response [OF assms(8)] by (simp add: backend_handle_def Let_def snprintf_id)
  moreover have "ok_response name \<noteq> []" by (simp add: ok_response_def)
  ultimately show ?thesis using handle_complete [of s c s' dial "backend_handle name" wb wc req] assms by simp
qed

lemma path_root: "request_path (cstr (take 2047 ''GET / HTTP/1.1'')) = ''/''"
  by code_simp

theorem lb_relays_backend_witness:
  "fst (handle (\<lambda>h p. Some (backend_handle ''A'')) (\<lambda>_. 5) (\<lambda>_. 7) ''GET / HTTP/1.1''
     (initial\<lparr>backends := [\<lparr>host = ''h'', port = 81, healthy = True\<rparr>]\<rparr>)) =
   \<lparr>to_client = ok_response ''A'', to_backend = Some (0, ''GET / HTTP/1.1'')\<rparr>"
  using lb_relays_backend [of "initial\<lparr>backends := [\<lparr>host = ''h'', port = 81, healthy = True\<rparr>]\<rparr>" 0
      "initial\<lparr>backends := [\<lparr>host = ''h'', port = 81, healthy = True\<rparr>]\<rparr>" "\<lambda>h p. Some (backend_handle ''A'')" "''A''"
      "\<lambda>_. 5" "\<lambda>_. 7" "''GET / HTTP/1.1''"] path_root
  by (simp add: initial_def pick_healthy_def Let_def)

section \<open>Health checks and configuration\<close>

lemma health_request_fits:
  "length path \<le> 255 \<Longrightarrow> length h \<le> 63 \<Longrightarrow> length (health_request path h) < 512"
  by (simp add: health_request_def)

lemma response_status: "strstr (cstr (take 255 (take 1399 (''HTTP/1.1 200 OK'' @ r)))) '' 200 '' \<noteq> None"
  by (simp add: cstr_def take_Cons')

lemma check_health_backend:
  assumes "dial (host b) (port b) = Some (backend_handle name)"
  shows "check_health dial path b"
proof -
  have "snprintf 512 (health_request path (host b)) \<noteq> []" by (simp add: snprintf_def health_request_def)
  then obtain body where r: "backend_handle name (snprintf 512 (health_request path (host b))) = [snprintf 1400 (ok_response body)]"
    by (auto simp: backend_handle_def Let_def)
  obtain x where x: "ok_response body = ''HTTP/1.1 200 OK'' @ x" by (simp add: ok_response_def)
  have "snprintf 1400 (ok_response body) \<noteq> []" by (simp add: x snprintf_def)
  then show ?thesis
    using assms r response_status [of x] by (simp add: check_health_def x snprintf_def)
qed

lemma backends_set_health:
  "backends (set_health i up s) = (backends s)[i := (backends s ! i)\<lparr>healthy := up\<rparr>]"
  by (simp add: set_health_def)

lemma health_path_set_health: "health_path (set_health i up s) = health_path s"
  by (simp add: set_health_def)

lemma health_round_upto:
  assumes "k \<le> length (backends s)"
  shows "(let s' = foldl (\<lambda>s i. set_health i (check_health dial (health_path s) (backends s ! i)) s) s [0..<k]
          in health_path s' = health_path s \<and>
             backends s' = map (\<lambda>b. b\<lparr>healthy := check_health dial (health_path s) b\<rparr>) (take k (backends s)) @ drop k (backends s))"
  using assms
proof (induction k)
  case (Suc k)
  let ?u = "\<lambda>b. b\<lparr>healthy := check_health dial (health_path s) b\<rparr>"
  let ?s = "foldl (\<lambda>s i. set_health i (check_health dial (health_path s) (backends s ! i)) s) s [0..<k]"
  have IH: "health_path ?s = health_path s" "backends ?s = map ?u (take k (backends s)) @ drop k (backends s)"
    using Suc by (simp_all add: Let_def)
  have n: "backends ?s ! k = backends s ! k" using Suc.prems by (simp add: IH(2) nth_append)
  have d: "drop k (backends s) = backends s ! k # drop (Suc k) (backends s)"
    using Suc.prems by (simp add: Cons_nth_drop_Suc)
  have "foldl (\<lambda>s i. set_health i (check_health dial (health_path s) (backends s ! i)) s) s [0..<Suc k] =
      set_health k (check_health dial (health_path s) (backends s ! k)) ?s"
    using IH(1) n by simp
  moreover have "backends (set_health k (check_health dial (health_path s) (backends s ! k)) ?s) =
      map ?u (take (Suc k) (backends s)) @ drop (Suc k) (backends s)"
    using Suc.prems n by (simp add: backends_set_health IH(2) list_update_append d take_Suc_conv_app_nth)
  ultimately show ?case using IH(1) by (simp add: Let_def health_path_set_health)
qed simp

text \<open>Every backend that runs the lesson's backend program passes the health check, whatever its name
  and whatever the health path, and a backend that cannot be reached fails it: after one round of the
  health thread the flags say exactly which backends are reachable.\<close>

lemma health_round_exact:
  assumes "\<And>b. b \<in> set (backends s) \<Longrightarrow> \<exists>name. dial (host b) (port b) \<in> {None, Some (backend_handle name)}"
  shows "backends (health_round dial s) =
     map (\<lambda>b. b\<lparr>healthy := (dial (host b) (port b) \<noteq> None)\<rparr>) (backends s)"
proof -
  have "check_health dial path b = (dial (host b) (port b) \<noteq> None)" if "b \<in> set (backends s)" for b path
    using assms [OF that] check_health_backend by (fastforce simp: check_health_def)
  then show ?thesis
    using health_round_upto [of "length (backends s)" s dial] by (simp add: health_round_def Let_def)
qed

lemma health_round_exact_instance:
  "map healthy (backends (health_round (\<lambda>h p. if p = 81 then Some (backend_handle ''A'') else None)
     (initial\<lparr>backends := [\<lparr>host = ''h'', port = 81, healthy = False\<rparr>, \<lparr>host = ''h'', port = 82, healthy = True\<rparr>]\<rparr>))) = [True, False]"
proof -
  let ?s = "initial\<lparr>backends := [\<lparr>host = ''h'', port = 81, healthy = False\<rparr>, \<lparr>host = ''h'', port = 82, healthy = True\<rparr>]\<rparr>"
  let ?d = "\<lambda>h p. if p = (81 :: int) then Some (backend_handle ''A'') else None"
  have "backends (health_round ?d ?s) = map (\<lambda>b. b\<lparr>healthy := (?d (host b) (port b) \<noteq> None)\<rparr>) (backends ?s)"
    by (rule health_round_exact) auto
  then show ?thesis by (simp add: initial_def)
qed

text \<open>The length in the 502 message is that of its body.\<close>

lemma msg_502_length:
  "\<exists>h body. msg_502 = h @ ''Content-Length: '' @ nat_str (length body) @ [CR, LF] @ ''Connection: close'' @ [CR, LF, CR, LF] @ body \<and>
     body = ''502 Bad Gateway'' @ [LF]"
proof -
  have n: "nat_str (length (''502 Bad Gateway'' @ [LF])) = ''16''" by code_simp
  have "msg_502 = (''HTTP/1.1 502 Bad Gateway'' @ [CR, LF]) @ ''Content-Length: '' @
      nat_str (length (''502 Bad Gateway'' @ [LF])) @ [CR, LF] @ ''Connection: close'' @ [CR, LF, CR, LF] @ ''502 Bad Gateway'' @ [LF]"
    unfolding n by (simp add: msg_502_def)
  then show ?thesis by blast
qed

text \<open>A backend that dies between two health checks is not skipped: the client gets a 502 although
  others are healthy.\<close>

lemma handle_no_retry:
  assumes "pick_healthy s = (Some c, s')" and "dial (host (backends s ! c)) (port (backends s ! c)) = None" and "req \<noteq> []"
  shows "to_client (fst (handle dial wb wc req s)) = send_502 wc"
  using assms by (simp add: handle_def)

text \<open>The first picker of lesson 5 and the one of the exercise are the same rotation.\<close>

lemma next_backend_same: "next_backend_5 n i = next_backend n i"
  by (simp add: next_backend_5_def next_backend_def)

end
