(* ===== verification/Sockets.thy ===== *)
theory Sockets
  imports Load_Balancer
begin

text \<open>
  The socket calls of the servers and clients of this repository, and what they all do with them: opening
  a listening socket and connecting to a backend.

  A program is a function on the \<open>world\<close> of one process: its descriptor table, a script of what the kernel and
  the peers will answer, one entry per call, and what it has sent. It returns, exits, blocks (the script is
  at its end) or faults. \<open>wp\<close> is the weakest precondition over that, with one rule per call that
  speaks about the descriptors. The lines a program prints are not part of the state.
\<close>

section \<open>Processes and their descriptors\<close>

text \<open>A listening socket has a port of its own choice only if it was bound before.\<close>

datatype sock = Std | Unbound | Bound int | Listening "int option" | Accepted | Dialed string int

datatype reply = Yes | Fails | Bytes mem | Count nat | InChild

record world =
  fdt :: "sock option list"
  script :: "reply list"
  sent :: "(int \<times> string) list"

datatype 'a run = Returned 'a world | Quit int world | Blocked world | Faulted cfault

type_synonym 'a prog = "world \<Rightarrow> 'a run"

definition ret :: "'a \<Rightarrow> 'a prog" where
  "ret x w = Returned x w"

definition bnd :: "'a prog \<Rightarrow> ('a \<Rightarrow> 'b prog) \<Rightarrow> 'b prog" where
  "bnd p f w =
     (case p w of Returned x w' \<Rightarrow> f x w' | Quit k w' \<Rightarrow> Quit k w' | Blocked w' \<Rightarrow> Blocked w' | Faulted e \<Rightarrow> Faulted e)"

definition prog_exit :: "int \<Rightarrow> 'a prog" where
  "prog_exit k w = Quit k w"

definition prog_fault :: "cfault \<Rightarrow> 'a prog" where
  "prog_fault e w = Faulted e"

definition started :: "reply list \<Rightarrow> world" where
  "started rs = \<lparr>fdt = [Some Std, Some Std, Some Std], script = rs, sent = []\<rparr>"

text \<open>What a descriptor number refers to; a new one is the lowest that is free.\<close>

definition fd_at :: "world \<Rightarrow> int \<Rightarrow> sock option" where
  "fd_at w fd = (if 0 \<le> fd \<and> nat fd < length (fdt w) then fdt w ! nat fd else None)"

definition lowest_free :: "sock option list \<Rightarrow> nat" where
  "lowest_free t = length (takeWhile (\<lambda>x. x \<noteq> None) t)"

definition alloc_fd :: "sock \<Rightarrow> world \<Rightarrow> int run" where
  "alloc_fd s w =
     (let i = lowest_free (fdt w) in
      Returned (int i) (w\<lparr>fdt := (if i < length (fdt w) then (fdt w)[i := Some s] else fdt w @ [Some s])\<rparr>))"

definition put_fd :: "int \<Rightarrow> sock option \<Rightarrow> world \<Rightarrow> world" where
  "put_fd fd s w = w\<lparr>fdt := (fdt w)[nat fd := s]\<rparr>"

section \<open>Calls\<close>

text \<open>Each call that can fail takes the next entry of the script.\<close>

definition asks :: "(reply \<Rightarrow> 'a prog) \<Rightarrow> 'a prog" where
  "asks f w = (case script w of [] \<Rightarrow> Blocked w | r # rs \<Rightarrow> f r (w\<lparr>script := rs\<rparr>))"

definition sys_socket :: "int prog" where
  "sys_socket = asks (\<lambda>r. if r = Fails then ret (- 1) else alloc_fd Unbound)"

definition sys_setsockopt :: "int \<Rightarrow> int prog" where
  "sys_setsockopt fd = asks (\<lambda>r w. Returned (if fd_at w fd = None \<or> r = Fails then - 1 else 0) w)"

definition sys_bind :: "int \<Rightarrow> int \<Rightarrow> int prog" where
  "sys_bind fd p = asks (\<lambda>r w.
     if fd_at w fd = Some Unbound \<and> r \<noteq> Fails then Returned 0 (put_fd fd (Some (Bound p)) w) else Returned (- 1) w)"

definition sys_listen :: "int \<Rightarrow> int prog" where
  "sys_listen fd = asks (\<lambda>r w.
     if r = Fails then Returned (- 1) w
     else
       case fd_at w fd of
         Some (Bound p) \<Rightarrow> Returned 0 (put_fd fd (Some (Listening (Some p))) w)
       | Some Unbound \<Rightarrow> Returned 0 (put_fd fd (Some (Listening None)) w)
       | _ \<Rightarrow> Returned (- 1) w)"

definition sys_accept :: "int \<Rightarrow> int prog" where
  "sys_accept fd = asks (\<lambda>r w.
     case fd_at w fd of
       Some (Listening p) \<Rightarrow> if r = Fails then Returned (- 1) w else alloc_fd Accepted w
     | _ \<Rightarrow> Returned (- 1) w)"

definition sys_inet_pton :: "int prog" where
  "sys_inet_pton = asks (\<lambda>r. ret (if r = Fails then 0 else 1))"

definition sys_connect :: "int \<Rightarrow> string \<Rightarrow> int \<Rightarrow> int prog" where
  "sys_connect fd h p = asks (\<lambda>r w.
     if fd_at w fd = Some Unbound \<and> r \<noteq> Fails then Returned 0 (put_fd fd (Some (Dialed h p)) w) else Returned (- 1) w)"

definition sys_read :: "int \<Rightarrow> nat \<Rightarrow> (int \<times> mem) prog" where
  "sys_read fd n = asks (\<lambda>r w.
     if fd_at w fd = None \<or> r = Fails then Returned (- 1, []) w
     else
       case r of
         Bytes b \<Rightarrow> Returned (int (length (take n b)), take n b) w
       | _ \<Rightarrow> Returned (0, []) w)"

definition sys_send :: "int \<Rightarrow> string \<Rightarrow> int prog" where
  "sys_send fd data = asks (\<lambda>r w.
     if fd_at w fd = None \<or> r = Fails then Returned (- 1) w
     else
       let k = (case r of Count k \<Rightarrow> min k (length data) | _ \<Rightarrow> length data)
       in Returned (int k) (w\<lparr>sent := sent w @ [(fd, take k data)]\<rparr>))"

definition sys_close :: "int \<Rightarrow> unit prog" where
  "sys_close fd w = Returned () (if fd_at w fd = None then w else put_fd fd None w)"

text \<open>\<open>fork\<close> goes on in the parent or in the child, whose table is a copy: the script says which process is followed.\<close>

definition sys_fork :: "int prog" where
  "sys_fork = asks (\<lambda>r. ret (if r = InChild then 0 else if r = Fails then - 1 else 1))"

definition sys_thread :: "bool prog" where
  "sys_thread = asks (\<lambda>r. ret (r \<noteq> Fails))"

definition sys_malloc :: "unit prog" where
  "sys_malloc = asks (\<lambda>r. if r = Fails then prog_fault NullDeref else ret ())"

section \<open>Opening a listening socket\<close>

text \<open>
  The start of every server is the same text but for which results it looks at. \<open>opt_set\<close> says that it
  sets \<open>SO_REUSEADDR\<close>. A failure that is looked at ends the program with status 1.
\<close>

record checks =
  socket_checked :: bool
  opt_set :: bool
  opt_checked :: bool
  bind_checked :: bool
  listen_checked :: bool

definition checked :: "bool \<Rightarrow> int prog \<Rightarrow> int prog" where
  "checked b p = bnd p (\<lambda>r. if b \<and> r < 0 then prog_exit 1 else ret r)"

definition open_listener :: "checks \<Rightarrow> int \<Rightarrow> int prog" where
  "open_listener c p =
     bnd (checked (socket_checked c) sys_socket) (\<lambda>fd.
     bnd (if opt_set c then checked (opt_checked c) (sys_setsockopt fd) else ret 0) (\<lambda>_.
     bnd (checked (bind_checked c) (sys_bind fd p)) (\<lambda>_.
     bnd (checked (listen_checked c) (sys_listen fd)) (\<lambda>_. ret fd))))"

definition all_checked :: checks where
  "all_checked = \<lparr>socket_checked = True, opt_set = True, opt_checked = True, bind_checked = True, listen_checked = True\<rparr>"

text \<open>\<open>socket/server.c\<close> does not set the option; lessons 2 and 3 do not look at its result; lessons 4 to 6, \<open>lb.c\<close> and
  \<open>backend.c\<close> look at \<open>bind\<close> only; the exercise of lesson 5 looks at nothing.\<close>

definition checks_server :: checks where
  "checks_server = all_checked\<lparr>opt_set := False\<rparr>"

definition checks_lesson2 :: checks where
  "checks_lesson2 = all_checked\<lparr>opt_checked := False\<rparr>"

definition checks_lesson4 :: checks where
  "checks_lesson4 = \<lparr>socket_checked = False, opt_set = True, opt_checked = False, bind_checked = True, listen_checked = False\<rparr>"

definition checks_exercise :: checks where
  "checks_exercise = checks_lesson4\<lparr>bind_checked := False\<rparr>"

section \<open>Connecting to a backend\<close>

text \<open>\<open>dial\<close> of \<open>lb.c\<close> and \<open>connect_to_backend\<close> of lesson 4.\<close>

definition dial :: "string \<Rightarrow> int \<Rightarrow> int prog" where
  "dial h p =
     bnd sys_socket (\<lambda>fd.
     if fd < 0 then ret (- 1)
     else bnd sys_inet_pton (\<lambda>ok.
       if ok \<le> 0 then bnd (sys_close fd) (\<lambda>_. ret (- 1))
       else bnd (sys_connect fd h p) (\<lambda>r.
         if r < 0 then bnd (sys_close fd) (\<lambda>_. ret (- 1)) else ret fd)))"

text \<open>Lessons 5 and 6 do not look at the result of \<open>inet_pton\<close>, which leaves the zeroed address when it fails; the
  exercise does not look at \<open>socket\<close> either.\<close>

definition dial_6 :: "string \<Rightarrow> int \<Rightarrow> int prog" where
  "dial_6 h p =
     bnd sys_socket (\<lambda>fd.
     if fd < 0 then ret (- 1)
     else bnd sys_inet_pton (\<lambda>ok.
       bnd (sys_connect fd (if ok = 1 then h else ''0.0.0.0'') p) (\<lambda>r.
         if r < 0 then bnd (sys_close fd) (\<lambda>_. ret (- 1)) else ret fd)))"

definition dial_exercise :: "string \<Rightarrow> int \<Rightarrow> int prog" where
  "dial_exercise h p =
     bnd sys_socket (\<lambda>fd.
     bnd sys_inet_pton (\<lambda>ok.
       bnd (sys_connect fd (if ok = 1 then h else ''0.0.0.0'') p) (\<lambda>r.
         if r < 0 then bnd (sys_close fd) (\<lambda>_. ret (- 1)) else ret fd)))"

section \<open>Sending all, and relaying\<close>

text \<open>The loop \<open>while (off < n)\<close> of the proxies: the rest is sent again until a send fails or takes nothing.\<close>

function (sequential) send_loop :: "int \<Rightarrow> string \<Rightarrow> bool prog" where
  "send_loop fd [] = ret True"
| "send_loop fd (c # cs) =
     bnd (sys_send fd (c # cs)) (\<lambda>k. if k \<le> 0 then ret False else send_loop fd (drop (nat k) (c # cs)))"
  by pat_completeness auto
termination by (relation "measure (\<lambda>(fd, data). length data)") auto

lemma asks_shorter:
  "asks f w = Returned x w' \<Longrightarrow> (\<And>r v. f r v = Returned x w' \<Longrightarrow> length (script w') \<le> length (script v)) \<Longrightarrow>
   length (script w') < length (script w)"
  by (fastforce simp: asks_def split: list.splits)

lemma sys_read_shorter: "sys_read fd n w = Returned x w' \<Longrightarrow> length (script w') < length (script w)"
  unfolding sys_read_def by (erule asks_shorter) (auto split: if_splits reply.splits)

lemma sys_send_shorter: "sys_send fd d w = Returned x w' \<Longrightarrow> length (script w') < length (script w)"
  unfolding sys_send_def by (erule asks_shorter) (auto simp: Let_def split: if_splits)

lemma send_loop_shorter: "send_loop fd d w = Returned ok w' \<Longrightarrow> length (script w') \<le> length (script w)"
proof (induction fd d arbitrary: w rule: send_loop.induct)
  case (1 fd)
  then show ?case by (simp add: ret_def)
next
  case (2 fd c cs)
  then obtain k v where k: "sys_send fd (c # cs) w = Returned k v"
    "(if k \<le> 0 then ret False else send_loop fd (drop (nat k) (c # cs))) v = Returned ok w'"
    by (auto simp: bnd_def split: run.splits)
  from sys_send_shorter [OF k(1)] have "length (script v) < length (script w)" .
  with 2(1) [of k v] k(2) show ?case by (auto simp: ret_def split: if_splits)
qed

function relay :: "int \<Rightarrow> int \<Rightarrow> unit prog" where
  "relay src dst w =
     (case sys_read src 4096 w of
        Returned (n, b) w1 \<Rightarrow>
          if n \<le> 0 then Returned () w1
          else
            (case send_loop dst b w1 of
               Returned done w2 \<Rightarrow> if done then relay src dst w2 else Returned () w2
             | Quit k w2 \<Rightarrow> Quit k w2
             | Blocked w2 \<Rightarrow> Blocked w2
             | Faulted e \<Rightarrow> Faulted e)
      | Quit k w1 \<Rightarrow> Quit k w1
      | Blocked w1 \<Rightarrow> Blocked w1
      | Faulted e \<Rightarrow> Faulted e)"
  by pat_completeness auto
termination
  by (relation "measure (\<lambda>(src, dst, w). length (script w))") (auto dest!: sys_read_shorter send_loop_shorter)

section \<open>Weakest preconditions\<close>

text \<open>\<open>wp p Q X w\<close>: from \<open>w\<close> the program does not fault, and returns with \<open>Q\<close> or exits with \<open>X\<close>, if it does.\<close>

definition wp :: "'a prog \<Rightarrow> ('a \<Rightarrow> world \<Rightarrow> bool) \<Rightarrow> (int \<Rightarrow> world \<Rightarrow> bool) \<Rightarrow> world \<Rightarrow> bool" where
  "wp p Q X w \<longleftrightarrow> (case p w of Returned x w' \<Rightarrow> Q x w' | Quit k w' \<Rightarrow> X k w' | Blocked w' \<Rightarrow> True | Faulted e \<Rightarrow> False)"

lemma wp_ret [simp]: "wp (ret x) Q X w = Q x w"
  by (simp add: wp_def ret_def)

lemma wp_exit [simp]: "wp (prog_exit k) Q X w = X k w"
  by (simp add: wp_def prog_exit_def)

lemma wp_bnd [simp]: "wp (bnd p f) Q X w = wp p (\<lambda>x. wp (f x) Q X) X w"
  by (simp add: wp_def bnd_def split: run.split)

lemma wp_if [simp]: "wp (if b then p else q) Q X w = (if b then wp p Q X w else wp q Q X w)"
  by simp

lemma wp_returned: "wp p Q X w \<Longrightarrow> p w = Returned x w' \<Longrightarrow> Q x w'"
  by (simp add: wp_def)

lemma wp_quit: "wp p Q X w \<Longrightarrow> p w = Quit k w' \<Longrightarrow> X k w'"
  by (simp add: wp_def)

lemma wp_mono: "wp p Q X w \<Longrightarrow> (\<And>x v. Q x v \<Longrightarrow> Q' x v) \<Longrightarrow> (\<And>k v. X k v \<Longrightarrow> X' k v) \<Longrightarrow> wp p Q' X' w"
  by (auto simp: wp_def split: run.splits)

lemma wp_asks: "wp (asks f) Q X w \<longleftrightarrow> (case script w of [] \<Rightarrow> True | r # rs \<Rightarrow> wp (f r) Q X (w\<lparr>script := rs\<rparr>))"
  by (simp add: wp_def asks_def split: list.split)

lemma fd_at_script [simp]: "fd_at (w\<lparr>script := rs\<rparr>) = fd_at w" "fd_at (w\<lparr>sent := ss\<rparr>) = fd_at w"
  by (simp_all add: fd_at_def fun_eq_iff)

lemma fd_at_put [simp]: "fd_at w fd \<noteq> None \<Longrightarrow> fd_at (put_fd fd s w) = (fd_at w)(fd := s)"
  by (auto simp: fd_at_def put_fd_def fun_eq_iff nth_list_update)

lemma fd_at_neg [simp]: "fd < 0 \<Longrightarrow> fd_at w fd = None"
  by (simp add: fd_at_def)

lemma lowest_free_None: "lowest_free t < length t \<Longrightarrow> t ! lowest_free t = None"
  using nth_length_takeWhile [of "\<lambda>x. x \<noteq> None" t] by (simp add: lowest_free_def)

lemma lowest_free_le: "lowest_free t \<le> length t"
  by (simp add: lowest_free_def length_takeWhile_le)

lemma alloc_fd:
  obtains fd w' where "alloc_fd s w = Returned fd w'" "0 \<le> fd" "fd_at w fd = None" "fd_at w' = (fd_at w)(fd \<mapsto> s)"
proof -
  let ?i = "lowest_free (fdt w)"
  let ?w = "w\<lparr>fdt := (if ?i < length (fdt w) then (fdt w)[?i := Some s] else fdt w @ [Some s])\<rparr>"
  have free: "fd_at w (int ?i) = None"
    using lowest_free_None [of "fdt w"] by (simp add: fd_at_def)
  have at: "fd_at ?w x = ((fd_at w)(int ?i \<mapsto> s)) x" for x
    using lowest_free_le [of "fdt w"] by (auto simp: fd_at_def nth_append nth_list_update)
  show thesis
    by (rule that [of "int ?i" ?w]) (simp_all add: alloc_fd_def Let_def free at fun_eq_iff)
qed

lemma alloc_fd_Returned: "alloc_fd s w = Returned fd v \<Longrightarrow> 0 \<le> fd \<and> fd_at w fd = None \<and> fd_at v = (fd_at w)(fd \<mapsto> s)"
  by (rule alloc_fd [of s w]) auto

text \<open>One rule per call: what has to hold for each of its outcomes.\<close>

lemma wp_alloc:
  "(\<And>fd v. 0 \<le> fd \<Longrightarrow> fd_at w fd = None \<Longrightarrow> fd_at v = (fd_at w)(fd \<mapsto> s) \<Longrightarrow> Q fd v) \<Longrightarrow> wp (alloc_fd s) Q X w"
  by (rule alloc_fd [of s w]) (simp add: wp_def)

lemma wp_socket:
  "(\<And>v. fd_at v = fd_at w \<Longrightarrow> Q (- 1) v) \<Longrightarrow>
   (\<And>fd v. 0 \<le> fd \<Longrightarrow> fd_at w fd = None \<Longrightarrow> fd_at v = (fd_at w)(fd \<mapsto> Unbound) \<Longrightarrow> Q fd v) \<Longrightarrow> wp sys_socket Q X w"
  unfolding sys_socket_def wp_asks by (auto intro!: wp_alloc split: list.split)

lemma wp_setsockopt: "(\<And>r v. fd_at v = fd_at w \<Longrightarrow> Q r v) \<Longrightarrow> wp (sys_setsockopt fd) Q X w"
  unfolding sys_setsockopt_def wp_asks by (auto simp: wp_def split: list.split)

lemma wp_bind:
  "(\<And>v. fd_at v = fd_at w \<Longrightarrow> Q (- 1) v) \<Longrightarrow>
   (\<And>v. fd_at w fd = Some Unbound \<Longrightarrow> fd_at v = (fd_at w)(fd \<mapsto> Bound p) \<Longrightarrow> Q 0 v) \<Longrightarrow> wp (sys_bind fd p) Q X w"
  unfolding sys_bind_def wp_asks by (auto simp: wp_def split: list.split)

lemma wp_listen:
  "(\<And>v. fd_at v = fd_at w \<Longrightarrow> Q (- 1) v) \<Longrightarrow>
   (\<And>p v. fd_at w fd = Some (Bound p) \<Longrightarrow> fd_at v = (fd_at w)(fd \<mapsto> Listening (Some p)) \<Longrightarrow> Q 0 v) \<Longrightarrow>
   (\<And>v. fd_at w fd = Some Unbound \<Longrightarrow> fd_at v = (fd_at w)(fd \<mapsto> Listening None) \<Longrightarrow> Q 0 v) \<Longrightarrow> wp (sys_listen fd) Q X w"
  unfolding sys_listen_def wp_asks by (auto simp: wp_def split: list.split option.split sock.split)

lemma wp_accept:
  "(\<And>v. fd_at v = fd_at w \<Longrightarrow> Q (- 1) v) \<Longrightarrow>
   (\<And>p c v. fd_at w fd = Some (Listening p) \<Longrightarrow> 0 \<le> c \<Longrightarrow> fd_at w c = None \<Longrightarrow> fd_at v = (fd_at w)(c \<mapsto> Accepted) \<Longrightarrow> Q c v) \<Longrightarrow>
   wp (sys_accept fd) Q X w"
  unfolding sys_accept_def wp_asks
  by (auto simp: wp_def split: list.split option.split sock.split intro!: wp_alloc [unfolded wp_def])

lemma wp_inet_pton:
  "(\<And>v. fd_at v = fd_at w \<Longrightarrow> Q 0 v) \<Longrightarrow> (\<And>v. fd_at v = fd_at w \<Longrightarrow> Q 1 v) \<Longrightarrow> wp sys_inet_pton Q X w"
  unfolding sys_inet_pton_def wp_asks by (auto split: list.split)

lemma wp_connect:
  "(\<And>v. fd_at v = fd_at w \<Longrightarrow> Q (- 1) v) \<Longrightarrow>
   (\<And>v. fd_at w fd = Some Unbound \<Longrightarrow> fd_at v = (fd_at w)(fd \<mapsto> Dialed h p) \<Longrightarrow> Q 0 v) \<Longrightarrow> wp (sys_connect fd h p) Q X w"
  unfolding sys_connect_def wp_asks by (auto simp: wp_def split: list.split)

lemma wp_read: "(\<And>x v. fd_at v = fd_at w \<Longrightarrow> Q x v) \<Longrightarrow> wp (sys_read fd n) Q X w"
  unfolding sys_read_def wp_asks by (auto simp: wp_def split: list.split reply.split)

lemma wp_send: "(\<And>k v. fd_at v = fd_at w \<Longrightarrow> Q k v) \<Longrightarrow> wp (sys_send fd data) Q X w"
  unfolding sys_send_def wp_asks by (auto simp: wp_def Let_def split: list.split)

lemma wp_close: "(\<And>v. fd_at v = (fd_at w)(fd := None) \<Longrightarrow> Q () v) \<Longrightarrow> wp (sys_close fd) Q X w"
  by (cases "fd_at w fd = None") (auto simp: wp_def sys_close_def fun_upd_idem)

lemma wp_fork:
  "(\<And>v. fd_at v = fd_at w \<Longrightarrow> Q 0 v) \<Longrightarrow> (\<And>r v. r \<noteq> 0 \<Longrightarrow> fd_at v = fd_at w \<Longrightarrow> Q r v) \<Longrightarrow> wp sys_fork Q X w"
  unfolding sys_fork_def wp_asks by (auto split: list.split)

lemma wp_thread: "(\<And>b v. fd_at v = fd_at w \<Longrightarrow> Q b v) \<Longrightarrow> wp sys_thread Q X w"
  unfolding sys_thread_def wp_asks by (auto split: list.split)

lemma wp_send_loop: "(\<And>b v. fd_at v = fd_at w \<Longrightarrow> Q b v) \<Longrightarrow> wp (send_loop fd data) Q X w"
proof (induction fd data arbitrary: w rule: send_loop.induct)
  case (2 fd c cs)
  show ?case
    by (simp, rule wp_send) (auto intro!: 2)
qed simp

text \<open>A call sequence that leaves the descriptors as they are and neither exits nor faults.\<close>

definition keeps :: "'a prog \<Rightarrow> bool" where
  "keeps p \<longleftrightarrow> (\<forall>w. wp p (\<lambda>x v. fd_at v = fd_at w) (\<lambda>k v. False) w)"

lemma keepsD: "keeps p \<Longrightarrow> (\<And>x v. fd_at v = fd_at w \<Longrightarrow> Q x v) \<Longrightarrow> wp p Q X w"
  unfolding keeps_def by (blast intro: wp_mono)

lemma relay_bnd:
  "relay src dst = bnd (sys_read src 4096) (\<lambda>(n, b). if n \<le> 0 then ret ()
     else bnd (send_loop dst b) (\<lambda>done. if done then relay src dst else ret ()))"
  by (rule ext, subst relay.simps) (auto simp: bnd_def ret_def split: run.split)

lemma keeps_ret [intro, simp]: "keeps (ret x)"
  by (simp add: keeps_def)

lemma keeps_bnd [intro]: "keeps p \<Longrightarrow> (\<And>x. keeps (f x)) \<Longrightarrow> keeps (bnd p f)"
proof -
  assume p: "keeps p" and f: "\<And>x. keeps (f x)"
  have "wp (f x) (\<lambda>_ u. fd_at u = fd_at w) (\<lambda>_ _. False) v" if "fd_at v = fd_at w" for x v w
    by (rule keepsD [OF f]) (simp add: that)
  then show "keeps (bnd p f)" unfolding keeps_def wp_bnd by (blast intro: keepsD [OF p])
qed

lemma keeps_if [intro]: "keeps p \<Longrightarrow> keeps q \<Longrightarrow> keeps (if b then p else q)"
  by simp

lemma keeps_split [intro]: "(\<And>x y. keeps (f x y)) \<Longrightarrow> keeps (case z of (x, y) \<Rightarrow> f x y)"
  by (cases z) simp

lemma keeps_read [intro]: "keeps (sys_read fd n)"
  unfolding keeps_def by (auto intro: wp_read)

lemma keeps_send [intro]: "keeps (sys_send fd data)"
  unfolding keeps_def by (auto intro: wp_send)

lemma keeps_send_loop [intro]: "keeps (send_loop fd data)"
  unfolding keeps_def by (auto intro: wp_send_loop)

text \<open>The loops \<open>while ((n = read(fd, buf, size)) > 0)\<close>: what each round keeps the loop keeps.\<close>

lemma wp_returns: "wp p Q X w \<Longrightarrow> (\<And>x v. p w = Returned x v \<Longrightarrow> Q x v \<Longrightarrow> Q' x v) \<Longrightarrow> wp p Q' X w"
  by (simp add: wp_def split: run.splits)

lemma keeps_read_loop:
  assumes loop: "L = bnd (sys_read fd n) (\<lambda>(k, b). if k \<le> 0 then ret () else bnd (body b) (\<lambda>go. if go then L else ret ()))"
    and body: "\<And>b. keeps (body b)" "\<And>b v go u. body b v = Returned go u \<Longrightarrow> length (script u) \<le> length (script v)"
  shows "keeps L"
proof -
  have "wp L (\<lambda>x v. fd_at v = fd_at w) (\<lambda>k v. False) w" for w
  proof (induction "length (script w)" arbitrary: w rule: less_induct)
    case less
    let ?Q = "\<lambda>x v. fd_at v = fd_at w" and ?X = "\<lambda>k v. False"
    have round: "wp (bnd (body b) (\<lambda>go. if go then L else ret ())) ?Q ?X v"
      if v: "fd_at v = fd_at w" "length (script v) < length (script w)" for b v
    proof (rule wp_bnd [THEN iffD2], rule wp_returns [OF keepsD [OF body(1)]])
      fix go u assume "fd_at u = fd_at v"
      then show "fd_at u = fd_at w" using v by simp
    next
      fix go u assume u: "body b v = Returned go u" "fd_at u = fd_at w"
      then have "length (script u) < length (script w)" using body(2) v(2) by (meson le_less_trans)
      from less [OF this] u(2) show "wp (if go then L else ret ()) ?Q ?X u" by simp
    qed
    have "wp (sys_read fd n) (\<lambda>(k, b). wp (if k \<le> 0 then ret () else bnd (body b) (\<lambda>go. if go then L else ret ())) ?Q ?X) ?X w"
    proof (rule wp_returns [OF wp_read])
      show "fd_at v = fd_at w \<Longrightarrow> fd_at v = fd_at w" for v .
    next
      fix x v assume "sys_read fd n w = Returned x v" "fd_at v = fd_at w"
      with sys_read_shorter [OF this(1)]
      show "(case x of (k, b) \<Rightarrow> wp (if k \<le> 0 then ret () else bnd (body b) (\<lambda>go. if go then L else ret ())) ?Q ?X) v"
        by (cases x) (simp add: round del: wp_bnd)
    qed
    then show ?case by (subst loop) (simp add: case_prod_beta' del: wp_if)
  qed
  then show ?thesis by (simp add: keeps_def)
qed

lemma keeps_relay: "keeps (relay src dst)"
  by (rule keeps_read_loop [OF relay_bnd]) (auto dest: send_loop_shorter)

text \<open>What a call that returned has done.\<close>

lemma bnd_Returned: "bnd p f w = Returned y u \<longleftrightarrow> (\<exists>x v. p w = Returned x v \<and> f x v = Returned y u)"
  by (auto simp: bnd_def split: run.splits)

lemma sys_accept_Returned:
  "sys_accept fd w = Returned c v \<Longrightarrow>
     c < 0 \<and> fd_at v = fd_at w \<or> 0 \<le> c \<and> fd_at w c = None \<and> fd_at v = (fd_at w)(c \<mapsto> Accepted)"
  by (rule wp_returned [of _ _ "\<lambda>_ _. False"], rule wp_accept) auto

lemma sys_thread_Returned: "sys_thread w = Returned b v \<Longrightarrow> fd_at v = fd_at w"
  by (rule wp_returned [of _ _ "\<lambda>_ _. False"], rule wp_thread) auto

lemma sys_close_Returned: "sys_close fd w = Returned x v \<Longrightarrow> fd_at v = (fd_at w)(fd := None)"
  by (rule wp_returned [of _ _ "\<lambda>_ _. False"], rule wp_close) auto

lemma sys_malloc_Returned: "sys_malloc w = Returned x v \<Longrightarrow> fd_at v = fd_at w"
  by (auto simp: sys_malloc_def asks_def ret_def prog_fault_def split: list.splits if_splits)

section \<open>What opening and connecting leave behind\<close>

lemma wp_checked: "wp p (\<lambda>r v. if b \<and> r < 0 then X 1 v else Q r v) X w \<Longrightarrow> wp (checked b p) Q X w"
  by (simp add: checked_def) (erule wp_mono, auto)

lemma fun_upd_same_iff [simp]: "f(x := a) = f(x := b) \<longleftrightarrow> a = b"
  by (auto dest: fun_upd_eqD)

text \<open>The listener of a program that looks at \<open>bind\<close>: its own port, and deaf only if \<open>listen\<close> failed unseen.\<close>

lemma open_listener:
  assumes "bind_checked c"
  shows "wp (open_listener c p)
    (\<lambda>fd v. \<exists>s. 0 \<le> fd \<and> fd_at w fd = None \<and> fd_at v = (fd_at w)(fd \<mapsto> s) \<and>
       (s = Listening (Some p) \<or> s = Bound p \<and> \<not> listen_checked c))
    (\<lambda>k v. k = 1) w"
proof -
  let ?Q = "\<lambda>fd v. \<exists>s. 0 \<le> fd \<and> fd_at w fd = None \<and> fd_at v = (fd_at w)(fd \<mapsto> s) \<and>
       (s = Listening (Some p) \<or> s = Bound p \<and> \<not> listen_checked c)"
  let ?X = "\<lambda>k v. k = 1"
  have opt: "wp (if opt_set c then checked (opt_checked c) (sys_setsockopt fd) else ret 0) R ?X v"
    if "\<And>r u. fd_at u = fd_at v \<Longrightarrow> R r u" for fd R v
    using that by (auto intro!: wp_checked wp_setsockopt)
  have rest: "wp (bnd (checked (bind_checked c) (sys_bind fd p)) (\<lambda>_.
      bnd (checked (listen_checked c) (sys_listen fd)) (\<lambda>_. ret fd))) ?Q ?X v"
    if "fd < 0 \<or> 0 \<le> fd \<and> fd_at w fd = None \<and> fd_at v = (fd_at w)(fd \<mapsto> Unbound)" for fd v
    using that assms by (auto intro!: wp_checked wp_bind wp_listen)
  have all: "wp (bnd (if opt_set c then checked (opt_checked c) (sys_setsockopt fd) else ret 0) (\<lambda>_.
      bnd (checked (bind_checked c) (sys_bind fd p)) (\<lambda>_.
      bnd (checked (listen_checked c) (sys_listen fd)) (\<lambda>_. ret fd)))) ?Q ?X v"
    if "fd < 0 \<or> 0 \<le> fd \<and> fd_at w fd = None \<and> fd_at v = (fd_at w)(fd \<mapsto> Unbound)" for fd v
    by (rule wp_bnd [THEN iffD2], rule opt, rule rest) (use that in auto)
  show ?thesis
    unfolding open_listener_def
    by (rule wp_bnd [THEN iffD2], rule wp_checked, rule wp_socket) (use all in \<open>simp_all del: wp_bnd wp_if\<close>)
qed

text \<open>A connection that cannot be made leaves no descriptor.\<close>

definition connected :: "string list \<Rightarrow> int \<Rightarrow> world \<Rightarrow> int \<Rightarrow> world \<Rightarrow> bool" where
  "connected hs p w fd v \<longleftrightarrow>
     (if fd < 0 then fd_at v = fd_at w
      else fd_at w fd = None \<and> (\<exists>h \<in> set hs. fd_at v = (fd_at w)(fd \<mapsto> Dialed h p)))"

lemma dial_connected: "wp (dial h p) (connected [h] p w) (\<lambda>k v. False) w"
  unfolding dial_def
  by (auto simp: connected_def fun_upd_idem intro!: wp_socket wp_inet_pton wp_close wp_connect)

lemma dial_6_connected: "wp (dial_6 h p) (connected [h, ''0.0.0.0''] p w) (\<lambda>k v. False) w"
  unfolding dial_6_def
  by (auto simp: connected_def fun_upd_idem intro!: wp_socket wp_inet_pton wp_close wp_connect)

lemma dial_exercise_connected: "wp (dial_exercise h p) (connected [h, ''0.0.0.0''] p w) (\<lambda>k v. False) w"
  unfolding dial_exercise_def
  by (auto simp: connected_def fun_upd_idem intro!: wp_socket wp_inet_pton wp_close wp_connect)

end
