(* ===== verification/LB_Lessons.thy ===== *)
theory LB_Lessons
  imports Load_Balancer
begin

text \<open>
  The stages the load balancer was built in (\<open>5. load balancer/theories/lessons\<close>): the HTTP server of
  lesson 3, the proxy of lesson 4, the round robin of lesson 5 (and the exercise \<open>5/round_robin.c\<close> with
  its backend), and the health checks of lesson 6. The lemmas relate each stage to the next: lesson 6 is
  \<open>lb.c\<close> with a fixed configuration, lesson 5 is \<open>lb.c\<close> as long as every backend is healthy, lesson 4 is
  lesson 5 with a single backend.

  The network and the results of the sends are parameters as in \<open>Load_Balancer\<close>; relaying
  (\<open>pipe_until_eof\<close>, the sending loop) is the same text in all of these programs and is modelled there.
\<close>

section \<open>Lesson 3: one answer for all\<close>

definition hello_body :: string where
  "hello_body = ''Hello, World! (from the HTTP lesson)'' @ [LF]"

text \<open>What is passed to \<open>send\<close>, with the length \<open>snprintf\<close> returned, which is that of the whole text.\<close>

definition handle_3 :: "mem \<Rightarrow> string result" where
  "handle_3 req =
     (if req = [] then Inr []
      else
        let text =
              ''HTTP/1.1 200 OK'' @ [CR, LF] @ ''Content-Type: text/plain'' @ [CR, LF] @
              ''Content-Length: '' @ nat_str (length hello_body) @ [CR, LF] @ ''Connection: close'' @ [CR, LF] @
              [CR, LF] @ hello_body;
            len = length text
        in if len \<le> 512 then Inr (take len (snprintf 512 text @ [NUL])) else Inl OutOfBounds)"

section \<open>Lesson 4: one backend\<close>

definition msg_502_4 :: string where
  "msg_502_4 = ''HTTP/1.1 502 Bad Gateway'' @ [CR, LF] @ ''Content-Type: text/plain'' @ [CR, LF] @
     ''Content-Length: 16'' @ [CR, LF] @ ''Connection: close'' @ [CR, LF] @ [CR, LF] @ ''502 Bad Gateway'' @ [LF]"

definition handle_4 :: "network \<Rightarrow> (nat \<Rightarrow> int) \<Rightarrow> (nat \<Rightarrow> int) \<Rightarrow> mem \<Rightarrow> outcome" where
  "handle_4 dial wb wc req =
     (if req = [] then \<lparr>to_client = [], to_backend = None\<rparr>
      else
        case dial ''127.0.0.1'' 8081 of
          None \<Rightarrow> \<lparr>to_client = take (nat (wc 0)) msg_502_4, to_backend = None\<rparr>
        | Some peer \<Rightarrow>
            let (sent, _, done) = send_all wb 0 (take 8191 req) in
            \<lparr>to_client = (if done then pipe_until_eof wc 0 (peer sent) else []), to_backend = Some (0, sent)\<rparr>)"

section \<open>Lesson 5: round robin\<close>

type_synonym address = "string \<times> int"

definition backends_5 :: "address list" where
  "backends_5 = [(''127.0.0.1'', 8081), (''127.0.0.1'', 8082), (''127.0.0.1'', 8083)]"

definition handle_5 ::
  "address list \<Rightarrow> network \<Rightarrow> (nat \<Rightarrow> int) \<Rightarrow> (nat \<Rightarrow> int) \<Rightarrow> mem \<Rightarrow> nat \<Rightarrow> outcome" where
  "handle_5 bs dial wb wc req idx =
     (if req = [] then \<lparr>to_client = [], to_backend = None\<rparr>
      else
        case dial (fst (bs ! idx)) (snd (bs ! idx)) of
          None \<Rightarrow> \<lparr>to_client = send_502 wc, to_backend = None\<rparr>
        | Some peer \<Rightarrow>
            let (sent, _, done) = send_all wb 0 (take 8191 req) in
            \<lparr>to_client = (if done then pipe_until_eof wc 0 (peer sent) else []), to_backend = Some (idx, sent)\<rparr>)"

text \<open>The parent's loop over the connections: the rotation advances in the parent, also for a client that
  sends nothing. A connection is its request and the results of the sends.\<close>

type_synonym connection = "mem \<times> (nat \<Rightarrow> int) \<times> (nat \<Rightarrow> int)"

fun serve_5 :: "address list \<Rightarrow> network \<Rightarrow> connection list \<Rightarrow> nat \<Rightarrow> outcome list \<times> nat" where
  "serve_5 bs dial [] i = ([], i)"
| "serve_5 bs dial ((req, wb, wc) # cs) i =
     (let (idx, i') = next_backend (length bs) i;
          (os, j) = serve_5 bs dial cs i'
      in (handle_5 bs dial wb wc req idx # os, j))"

section \<open>The exercise of lesson 5\<close>

text \<open>
  One connection: \<open>printf\<close> reads the buffer as a string, which is indeterminate behind the \<open>n\<close> bytes that
  were read; the message is written with the size of its pointer; each block of the reply is written
  with a single call.
\<close>

definition rr_conn :: "address list \<Rightarrow> network \<Rightarrow> (nat \<Rightarrow> nat) \<Rightarrow> mem \<Rightarrow> nat \<Rightarrow> outcome result" where
  "rr_conn bs dial wc req idx =
     (case dial (fst (bs ! idx)) (snd (bs ! idx)) of
        None \<Rightarrow>
          Inr \<lparr>to_client = take 8 (''HTTP/1.1 502 Bad Gateway'' @ [CR, LF] @ ''Content-Length: 0'' @ [CR, LF, CR, LF]),
               to_backend = None\<rparr>
      | Some peer \<Rightarrow>
          let buffer = take 8192 req in
          if NUL \<notin> set buffer then Inl Uninit
          else Inr \<lparr>to_client = concat (map (\<lambda>(i, chunk). take (wc i) chunk) (zip [0..<length (peer buffer)] (takeWhile (\<lambda>c. c \<noteq> []) (peer buffer)))),
                    to_backend = Some (idx, buffer)\<rparr>)"

text \<open>The backend of the exercise prints what it read in the same way.\<close>

definition backend_5 :: "string \<Rightarrow> mem \<Rightarrow> string result" where
  "backend_5 name req =
     (if NUL \<notin> set (take 4096 req) then Inl Uninit
      else Inr (snprintf 512
        (''HTTP/1.1 200 OK'' @ [CR, LF] @ ''Content-Type: text/plain'' @ [CR, LF] @
         ''Content-Length: '' @ nat_str (length name + 1) @ [CR, LF] @ [CR, LF] @ name @ [LF])))"

section \<open>Lesson 6: health checks\<close>

record lb_6 =
  backends_6 :: "backend list"
  rr_6 :: nat

definition initial_6 :: lb_6 where
  "initial_6 = \<lparr>backends_6 = [\<lparr>host = ''127.0.0.1'', port = 8081, healthy = True\<rparr>,
     \<lparr>host = ''127.0.0.1'', port = 8082, healthy = True\<rparr>, \<lparr>host = ''127.0.0.1'', port = 8083, healthy = True\<rparr>], rr_6 = 0\<rparr>"

definition check_health_6 :: "network \<Rightarrow> string \<Rightarrow> int \<Rightarrow> bool" where
  "check_health_6 dial h p =
     (case dial h p of
        None \<Rightarrow> False
      | Some peer \<Rightarrow>
          let req = snprintf 256 (''GET /health HTTP/1.1'' @ [CR, LF] @ ''Host: '' @ h @ [CR, LF] @ ''Connection: close'' @ [CR, LF, CR, LF])
          in case peer req of
               [] \<Rightarrow> False
             | chunk # _ \<Rightarrow> if chunk = [] then False else strstr (cstr (take 255 chunk)) '' 200 '' \<noteq> None)"

definition health_round_6 :: "network \<Rightarrow> lb_6 \<Rightarrow> lb_6" where
  "health_round_6 dial s =
     foldl (\<lambda>s i. let b = backends_6 s ! i; up = check_health_6 dial (host b) (port b)
                  in s\<lparr>backends_6 := (backends_6 s)[i := b\<lparr>healthy := up\<rparr>]\<rparr>) s [0..<length (backends_6 s)]"

fun pick_loop_6 :: "nat \<Rightarrow> lb_6 \<Rightarrow> nat option \<times> lb_6" where
  "pick_loop_6 0 s = (None, s)"
| "pick_loop_6 (Suc t) s =
     (let cand = rr_6 s; s' = s\<lparr>rr_6 := (rr_6 s + 1) mod length (backends_6 s)\<rparr> in
      if healthy (backends_6 s ! cand) then (Some cand, s') else pick_loop_6 t s')"

definition pick_healthy_6 :: "lb_6 \<Rightarrow> nat option \<times> lb_6" where
  "pick_healthy_6 s = pick_loop_6 (length (backends_6 s)) s"

definition handle_6 :: "network \<Rightarrow> (nat \<Rightarrow> int) \<Rightarrow> (nat \<Rightarrow> int) \<Rightarrow> mem \<Rightarrow> lb_6 \<Rightarrow> outcome \<times> lb_6" where
  "handle_6 dial wb wc req s =
     (if req = [] then (\<lparr>to_client = [], to_backend = None\<rparr>, s)
      else
        let (idx, s') = pick_healthy_6 s in
        case idx of
          None \<Rightarrow> (\<lparr>to_client = send_502 wc, to_backend = None\<rparr>, s')
        | Some c \<Rightarrow>
            (case dial (host (backends_6 s ! c)) (port (backends_6 s ! c)) of
               None \<Rightarrow> (\<lparr>to_client = send_502 wc, to_backend = None\<rparr>, s')
             | Some peer \<Rightarrow>
                 let (sent, _, done) = send_all wb 0 (take 8191 req) in
                 (\<lparr>to_client = (if done then pipe_until_eof wc 0 (peer sent) else []),
                   to_backend = Some (c, sent)\<rparr>, s')))"

section \<open>Runs of events\<close>

text \<open>Clients and health rounds in any order; the network may change between two events.\<close>

datatype event = Client network "nat \<Rightarrow> int" "nat \<Rightarrow> int" mem | Health network

fun run_lb :: "event list \<Rightarrow> lb \<Rightarrow> outcome list \<times> lb" where
  "run_lb [] s = ([], s)"
| "run_lb (Client dial wb wc req # es) s =
     (let (r, s') = handle dial wb wc req s; (os, s'') = run_lb es s' in (r # os, s''))"
| "run_lb (Health dial # es) s = run_lb es (health_round dial s)"

fun run_6 :: "event list \<Rightarrow> lb_6 \<Rightarrow> outcome list \<times> lb_6" where
  "run_6 [] s = ([], s)"
| "run_6 (Client dial wb wc req # es) s =
     (let (r, s') = handle_6 dial wb wc req s; (os, s'') = run_6 es s' in (r # os, s''))"
| "run_6 (Health dial # es) s = run_6 es (health_round_6 dial s)"

text \<open>The state of \<open>lb.c\<close> that a state of lesson 6 stands for, when \<open>lb\<close> was started without \<open>-h\<close>.\<close>

definition lift_6 :: "int \<Rightarrow> lb_6 \<Rightarrow> lb" where
  "lift_6 period s = \<lparr>backends = backends_6 s, rr = rr_6 s, health_path = ''/health'', health_period = period\<rparr>"

lemma lift_6_simps [simp]:
  "backends (lift_6 p s) = backends_6 s" "rr (lift_6 p s) = rr_6 s" "health_path (lift_6 p s) = ''/health''"
  by (simp_all add: lift_6_def)

lemma pick_loop_lift:
  "pick_loop t (lift_6 p s) = map_prod id (lift_6 p) (pick_loop_6 t s)"
proof (induction t arbitrary: s)
  case (Suc t)
  have "(lift_6 p s)\<lparr>rr := x\<rparr> = lift_6 p (s\<lparr>rr_6 := x\<rparr>)" for x by (simp add: lift_6_def)
  with Suc show ?case by (simp add: Let_def)
qed simp

lemma handle_lift: "handle dial wb wc req (lift_6 p s) = map_prod id (lift_6 p) (handle_6 dial wb wc req s)"
  by (simp add: handle_def handle_6_def pick_healthy_def pick_healthy_6_def pick_loop_lift split_beta Let_def
      split: option.splits)

lemma check_health_lift:
  "length (host b) \<le> 63 \<Longrightarrow> check_health dial ''/health'' b = check_health_6 dial (host b) (port b)"
  by (simp add: check_health_def check_health_6_def health_request_def snprintf_def Let_def split: option.splits list.splits)

definition short_hosts :: "lb_6 \<Rightarrow> bool" where
  "short_hosts s \<longleftrightarrow> (\<forall>b \<in> set (backends_6 s). length (host b) \<le> 63)"

lemma health_round_lift:
  assumes "short_hosts s"
  shows "health_round dial (lift_6 p s) = lift_6 p (health_round_6 dial s) \<and> short_hosts (health_round_6 dial s)"
proof -
  let ?f = "\<lambda>s i. set_health i (check_health dial (health_path s) (backends s ! i)) s"
  let ?g = "\<lambda>s i. let b = backends_6 s ! i; up = check_health_6 dial (host b) (port b)
                  in s\<lparr>backends_6 := (backends_6 s)[i := b\<lparr>healthy := up\<rparr>]\<rparr>"
  have "foldl ?f (lift_6 p s) is = lift_6 p (foldl ?g s is) \<and> short_hosts (foldl ?g s is)"
    if "short_hosts s" "\<forall>i \<in> set is. i < length (backends_6 s)" for s "is"
    using that
  proof (induction "is" arbitrary: s)
    case (Cons i "is")
    let ?b = "backends_6 s ! i"
    have b: "length (host ?b) \<le> 63" using Cons.prems by (simp add: short_hosts_def)
    have step: "?f (lift_6 p s) i = lift_6 p (?g s i)"
      using check_health_lift [OF b, of dial] by (simp add: set_health_def lift_6_def Let_def)
    have "short_hosts (?g s i)"
      using Cons.prems(1) b by (auto simp: short_hosts_def Let_def dest!: set_update_subset_insert [THEN subsetD])
    moreover have "\<forall>j \<in> set is. j < length (backends_6 (?g s i))" using Cons.prems(2) by (simp add: Let_def)
    ultimately show ?case using Cons.IH [of "?g s i"] step by simp
  qed simp
  from this [of s "[0..<length (backends_6 s)]"] show ?thesis
    using assms by (simp add: health_round_def health_round_6_def)
qed

lemma handle_6_hosts: "short_hosts s \<Longrightarrow> short_hosts (snd (handle_6 dial wb wc req s))"
proof -
  have "backends_6 (snd (pick_loop_6 t s)) = backends_6 s" for t s
    by (induction t arbitrary: s) (simp_all add: Let_def)
  then show "short_hosts s \<Longrightarrow> short_hosts (snd (handle_6 dial wb wc req s))"
    by (simp add: handle_6_def pick_healthy_6_def short_hosts_def split_beta Let_def split: option.splits)
qed

lemma run_lift: "short_hosts s \<Longrightarrow> run_lb es (lift_6 p s) = map_prod id (lift_6 p) (run_6 es s)"
proof (induction es arbitrary: s)
  case (Cons e es)
  show ?case
  proof (cases e)
    case (Client dial wb wc req)
    then show ?thesis
      using Cons.IH [OF handle_6_hosts [OF Cons.prems, of dial wb wc req]] by (simp add: handle_lift split_beta Let_def)
  next
    case (Health dial)
    then show ?thesis using Cons health_round_lift [OF Cons.prems, of dial p] by simp
  qed
qed simp

section \<open>Properties\<close>

lemma config_three:
  "lb_config [(CHR ''b'', ''127.0.0.1:8081''), (CHR ''b'', ''127.0.0.1:8082''), (CHR ''b'', ''127.0.0.1:8083''), (CHR ''t'', ''2'')] =
     Some (8080, \<lparr>backends = backends_6 initial_6, rr = 0, health_path = ''/health'', health_period = 2\<rparr>)"
  unfolding initial_6_def by code_simp

text \<open>C19: Lesson 6 is \<open>lb.c\<close> started with its three backends: on every sequence of clients and health
  rounds, over every network, both relay the same bytes between the same peers and end in the same
  state.\<close>

theorem lesson6_equals_lb:
  "lb_config [(CHR ''b'', ''127.0.0.1:8081''), (CHR ''b'', ''127.0.0.1:8082''), (CHR ''b'', ''127.0.0.1:8083''), (CHR ''t'', ''2'')] =
     Some (8080, lift_6 2 initial_6) \<and>
   run_lb es (lift_6 2 initial_6) = map_prod id (lift_6 2) (run_6 es initial_6)"
proof
  have "short_hosts initial_6" by (simp add: short_hosts_def initial_6_def)
  then show "run_lb es (lift_6 2 initial_6) = map_prod id (lift_6 2) (run_6 es initial_6)" by (rule run_lift)
  have "rr_6 initial_6 = 0" by (simp add: initial_6_def)
  then show "lb_config [(CHR ''b'', ''127.0.0.1:8081''), (CHR ''b'', ''127.0.0.1:8082''), (CHR ''b'', ''127.0.0.1:8083''), (CHR ''t'', ''2'')] =
     Some (8080, lift_6 2 initial_6)"
    by (simp only: config_three lift_6_def)
qed

definition addresses :: "lb \<Rightarrow> address list" where
  "addresses s = map (\<lambda>b. (host b, port b)) (backends s)"

fun client_event :: "network \<Rightarrow> connection \<Rightarrow> event" where
  "client_event dial (req, wb, wc) = Client dial wb wc req"

text \<open>Lesson 5 is \<open>lb.c\<close> as long as all backends are healthy: every sequence of clients that send
  something is given the same backends and the same bytes, and the cursors agree afterwards.\<close>

lemma lesson5_equals_lb:
  assumes "backends s \<noteq> []" and "rr s < length (backends s)" and "list_all healthy (backends s)"
    and "list_all (\<lambda>(req, _, _). req \<noteq> []) cs" and "serve_5 (addresses s) dial cs (rr s) = (os, j)"
  shows "run_lb (map (client_event dial) cs) s = (os, s\<lparr>rr := j\<rparr>)"
  using assms
proof (induction cs arbitrary: s os)
  case (Cons c cs)
  obtain req wb wc where c: "c = (req, wb, wc)" by (cases c)
  let ?n = "length (backends s)" and ?s = "s\<lparr>rr := (rr s + 1) mod length (backends s)\<rparr>"
  obtain os' where os': "serve_5 (addresses ?s) dial cs (rr ?s) = (os', j)"
    "os = handle_5 (addresses s) dial wb wc req (rr s) # os'"
    using Cons.prems(5) by (auto simp: c next_backend_def Let_def addresses_def split: prod.splits)
  have "pick_healthy s = (Some (rr s), ?s)"
    using pick_all_healthy Cons.prems by (simp add: list_all_iff)
  then have "handle dial wb wc req s = (handle_5 (addresses s) dial wb wc req (rr s), ?s)"
    using Cons.prems(2,4) by (simp add: c handle_def handle_5_def addresses_def split_beta Let_def split: option.splits)
  moreover have "run_lb (map (client_event dial) cs) ?s = (os', ?s\<lparr>rr := j\<rparr>)"
    using Cons.prems os'(1) by (intro Cons.IH) auto
  ultimately show ?case by (simp add: c os')
qed simp

lemma lesson5_equals_lb_instance:
  "map to_backend (fst (run_lb (map (client_event (\<lambda>h p. Some (backend_handle ''A''))) (replicate 4 (''GET /'', \<lambda>_. 9, \<lambda>_. 9)))
      (initial\<lparr>backends := [\<lparr>host = ''h'', port = 81, healthy = True\<rparr>, \<lparr>host = ''h'', port = 82, healthy = True\<rparr>]\<rparr>))) =
   map (\<lambda>i. Some (i, ''GET /'')) [0, 1, 0, 1]"
proof -
  let ?s = "initial\<lparr>backends := [\<lparr>host = ''h'', port = 81, healthy = True\<rparr>, \<lparr>host = ''h'', port = 82, healthy = True\<rparr>]\<rparr>"
  let ?d = "\<lambda>h p. Some (backend_handle ''A'')"
  let ?cs = "replicate 4 (''GET /'', \<lambda>_. 9, \<lambda>_. 9) :: connection list"
  obtain os j where r: "serve_5 (addresses ?s) ?d ?cs (rr ?s) = (os, j)" by fastforce
  have s: "\<exists>k. send_all (\<lambda>_. 9) 0 ''GET /'' = (''GET /'', k, True)" by (rule send_all_complete) simp
  have "map to_backend os = map (\<lambda>i. Some (i, ''GET /'')) [0, 1, 0, 1]"
    using r s by (auto simp: numeral_eq_Suc next_backend_def addresses_def initial_def handle_5_def Let_def)
  moreover have "run_lb (map (client_event ?d) ?cs) ?s = (os, ?s\<lparr>rr := j\<rparr>)"
    by (rule lesson5_equals_lb [OF _ _ _ _ r]) (simp_all add: initial_def numeral_eq_Suc)
  ultimately show ?thesis by simp
qed

text \<open>Lesson 4 is lesson 5 with one backend, but for the text of its 502.\<close>

lemma lesson4_one_backend:
  "dial ''127.0.0.1'' 8081 \<noteq> None \<Longrightarrow> handle_4 dial wb wc req = handle_5 [(''127.0.0.1'', 8081)] dial wb wc req 0"
  by (auto simp: handle_4_def handle_5_def)

text \<open>A client that connects and sends nothing still turns the rotation of lesson 5, but not that of \<open>lb.c\<close>.\<close>

lemma silent_client_rotates:
  "snd (serve_5 bs dial [([], wb, wc)] 0) = 1 mod length bs" "snd (handle dial wb wc [] s) = s"
  by (simp_all add: next_backend_def handle_def)

text \<open>The answer of lesson 3 fits its buffer and states the length of its body.\<close>

lemma handle_3_exact:
  "req \<noteq> [] \<Longrightarrow> handle_3 req = Inr (''HTTP/1.1 200 OK'' @ [CR, LF] @ ''Content-Type: text/plain'' @ [CR, LF] @
     ''Content-Length: 37'' @ [CR, LF] @ ''Connection: close'' @ [CR, LF] @ [CR, LF] @ hello_body)"
proof -
  have n: "nat_str (length hello_body) = ''37''" by code_simp
  have l: "length hello_body = 37" by (simp add: hello_body_def)
  assume "req \<noteq> []"
  then show ?thesis by (simp add: handle_3_def snprintf_def Let_def n) (simp add: l)
qed

text \<open>The exercise prints an unterminated buffer for every request that holds no zero byte.\<close>

lemma rr_conn_unterminated:
  "NUL \<notin> set req \<Longrightarrow> dial (fst (bs ! i)) (snd (bs ! i)) = Some peer \<Longrightarrow> rr_conn bs dial wc req i = Inl Uninit"
  by (auto simp: rr_conn_def Let_def dest: in_set_takeD)

end
