(* ===== verification/Web_Server.thy ===== *)
theory Web_Server
  imports CLib
begin

text \<open>
  The web server (\<open>11. web server/web_server.c\<close>): reading the head of a request line by line, the path
  of the request line, and the answer. Sockets are left out: a connection is the bytes its client sends
  before the end of the stream, and the reply is what is passed to \<open>write\<close>. The server ends with a
  fault, or with the \<open>exit\<close> of an invalid request line, which ends it for all connections.
\<close>

section \<open>Reading a request\<close>

text \<open>\<open>sscanf(line, "%15s %255s %15s", ...)\<close>: the path, when all three words are there.\<close>

definition scan_request :: "string \<Rightarrow> string option" where
  "scan_request s =
     (let (method, r1) = scan_word 15 s; (path, r2) = scan_word 255 r1; (version, r3) = scan_word 15 r2
      in if method \<noteq> [] \<and> path \<noteq> [] \<and> version \<noteq> [] then Some path else None)"

text \<open>The loop over the lines; \<open>path\<close> is indeterminate until the first line has been read.\<close>

fun read_head :: "bool \<Rightarrow> string option \<Rightarrow> mem list \<Rightarrow> string option result" where
  "read_head first_line path [] = Inr path"
| "read_head first_line path (l # ls) =
     (if cstr l = [CR, LF] then Inr path
      else if first_line then
        (case scan_request (cstr l) of
           None \<Rightarrow> Inl (Exited 1)
         | Some p \<Rightarrow> read_head False (Some p) ls)
      else read_head False path ls)"

definition response :: "string \<Rightarrow> string" where
  "response path =
     (let body = snprintf 1024 (''Requested path: '' @ path)
      in snprintf 2048
           (''HTTP/1.1 200 OK'' @ [CR, LF] @ ''Content-Type: text/plain'' @ [CR, LF] @
            ''Content-Length: '' @ nat_str (length body) @ [CR, LF] @ [CR, LF] @ body))"

text \<open>One connection.\<close>

definition serve_conn :: "mem \<Rightarrow> string result" where
  "serve_conn inp =
     ebind (read_head True None (fgets_all 1024 inp)) (\<lambda>p. ebind (read_init Uninit p) (\<lambda>path. Inr (response path)))"

text \<open>The replies to a sequence of connections, and what ended the server, if anything did.\<close>

fun serve :: "mem list \<Rightarrow> string list \<times> cfault option" where
  "serve [] = ([], None)"
| "serve (c # cs) =
     (case serve_conn c of
        Inl e \<Rightarrow> ([], Some e)
      | Inr r \<Rightarrow> let (rs, e) = serve cs in (r # rs, e))"

section \<open>Well-formed requests\<close>

record http_request =
  http_method :: string
  http_path :: string
  http_version :: string
  http_headers :: "string list"
  http_rest :: mem

definition token :: "nat \<Rightarrow> string \<Rightarrow> bool" where
  "token n w \<longleftrightarrow> w \<noteq> [] \<and> length w \<le> n \<and> list_all (\<lambda>c. \<not> isspace c \<and> c \<noteq> NUL) w"

definition request_ok :: "http_request \<Rightarrow> bool" where
  "request_ok r \<longleftrightarrow> token 15 (http_method r) \<and> token 255 (http_path r) \<and> token 15 (http_version r) \<and>
     plain_lines 1023 (http_headers r) \<and> [] \<notin> set (http_headers r)"

definition request_line :: "http_request \<Rightarrow> string" where
  "request_line r = http_method r @ SP # http_path r @ SP # http_version r @ [CR]"

definition request_text :: "http_request \<Rightarrow> mem" where
  "request_text r =
     text_of (request_line r # map (\<lambda>h. h @ [CR]) (http_headers r) @ [[CR]]) @ http_rest r"

definition exact_reply :: "string \<Rightarrow> string" where
  "exact_reply path =
     ''HTTP/1.1 200 OK'' @ [CR, LF] @ ''Content-Type: text/plain'' @ [CR, LF] @
     ''Content-Length: '' @ nat_str (16 + length path) @ [CR, LF] @ [CR, LF] @ ''Requested path: '' @ path"

lemma scan_word_token:
  assumes "token n w" and "isspace c"
  shows "scan_word n (w @ c # r) = (w, c # r)" and "scan_word n (SP # w @ c # r) = (w, c # r)"
proof -
  obtain x y where w: "w = x # y" "\<not> isspace x" using assms(1) by (cases w) (auto simp: token_def)
  have "takeWhile (\<lambda>c. \<not> isspace c) (w @ c # r) = w"
    by (rule takeWhile_append_stop) (use assms in \<open>auto simp: token_def list_all_iff\<close>)
  moreover have "dropWhile isspace (w @ c # r) = w @ c # r" using w by simp
  moreover have "isspace SP" by (simp add: isspace_def)
  then have "dropWhile isspace (SP # w @ c # r) = w @ c # r" using w by simp
  moreover have "take n w = w" using assms(1) by (simp add: token_def)
  ultimately show "scan_word n (w @ c # r) = (w, c # r)" "scan_word n (SP # w @ c # r) = (w, c # r)"
    by (simp_all only: scan_word_def Let_def append_eq_conv_conj append_take_drop_id) simp_all
qed

lemma isspace_LF: "isspace LF" "isspace CR" "isspace SP"
  by (simp_all add: isspace_def)

lemma token_chars: "token n w \<Longrightarrow> c \<in> set w \<Longrightarrow> \<not> isspace c \<and> c \<noteq> NUL \<and> c \<noteq> LF"
  using isspace_LF by (fastforce simp: token_def list_all_iff)

lemma scan_request_line:
  assumes "request_ok r"
  shows "scan_request (request_line r @ [LF]) = Some (http_path r)"
proof -
  have t: "token 15 (http_method r)" "token 255 (http_path r)" "token 15 (http_version r)"
    using assms by (auto simp: request_ok_def)
  have s: "isspace SP" "isspace CR" by (simp_all add: isspace_def)
  show ?thesis
    using t by (simp add: scan_request_def request_line_def scan_word_token [OF _ s(1)] scan_word_token [OF _ s(2)])
       (auto simp: token_def)
qed

lemma read_head_headers:
  "\<forall>h \<in> set hs. NUL \<notin> set h \<and> h \<noteq> [] \<and> LF \<notin> set h \<Longrightarrow>
     read_head False p (map (\<lambda>h. h @ [CR, LF]) hs @ [CR, LF] # ls) = Inr p"
  by (induction hs) (auto simp: cstr_id is_cstr_def append_eq_Cons_conv Cons_eq_append_conv)

lemma serve_request:
  assumes r: "request_ok r"
  shows "serve_conn (request_text r) = Inr (response (http_path r))"
proof -
  have t: "token 15 (http_method r)" "token 255 (http_path r)" "token 15 (http_version r)"
    and h: "plain_lines 1023 (http_headers r)" "[] \<notin> set (http_headers r)"
    using r by (auto simp: request_ok_def)
  have line: "LF \<notin> set (request_line r)" "NUL \<notin> set (request_line r)" "length (request_line r) + 1 < 1024"
    using t token_chars [OF t(1)] token_chars [OF t(2)] token_chars [OF t(3)]
    by (auto simp: request_line_def token_def)
  let ?ls = "request_line r # map (\<lambda>h. h @ [CR]) (http_headers r) @ [[CR]]"
  have "plain_lines 1024 ?ls" using line h(1) by (auto simp: plain_lines_def)
  then have "fgets_all 1024 (request_text r) =
      (request_line r @ [LF]) # map (\<lambda>h. h @ [CR, LF]) (http_headers r) @ [CR, LF] # fgets_all 1024 (http_rest r)"
    by (simp add: request_text_def fgets_all_text_append full_lines_def)
  moreover have "cstr (request_line r @ [LF]) = request_line r @ [LF]" by (rule cstr_line [OF line(2)])
  moreover have "request_line r @ [LF] \<noteq> [CR, LF]" by (simp add: request_line_def)
  moreover have "read_head False (Some (http_path r)) (map (\<lambda>h. h @ [CR, LF]) (http_headers r) @ [CR, LF] # ls) =
      Inr (Some (http_path r))" for ls
    by (rule read_head_headers) (use h in \<open>auto simp: plain_lines_def\<close>)
  ultimately show ?thesis by (simp add: serve_conn_def scan_request_line [OF r])
qed

lemma response_exact: "length path \<le> 255 \<Longrightarrow> response path = exact_reply path"
proof -
  assume p: "length path \<le> 255"
  have b: "snprintf 1024 (''Requested path: '' @ path) = ''Requested path: '' @ path"
    using p by (simp add: snprintf_def)
  have l: "length (''Requested path: '' @ path) = 16 + length path" by simp
  have "length (nat_str (16 + length path)) \<le> 3" using length_nat_str [of "16 + length path" 2] p by simp
  then have "length (exact_reply path) \<le> 2047" using p by (simp add: exact_reply_def del: add_2_eq_Suc' numeral_plus_one)
  then have "snprintf 2048 (exact_reply path) = exact_reply path" by (simp add: snprintf_def)
  then show ?thesis unfolding response_def Let_def b l by (simp only: exact_reply_def)
qed

text \<open>C28: Every sequence of well-formed requests is answered, one after the other, each with its path and
  with the exact length of the body: no buffer ever cuts a reply.\<close>

theorem web_answers_requests:
  assumes "list_all request_ok rs"
  shows "serve (map request_text rs) = (map (\<lambda>r. exact_reply (http_path r)) rs, None)"
  using assms
proof (induction rs)
  case (Cons r rs)
  then have "length (http_path r) \<le> 255" by (simp add: request_ok_def token_def)
  with Cons show ?case by (simp add: serve_request response_exact)
qed simp

theorem web_answers_requests_witness:
  "serve [''GET /a HTTP/1.1'' @ [CR, LF] @ ''Host: x'' @ [CR, LF, CR, LF]] = ([exact_reply ''/a''], None)"
  using web_answers_requests [of "[\<lparr>http_method = ''GET'', http_path = ''/a'', http_version = ''HTTP/1.1'',
      http_headers = [''Host: x''], http_rest = []\<rparr>]"]
  by (simp add: request_ok_def token_def isspace_def plain_lines_def request_text_def request_line_def text_of_def)

section \<open>Where the server fails\<close>

text \<open>A first line with fewer than three words ends the server, and the connections behind it get nothing.\<close>

lemma bad_request_exits:
  assumes "scan_request (cstr l) = None" and "cstr l \<noteq> [CR, LF]" and "fgets_all 1024 c = l # ls"
  shows "serve (c # cs) = ([], Some (Exited 1))"
  using assms by (simp add: serve_conn_def)

text \<open>A client that closes without a byte makes the server use a path that was never set.\<close>

lemma silent_client_faults: "serve ([] # cs) = ([], Some Uninit)"
  by (simp add: serve_conn_def)

end
