(* ===== verification/Servers.thy ===== *)
theory Servers
  imports Sockets LB_Lessons Web_Server
begin

text \<open>
  The main programs of the servers under \<open>5. load balancer/theories\<close>, and the part of the Redis server that
  accepts its clients: how each opens its socket and what it does with every connection, down to the calls and the
  descriptors. What is sent back is computed by the functions of \<open>Load_Balancer\<close> and \<open>LB_Lessons\<close>.

  Three ways to serve: one client after the other, a child process per client (\<open>fork_server\<close>), a thread per
  client (\<open>thread_step\<close>). A handler keeps the contract of the locale \<open>connection_handler\<close> or
  \<open>connection_worker\<close>, from which the server loses no descriptor whatever the kernel answers.
\<close>

section \<open>The loop of a server\<close>

text \<open>The first \<open>n\<close> rounds of \<open>while (1)\<close>; \<open>s\<close> are the variables that live from round to round.\<close>

fun rounds :: "nat \<Rightarrow> ('s \<Rightarrow> 's prog) \<Rightarrow> 's \<Rightarrow> 's prog" where
  "rounds 0 body s = ret s"
| "rounds (Suc n) body s = bnd (body s) (rounds n body)"

lemma wp_rounds:
  assumes "I s w" and "\<And>s w. I s w \<Longrightarrow> wp (body s) I X w"
  shows "wp (rounds n body s) I X w"
  using assms(1)
proof (induction n arbitrary: s w)
  case (Suc n)
  have "wp (body s) (\<lambda>s' v. wp (rounds n body s') I X v) X w"
    by (rule wp_mono [OF assms(2) [OF Suc.prems]]) (rule Suc.IH)
  then show ?case by simp
qed simp

section \<open>One client after the other\<close>

definition hello_loop :: string where
  "hello_loop = ''Hello from looping server''"

definition lesson1_body :: "int \<Rightarrow> unit \<Rightarrow> unit prog" where
  "lesson1_body server_fd u =
     bnd (sys_accept server_fd) (\<lambda>conn.
     if conn < 0 then ret ()
     else bnd (sys_read conn 1023) (\<lambda>_. bnd (sys_send conn hello_loop) (\<lambda>_. sys_close conn)))"

definition lesson1_main :: "nat \<Rightarrow> unit prog" where
  "lesson1_main n = bnd (open_listener all_checked 8080) (\<lambda>server_fd. rounds n (lesson1_body server_fd) ())"

text \<open>\<open>socket/server.c\<close> serves one client. Its buffer of 1024 bytes may be filled by the read and is then printed as a string.\<close>

definition printed_buffer :: "mem \<Rightarrow> unit prog" where
  "printed_buffer buf = (if NUL \<in> set buf then ret () else prog_fault OutOfBounds)"

definition server_main :: "unit prog" where
  "server_main =
     bnd (open_listener checks_server 8080) (\<lambda>server_fd.
     bnd (checked True (sys_accept server_fd)) (\<lambda>new_socket.
     bnd (sys_read new_socket 1024) (\<lambda>(n, b).
     bnd (printed_buffer (b @ replicate (1024 - length b) NUL)) (\<lambda>_.
     bnd (sys_send new_socket ''Hello from server'') (\<lambda>_.
     bnd (sys_close new_socket) (\<lambda>_.
     bnd (sys_close server_fd) (\<lambda>_. prog_exit 0)))))))"

text \<open>A thread of \<open>socket/client.c\<close>, which looks at no result.\<close>

definition client_worker :: "nat \<Rightarrow> unit prog" where
  "client_worker i =
     bnd sys_socket (\<lambda>sock.
     bnd sys_inet_pton (\<lambda>_.
     bnd (sys_connect sock ''127.0.0.1'' 8080) (\<lambda>_.
     bnd (sys_send sock (''Hello from thread '' @ nat_str i)) (\<lambda>_.
     bnd (sys_read sock 1024) (\<lambda>(n, b).
     bnd (printed_buffer (b @ replicate (1024 - length b) NUL)) (\<lambda>_. sys_close sock))))))"

section \<open>A process per client\<close>

definition fork_body :: "('s \<Rightarrow> int \<Rightarrow> unit prog) \<Rightarrow> ('s \<Rightarrow> 's) \<Rightarrow> int \<Rightarrow> 's \<Rightarrow> 's prog" where
  "fork_body handler advance server_fd s =
     bnd (sys_accept server_fd) (\<lambda>conn.
     if conn < 0 then ret s
     else bnd sys_fork (\<lambda>pid.
       if pid = 0
       then bnd (sys_close server_fd) (\<lambda>_. bnd (handler s conn) (\<lambda>_. bnd (sys_close conn) (\<lambda>_. prog_exit 0)))
       else bnd (sys_close conn) (\<lambda>_. ret (advance s))))"

definition fork_server :: "checks \<Rightarrow> int \<Rightarrow> ('s \<Rightarrow> int \<Rightarrow> unit prog) \<Rightarrow> ('s \<Rightarrow> 's) \<Rightarrow> 's \<Rightarrow> nat \<Rightarrow> 's prog" where
  "fork_server c p handler advance s n =
     bnd (open_listener c p) (\<lambda>server_fd. rounds n (fork_body handler advance server_fd) s)"

definition handle_2 :: "int \<Rightarrow> unit prog" where
  "handle_2 conn =
     bnd (sys_read conn 1023) (\<lambda>_. bnd (sys_send conn (''Hello from a concurrent worker'' @ [LF])) (\<lambda>_. ret ()))"

definition handle_3_conn :: "int \<Rightarrow> unit prog" where
  "handle_3_conn conn =
     bnd (sys_read conn 4095) (\<lambda>(n, b).
     if n \<le> 0 then ret ()
     else case handle_3 b of Inl e \<Rightarrow> prog_fault e | Inr resp \<Rightarrow> bnd (sys_send conn resp) (\<lambda>_. ret ()))"

text \<open>The proxies of lessons 4 and 5 once they know their backend.\<close>

definition proxy_conn :: "int prog \<Rightarrow> string \<Rightarrow> int \<Rightarrow> unit prog" where
  "proxy_conn connect msg conn =
     bnd (sys_read conn 8191) (\<lambda>(reqlen, req).
     if reqlen \<le> 0 then ret ()
     else bnd connect (\<lambda>back.
       if back < 0 then bnd (sys_send conn msg) (\<lambda>_. ret ())
       else bnd (send_loop back req) (\<lambda>done.
         if \<not> done then sys_close back
         else bnd (relay back conn) (\<lambda>_. sys_close back))))"

definition handle_4_conn :: "int \<Rightarrow> unit prog" where
  "handle_4_conn = proxy_conn (dial ''127.0.0.1'' 8081) msg_502_4"

definition handle_5_conn :: "address list \<Rightarrow> nat \<Rightarrow> int \<Rightarrow> unit prog" where
  "handle_5_conn bs idx = proxy_conn (dial_6 (fst (bs ! idx)) (snd (bs ! idx))) msg_502"

definition backend_conn :: "string \<Rightarrow> int \<Rightarrow> unit prog" where
  "backend_conn g_name conn =
     bnd (sys_read conn 2047) (\<lambda>(n, b).
     if n \<le> 0 then ret () else bnd (sys_send conn (concat (backend_handle g_name b))) (\<lambda>_. ret ()))"

text \<open>The main functions.\<close>

definition lesson2_main :: "nat \<Rightarrow> unit prog" where
  "lesson2_main = fork_server checks_lesson2 8080 (\<lambda>_. handle_2) id ()"

definition lesson3_main :: "nat \<Rightarrow> unit prog" where
  "lesson3_main = fork_server checks_lesson2 8080 (\<lambda>_. handle_3_conn) id ()"

definition lesson4_main :: "nat \<Rightarrow> unit prog" where
  "lesson4_main = fork_server checks_lesson4 8080 (\<lambda>_. handle_4_conn) id ()"

definition lesson5_main :: "nat \<Rightarrow> nat prog" where
  "lesson5_main =
     fork_server checks_lesson4 8080 (handle_5_conn backends_5) (\<lambda>i. snd (next_backend (length backends_5) i)) 0"

definition backend_main :: "string list \<Rightarrow> nat \<Rightarrow> unit prog" where
  "backend_main argv n =
     (if length argv < 3 then prog_exit 1
      else fork_server checks_lesson4 (atoi (argv ! 1)) (\<lambda>_. backend_conn (argv ! 2)) id () n)"

section \<open>A thread per client\<close>

text \<open>The main thread: it hands an accepted connection to a new thread (\<open>Some\<close>), or closes it.\<close>

definition accept_client :: "int \<Rightarrow> int option prog" where
  "accept_client server_fd =
     bnd (sys_accept server_fd) (\<lambda>conn.
     if conn < 0 then ret None
     else bnd sys_malloc (\<lambda>_. bnd sys_thread (\<lambda>created.
       if created then ret (Some conn) else bnd (sys_close conn) (\<lambda>_. ret None))))"

text \<open>\<open>handle\<close> of \<open>lb.c\<close> and of lesson 6; \<open>picked\<close> is the backend that \<open>pick_healthy\<close> returned.\<close>

definition lb_worker :: "(string \<Rightarrow> int \<Rightarrow> int prog) \<Rightarrow> (string \<times> int) option \<Rightarrow> int \<Rightarrow> unit prog" where
  "lb_worker connect picked conn =
     bnd (sys_read conn 8191) (\<lambda>(reqlen, req).
     if reqlen \<le> 0 then sys_close conn
     else
       case picked of
         None \<Rightarrow> bnd (sys_send conn msg_502) (\<lambda>_. sys_close conn)
       | Some (h, p) \<Rightarrow>
           bnd (connect h p) (\<lambda>back.
           if back < 0 then bnd (sys_send conn msg_502) (\<lambda>_. sys_close conn)
           else bnd (send_loop back req) (\<lambda>done.
             if \<not> done then bnd (sys_close back) (\<lambda>_. sys_close conn)
             else bnd (relay back conn) (\<lambda>_. bnd (sys_close back) (\<lambda>_. sys_close conn)))))"

text \<open>\<open>handle_client\<close> of the Redis server detaches the thread whose id it was not given when the creation failed.\<close>

definition redis_accept :: "int \<Rightarrow> int option prog" where
  "redis_accept server_fd =
     bnd (sys_accept server_fd) (\<lambda>conn.
     if conn < 0 then ret None
     else bnd sys_thread (\<lambda>created.
       if created then ret (Some conn) else bnd (sys_close conn) (\<lambda>_. prog_fault Uninit)))"

text \<open>\<open>per_client\<close>, with the reply of \<open>exec_command\<close> to what was read as a parameter.\<close>

function redis_session :: "(mem \<Rightarrow> string) \<Rightarrow> int \<Rightarrow> unit prog" where
  "redis_session exec conn w =
     (case sys_read conn 1023 w of
        Returned (n, b) w1 \<Rightarrow>
          if n \<le> 0 then Returned () w1
          else
            (case sys_send conn (exec b) w1 of
               Returned k w2 \<Rightarrow> redis_session exec conn w2
             | Quit k w2 \<Rightarrow> Quit k w2
             | Blocked w2 \<Rightarrow> Blocked w2
             | Faulted e \<Rightarrow> Faulted e)
      | Quit k w1 \<Rightarrow> Quit k w1
      | Blocked w1 \<Rightarrow> Blocked w1
      | Faulted e \<Rightarrow> Faulted e)"
  by pat_completeness auto
termination
  by (relation "measure (\<lambda>(exec, conn, w). length (script w))") (auto dest!: sys_read_shorter sys_send_shorter)

definition redis_worker :: "(mem \<Rightarrow> string) \<Rightarrow> int \<Rightarrow> unit prog" where
  "redis_worker exec conn = bnd (redis_session exec conn) (\<lambda>_. sys_close conn)"

text \<open>
  The threads of such a server: a round of the main thread, or a worker that serves its client. The
  worker is one step here: it uses no descriptor but its own and those it opens itself.
\<close>

inductive thread_step ::
    "(int \<Rightarrow> int option prog) \<Rightarrow> (int \<Rightarrow> unit prog) set \<Rightarrow> int \<Rightarrow> world \<times> int list \<Rightarrow> world \<times> int list \<Rightarrow> bool"
  for accept workers server_fd where
  Accept: "accept server_fd w = Returned (Some c) w' \<Longrightarrow> thread_step accept workers server_fd (w, cs) (w', c # cs)"
| NoClient: "accept server_fd w = Returned None w' \<Longrightarrow> thread_step accept workers server_fd (w, cs) (w', cs)"
| Work: "c \<in> set cs \<Longrightarrow> worker \<in> workers \<Longrightarrow> worker c w = Returned () w' \<Longrightarrow>
     thread_step accept workers server_fd (w, cs) (w', remove1 c cs)"

text \<open>
  The starts of these programs: the load balancers create their health thread first and do not look at the result.
  What the thread does is \<open>health_round\<close> of \<open>Load_Balancer\<close> and \<open>LB_Lessons\<close>, again and again.
\<close>

definition lb_start :: "int \<Rightarrow> int prog" where
  "lb_start listen_port = bnd sys_thread (\<lambda>_. open_listener checks_lesson4 listen_port)"

definition lesson6_start :: "string list \<Rightarrow> (int \<times> int) prog" where
  "lesson6_start argv =
     (let period = (if length argv > 1 then atoi (argv ! 1) else 2) in
      bnd sys_thread (\<lambda>_. bnd (open_listener checks_lesson4 8080) (\<lambda>server_fd. ret (server_fd, period))))"

definition redis_start :: "int \<Rightarrow> int prog" where
  "redis_start p = open_listener all_checked p"

text \<open>\<open>server_main.c\<close>\<close>

definition redis_entry :: "int prog" where
  "redis_entry = redis_start 6379"

definition lb_serving :: "int \<Rightarrow> world \<times> int list \<Rightarrow> world \<times> int list \<Rightarrow> bool" where
  "lb_serving = thread_step accept_client (range (lb_worker dial))"

definition lesson6_serving :: "int \<Rightarrow> world \<times> int list \<Rightarrow> world \<times> int list \<Rightarrow> bool" where
  "lesson6_serving = thread_step accept_client (range (lb_worker dial_6))"

definition redis_serving :: "int \<Rightarrow> world \<times> int list \<Rightarrow> world \<times> int list \<Rightarrow> bool" where
  "redis_serving = thread_step redis_accept (range redis_worker)"

section \<open>The web server\<close>

text \<open>The request is read through a stream on a duplicate of the connection; one entry of the script is all that arrives on it.\<close>

definition sys_dup :: "int \<Rightarrow> int prog" where
  "sys_dup fd = asks (\<lambda>r w. if r = Fails then Returned (- 1) w else case fd_at w fd of None \<Rightarrow> Returned (- 1) w | Some s \<Rightarrow> alloc_fd s w)"

definition sys_fdopen :: "int \<Rightarrow> bool prog" where
  "sys_fdopen fd = asks (\<lambda>r w. Returned (fd_at w fd \<noteq> None \<and> r \<noteq> Fails) w)"

definition read_stream :: "mem prog" where
  "read_stream = asks (\<lambda>r. ret (case r of Bytes b \<Rightarrow> b | _ \<Rightarrow> []))"

definition web_body :: "int \<Rightarrow> unit \<Rightarrow> unit prog" where
  "web_body server_fd u =
     bnd (sys_accept server_fd) (\<lambda>conn.
     if conn < 0 then ret ()
     else bnd (sys_dup conn) (\<lambda>copy. bnd (sys_fdopen copy) (\<lambda>opened.
       if \<not> opened then sys_close conn
       else bnd read_stream (\<lambda>inp.
         case serve_conn inp of
           Inl (Exited k) \<Rightarrow> bnd (sys_close copy) (\<lambda>_. bnd (sys_close conn) (\<lambda>_. prog_exit k))
         | Inl e \<Rightarrow> prog_fault e
         | Inr text \<Rightarrow>
             bnd (sys_close copy) (\<lambda>_. bnd (sys_send conn text) (\<lambda>_. sys_close conn))))))"

definition web_main :: "nat \<Rightarrow> unit prog" where
  "web_main n = bnd (open_listener all_checked 80) (\<lambda>server_fd. rounds n (web_body server_fd) ())"

section \<open>The exercise of lesson 5\<close>

function copy_blocks :: "int \<Rightarrow> int \<Rightarrow> unit prog" where
  "copy_blocks src dst w =
     (case sys_read src 8192 w of
        Returned (n, b) w1 \<Rightarrow>
          if n \<le> 0 then Returned () w1
          else
            (case sys_send dst b w1 of
               Returned k w2 \<Rightarrow> copy_blocks src dst w2
             | Quit k w2 \<Rightarrow> Quit k w2
             | Blocked w2 \<Rightarrow> Blocked w2
             | Faulted e \<Rightarrow> Faulted e)
      | Quit k w1 \<Rightarrow> Quit k w1
      | Blocked w1 \<Rightarrow> Blocked w1
      | Faulted e \<Rightarrow> Faulted e)"
  by pat_completeness auto
termination
  by (relation "measure (\<lambda>(src, dst, w). length (script w))") (auto dest!: sys_read_shorter sys_send_shorter)

text \<open>The result of \<open>accept\<close> is not looked at; the buffer is printed as a string although only \<open>n\<close> bytes of it were written.\<close>

definition rr_body :: "address list \<Rightarrow> int \<Rightarrow> nat \<Rightarrow> nat prog" where
  "rr_body bs server_fd i =
     bnd (sys_accept server_fd) (\<lambda>client.
     let (idx, i') = next_backend_5 (length bs) i in
     bnd (dial_exercise (fst (bs ! idx)) (snd (bs ! idx))) (\<lambda>backend.
     if backend < 0
     then
       bnd (sys_send client (take 8 (''HTTP/1.1 502 Bad Gateway'' @ [CR, LF] @ ''Content-Length: 0'' @ [CR, LF, CR, LF]))) (\<lambda>_.
       bnd (sys_close client) (\<lambda>_. ret i'))
     else
       bnd (sys_read client 8192) (\<lambda>(n, buffer).
       if NUL \<notin> set buffer then prog_fault Uninit
       else
         bnd (sys_send backend buffer) (\<lambda>_.
         bnd (copy_blocks backend client) (\<lambda>_.
         bnd (sys_close backend) (\<lambda>_.
         bnd (sys_close client) (\<lambda>_. ret i')))))))"

definition rr_main :: "nat \<Rightarrow> nat prog" where
  "rr_main n = bnd (open_listener checks_exercise 8080) (\<lambda>server_fd.
     rounds n (rr_body [(''127.0.0.1'', 8091), (''127.0.0.1'', 8092), (''127.0.0.1'', 8093)] server_fd) 0)"

definition exercise_backend_body :: "string \<Rightarrow> int \<Rightarrow> unit \<Rightarrow> unit prog" where
  "exercise_backend_body name server_fd u =
     bnd (sys_accept server_fd) (\<lambda>conn.
     bnd (sys_read conn 4096) (\<lambda>(n, b).
     case backend_5 name b of
       Inl e \<Rightarrow> prog_fault e
     | Inr text \<Rightarrow> bnd (sys_send conn text) (\<lambda>_. sys_close conn)))"

definition exercise_backend_main :: "string list \<Rightarrow> nat \<Rightarrow> unit prog" where
  "exercise_backend_main argv n =
     (if length argv \<noteq> 3 then prog_exit 1
      else bnd (open_listener checks_exercise (atoi (argv ! 1))) (\<lambda>server_fd.
        rounds n (exercise_backend_body (argv ! 2) server_fd) ()))"

section \<open>Contracts of the handlers\<close>

locale connection_handler =
  fixes handler :: "'s \<Rightarrow> int \<Rightarrow> unit prog"
  assumes handler_keeps: "keeps (handler s conn)"
begin

text \<open>A round of the parent closes the connection again; a child ends without the listener and the connection.\<close>

lemma fork_round:
  assumes w: "fd_at w = base(fd \<mapsto> l)" "base fd = None"
  shows "wp (fork_body handler advance fd s) (\<lambda>_ v. fd_at v = base(fd \<mapsto> l)) (\<lambda>k v. k = 0 \<and> fd_at v = base) w"
proof -
  let ?Q = "\<lambda>_ v. fd_at v = base(fd \<mapsto> l)" and ?X = "\<lambda>k v. k = 0 \<and> fd_at v = base"
  have child: "wp (bnd (sys_close fd) (\<lambda>_. bnd (handler s c) (\<lambda>_. bnd (sys_close c) (\<lambda>_. prog_exit 0)))) ?Q ?X v"
    if v: "fd_at v = base(fd \<mapsto> l, c \<mapsto> x)" "c \<noteq> fd" "base c = None" for c x v
    unfolding wp_bnd wp_exit
    by (rule wp_close, rule keepsD [OF handler_keeps], rule wp_close)
      (use v w(2) in \<open>simp add: fun_upd_twist fun_upd_idem\<close>)
  have parent: "wp (bnd (sys_close c) (\<lambda>_. ret (advance s))) ?Q ?X v"
    if v: "fd_at v = base(fd \<mapsto> l, c \<mapsto> x)" "c \<noteq> fd" "base c = None" for c x v
    by (simp, rule wp_close) (use v in \<open>simp add: fun_upd_twist fun_upd_idem\<close>)
  show ?thesis
    unfolding fork_body_def
  proof (rule wp_bnd [THEN iffD2], rule wp_accept)
    fix v assume "fd_at v = fd_at w"
    then show "wp (if (- 1 :: int) < 0 then ret s else bnd sys_fork (\<lambda>pid.
       if pid = 0 then bnd (sys_close fd) (\<lambda>_. bnd (handler s (- 1)) (\<lambda>_. bnd (sys_close (- 1)) (\<lambda>_. prog_exit 0)))
       else bnd (sys_close (- 1)) (\<lambda>_. ret (advance s)))) ?Q ?X v"
      using w by simp
  next
    fix p c v assume c: "0 \<le> c" "fd_at w c = None" "fd_at v = (fd_at w)(c \<mapsto> Accepted)"
    have "c \<noteq> fd" "base c = None" using c w by (auto split: if_splits)
    moreover have "fd_at v = base(fd \<mapsto> l, c \<mapsto> Accepted)" using c w by simp
    ultimately show "wp (if c < 0 then ret s else bnd sys_fork (\<lambda>pid.
       if pid = 0 then bnd (sys_close fd) (\<lambda>_. bnd (handler s c) (\<lambda>_. bnd (sys_close c) (\<lambda>_. prog_exit 0)))
       else bnd (sys_close c) (\<lambda>_. ret (advance s)))) ?Q ?X v"
      using c(1) child parent by (auto simp del: wp_bnd simp: wp_bnd [of sys_fork] intro!: wp_fork)
  qed
qed

lemma fork_server_keeps:
  assumes "bind_checked c"
  shows "wp (fork_server c p handler advance s n)
    (\<lambda>_ v. \<exists>fd l. fd_at w fd = None \<and> fd_at v = (fd_at w)(fd \<mapsto> l) \<and> (l = Listening (Some p) \<or> l = Bound p \<and> \<not> listen_checked c))
    (\<lambda>k v. k = 1 \<or> k = 0 \<and> fd_at v = fd_at w) w"
    (is "wp _ ?Q ?X w")
proof -
  have loop: "wp (rounds n (fork_body handler advance fd) s) ?Q ?X v"
    if "fd_at w fd = None" "fd_at v = (fd_at w)(fd \<mapsto> l)" "l = Listening (Some p) \<or> l = Bound p \<and> \<not> listen_checked c" for fd l v
  proof (rule wp_mono [OF wp_rounds])
    show "fd_at v = (fd_at w)(fd \<mapsto> l)" by (rule that)
    show "wp (fork_body handler advance fd s) (\<lambda>_ v. fd_at v = (fd_at w)(fd \<mapsto> l)) (\<lambda>k v. k = 0 \<and> fd_at v = fd_at w) u"
      if "fd_at u = (fd_at w)(fd \<mapsto> l)" for s u
      by (rule fork_round) (use that \<open>fd_at w fd = None\<close> in auto)
    show "k = 1 \<or> k = 0 \<and> fd_at u = fd_at w" if "k = 0 \<and> fd_at u = fd_at w" for k u
      using that by simp
    show "?Q s u" if "fd_at u = (fd_at w)(fd \<mapsto> l)" for s u
      by (rule exI [of _ fd], rule exI [of _ l]) (use that \<open>fd_at w fd = None\<close> \<open>l = Listening (Some p) \<or> _\<close> in simp)
  qed
  show ?thesis
    unfolding fork_server_def wp_bnd
  proof (rule wp_mono [OF open_listener [OF assms]])
    fix fd v
    assume "\<exists>l. 0 \<le> fd \<and> fd_at w fd = None \<and> fd_at v = (fd_at w)(fd \<mapsto> l) \<and> (l = Listening (Some p) \<or> l = Bound p \<and> \<not> listen_checked c)"
    then show "wp (rounds n (fork_body handler advance fd) s) ?Q ?X v" using loop by blast
  qed simp
qed

end

interpretation two: connection_handler "\<lambda>_. handle_2"
  by unfold_locales (auto simp: handle_2_def)

lemma handle_3_total: "\<exists>r. handle_3 b = Inr r"
  using handle_3_exact [of b] by (cases "b = []") (auto simp: handle_3_def)

lemma keeps_handle_3: "keeps (handle_3_conn conn)"
proof -
  have "keeps (case handle_3 b of Inl e \<Rightarrow> prog_fault e | Inr resp \<Rightarrow> bnd (sys_send conn resp) (\<lambda>_. ret ()))" for b
  proof -
    obtain r where "handle_3 b = Inr r" using handle_3_total by blast
    then show ?thesis by (simp add: keeps_bnd keeps_send)
  qed
  then show ?thesis unfolding handle_3_conn_def by (intro keeps_bnd keeps_read keeps_split keeps_if keeps_ret)
qed

interpretation three: connection_handler "\<lambda>_. handle_3_conn"
  by unfold_locales (rule keeps_handle_3)

text \<open>A proxy closes the descriptor of the backend on every path.\<close>

lemma keeps_proxy:
  assumes "\<And>w. wp connect (connected hs p w) (\<lambda>k v. False) w"
  shows "keeps (proxy_conn connect msg conn)"
proof -
  have "wp (bnd connect (\<lambda>back.
       if back < 0 then bnd (sys_send conn msg) (\<lambda>_. ret ())
       else bnd (send_loop back req) (\<lambda>done.
         if \<not> done then sys_close back
         else bnd (relay back conn) (\<lambda>_. sys_close back)))) (\<lambda>x v. fd_at v = fd_at w) (\<lambda>k v. False) w" for req w
    by (simp, rule wp_mono [OF assms])
      (auto simp: connected_def fun_upd_idem intro!: wp_send wp_send_loop wp_close keepsD [OF keeps_relay] split: if_splits)
  then have "keeps (bnd connect (\<lambda>back.
       if back < 0 then bnd (sys_send conn msg) (\<lambda>_. ret ())
       else bnd (send_loop back req) (\<lambda>done.
         if \<not> done then sys_close back
         else bnd (relay back conn) (\<lambda>_. sys_close back))))" for req
    by (simp add: keeps_def)
  then show ?thesis unfolding proxy_conn_def by (intro keeps_bnd [OF keeps_read] keeps_split keeps_if keeps_ret)
qed

interpretation four: connection_handler "\<lambda>_. handle_4_conn"
  by unfold_locales (auto simp: handle_4_conn_def intro!: keeps_proxy dial_connected)

interpretation five: connection_handler "handle_5_conn bs"
  by unfold_locales (auto simp: handle_5_conn_def intro!: keeps_proxy dial_6_connected)

interpretation backend: connection_handler "\<lambda>_. backend_conn g_name"
  by unfold_locales (unfold backend_conn_def, intro keeps_bnd keeps_read keeps_send keeps_split keeps_if keeps_ret)

section \<open>No server loses a descriptor\<close>


text \<open>A child of lesson 2, and the parent of lesson 4 after a client it could not fork for.\<close>

definition child_script :: "reply list" where
  "child_script = [Yes, Yes, Yes, Yes, Yes, InChild, Bytes ''hi'', Yes]"


section \<open>Threads\<close>

text \<open>The contract of a server with threads: the main thread hands over what it accepted, a worker closes what it was given.\<close>

locale thread_server =
  fixes accept :: "int \<Rightarrow> int option prog"
    and workers :: "(int \<Rightarrow> unit prog) set"
  assumes accept_client: "accept fd w = Returned (Some c) w' \<Longrightarrow> fd_at w c = None \<and> fd_at w' = (fd_at w)(c \<mapsto> Accepted)"
    and accept_none: "accept fd w = Returned None w' \<Longrightarrow> fd_at w' = fd_at w"
    and worker_closes: "worker \<in> workers \<Longrightarrow> fd_at w c = Some Accepted \<Longrightarrow>
      wp (worker c) (\<lambda>_ v. fd_at v = (fd_at w)(c := None)) (\<lambda>_ _. False) w"
begin

definition owned :: "(int \<Rightarrow> sock option) \<Rightarrow> world \<times> int list \<Rightarrow> bool" where
  "owned base s \<longleftrightarrow>
     distinct (snd s) \<and> (\<forall>c \<in> set (snd s). base c = None) \<and>
     (\<forall>x. fd_at (fst s) x = (if x \<in> set (snd s) then Some Accepted else base x))"

lemma owned_step: "owned base s \<Longrightarrow> thread_step accept workers fd s t \<Longrightarrow> owned base t"
proof -
  assume s: "owned base s" and "thread_step accept workers fd s t"
  from this(2) show "owned base t"
proof cases
  case (Accept w c w' cs)
  then have "fd_at w c = None" "fd_at w' = (fd_at w)(c \<mapsto> Accepted)" using accept_client by blast+
  moreover from this Accept s have "c \<notin> set cs" by (auto simp: owned_def split: if_splits)
  ultimately show ?thesis using Accept s by (auto simp: owned_def split: if_splits)
next
  case (NoClient w w' cs)
  then show ?thesis using accept_none [of fd w w'] s by (simp add: owned_def)
next
  case (Work c cs worker w w')
  then have "fd_at w c = Some Accepted" using s by (simp add: owned_def)
  with Work have "fd_at w' = (fd_at w)(c := None)" using wp_returned [OF worker_closes] by blast
  with Work s show ?thesis by (auto simp: owned_def)
qed
qed

sublocale step_invariant "thread_step accept workers fd" "owned base"
  by unfold_locales (rule owned_step)

lemma owned_steps:
  "steps (thread_step accept workers fd) (w, []) (v, cs) \<Longrightarrow> owned (fd_at w) (v, cs)"
  using inv_steps [of fd "(w, [])" "(v, cs)" "fd_at w"] by (simp add: owned_def)

end

lemma wp_lb_worker:
  assumes d: "\<And>h p w. wp (connect h p) (connected (hs h) p w) (\<lambda>_ _. False) w" and c: "fd_at w c = Some Accepted"
  shows "wp (lb_worker connect picked c) (\<lambda>_ v. fd_at v = (fd_at w)(c := None)) (\<lambda>_ _. False) w"
proof -
  let ?Q = "\<lambda>_ v. fd_at v = (fd_at w)(c := None)" and ?X = "\<lambda>_ _. False"
  have closing: "wp (bnd (sys_send c msg_502) (\<lambda>_. sys_close c)) ?Q ?X v" "wp (sys_close c) ?Q ?X v" if "fd_at v = fd_at w" for v
    using that by (auto intro!: wp_send wp_close)
  have backend: "wp (bnd (connect h p) (\<lambda>back.
           if back < 0 then bnd (sys_send c msg_502) (\<lambda>_. sys_close c)
           else bnd (send_loop back req) (\<lambda>done.
             if \<not> done then bnd (sys_close back) (\<lambda>_. sys_close c)
             else bnd (relay back c) (\<lambda>_. bnd (sys_close back) (\<lambda>_. sys_close c))))) ?Q ?X v"
    if v: "fd_at v = fd_at w" for h p req v
    unfolding wp_bnd
  proof (rule wp_mono [OF d])
    fix bk u assume u: "connected (hs h) p v bk u"
    show "wp (if bk < 0 then bnd (sys_send c msg_502) (\<lambda>_. sys_close c)
           else bnd (send_loop bk req) (\<lambda>done.
             if \<not> done then bnd (sys_close bk) (\<lambda>_. sys_close c)
             else bnd (relay bk c) (\<lambda>_. bnd (sys_close bk) (\<lambda>_. sys_close c)))) ?Q ?X u"
    proof (cases "bk < 0")
      case True
      with u v have "fd_at u = fd_at w" by (simp add: connected_def)
      with True closing show ?thesis by simp
    next
      case False
      with u v obtain l where l: "fd_at w bk = None" "fd_at u = (fd_at w)(bk \<mapsto> l)" by (auto simp: connected_def)
      with c have "bk \<noteq> c" by auto
      with False l show ?thesis
        by (auto simp: fun_upd_twist fun_upd_idem intro!: wp_send_loop wp_close keepsD [OF keeps_relay])
    qed
  qed simp
  show ?thesis
    unfolding lb_worker_def wp_bnd [of "sys_read c 8191"]
    by (rule wp_read) (auto simp del: wp_bnd simp: closing backend split: prod.split option.split)
qed

lemma keeps_redis_session: "keeps (redis_session exec conn)"
proof (rule keeps_read_loop)
  show "redis_session exec conn = bnd (sys_read conn 1023) (\<lambda>(k, b). if k \<le> 0 then ret ()
      else bnd (bnd (sys_send conn (exec b)) (\<lambda>_. ret True)) (\<lambda>go. if go then redis_session exec conn else ret ()))"
    by (rule ext, subst redis_session.simps) (auto simp: bnd_def ret_def split: run.split)
  show "length (script u) \<le> length (script v)" if "bnd (sys_send conn (exec b)) (\<lambda>_. ret True) v = Returned go u" for b v go u
    using that by (auto simp: bnd_Returned ret_def dest: sys_send_shorter)
qed (intro keeps_bnd keeps_send keeps_ret)

lemma wp_redis_worker:
  "fd_at w c = Some Accepted \<Longrightarrow> wp (redis_worker exec c) (\<lambda>_ v. fd_at v = (fd_at w)(c := None)) (\<lambda>_ _. False) w"
  unfolding redis_worker_def wp_bnd by (auto intro!: keepsD [OF keeps_redis_session] wp_close)

lemma accept_client_Some: "accept_client fd w = Returned (Some c) w' \<Longrightarrow> fd_at w c = None \<and> fd_at w' = (fd_at w)(c \<mapsto> Accepted)"
  and accept_client_None: "accept_client fd w = Returned None w' \<Longrightarrow> fd_at w' = fd_at w"
  by (auto simp: accept_client_def bnd_Returned ret_def fun_upd_idem split: if_splits
      dest!: sys_accept_Returned sys_thread_Returned sys_malloc_Returned sys_close_Returned)

lemma redis_accept_Some: "redis_accept fd w = Returned (Some c) w' \<Longrightarrow> fd_at w c = None \<and> fd_at w' = (fd_at w)(c \<mapsto> Accepted)"
  and redis_accept_None: "redis_accept fd w = Returned None w' \<Longrightarrow> fd_at w' = fd_at w"
  by (auto simp: redis_accept_def bnd_Returned ret_def prog_fault_def fun_upd_idem split: if_splits
      dest!: sys_accept_Returned sys_thread_Returned sys_close_Returned)

interpretation lb_threads: thread_server accept_client "range (lb_worker dial)"
  by unfold_locales (auto simp: accept_client_None dest: accept_client_Some intro!: wp_lb_worker dial_connected)

interpretation lesson6_threads: thread_server accept_client "range (lb_worker dial_6)"
  by unfold_locales (auto simp: accept_client_None dest: accept_client_Some intro!: wp_lb_worker dial_6_connected)

interpretation redis_threads: thread_server redis_accept "range redis_worker"
  by unfold_locales (auto simp: redis_accept_None dest: redis_accept_Some intro!: wp_redis_worker)


lemmas run_defs =
  bnd_def ret_def prog_exit_def prog_fault_def asks_def sys_socket_def sys_setsockopt_def sys_bind_def sys_listen_def sys_accept_def
  sys_fork_def sys_thread_def sys_malloc_def sys_close_def sys_read_def sys_send_def sys_inet_pton_def sys_connect_def
  alloc_fd_def lowest_free_def fd_at_def put_fd_def Let_def open_listener_def checked_def started_def

text \<open>A client of \<open>lb.c\<close> that comes while no backend is healthy.\<close>

definition serving_world :: "reply list \<Rightarrow> world" where
  "serving_world rs = \<lparr>fdt = [Some Std, Some Std, Some Std, Some (Listening (Some 8080))], script = rs, sent = []\<rparr>"


section \<open>One client after the other, and what is not looked at\<close>

text \<open>Lesson 1 greets every client it accepts, in order, on the same descriptor.\<close>

fun arrivals :: "mem option list \<Rightarrow> reply list" where
  "arrivals [] = []"
| "arrivals (None # cs) = Fails # arrivals cs"
| "arrivals (Some m # cs) = Yes # Bytes m # Yes # arrivals cs"

definition lesson1_world :: "sock option list \<Rightarrow> reply list \<Rightarrow> (int \<times> string) list \<Rightarrow> world" where
  "lesson1_world t rs ss = \<lparr>fdt = [Some Std, Some Std, Some Std, Some (Listening (Some 8080))] @ t, script = rs, sent = ss\<rparr>"

lemma lesson1_round:
  "lesson1_body 3 () (lesson1_world t (Fails # rs) ss) = Returned () (lesson1_world t rs ss)"
  "t = [] \<or> t = [None] \<Longrightarrow> lesson1_body 3 () (lesson1_world t (Yes # Bytes m # Yes # rs) ss) =
     Returned () (lesson1_world [None] rs (ss @ [(4, hello_loop)]))"
  by (auto simp: lesson1_body_def lesson1_world_def run_defs)

lemma lesson1_rounds:
  assumes "t = [] \<or> t = [None]"
  shows "\<exists>t'. rounds (length cs) (lesson1_body 3) () (lesson1_world t (arrivals cs) ss) =
    Returned () (lesson1_world t' [] (ss @ map (\<lambda>_. (4, hello_loop)) (filter (\<lambda>c. c \<noteq> None) cs)))"
  using assms
proof (induction cs arbitrary: ss t)
  case Nil
  then show ?case by (auto simp: ret_def)
next
  case (Cons c cs)
  show ?case
  proof (cases c)
    case None
    with Cons.IH [OF Cons.prems, of ss] show ?thesis by (simp add: bnd_def lesson1_round)
  next
    case (Some m)
    with Cons.IH [of "[None]" "ss @ [(4, hello_loop)]"] Cons.prems show ?thesis by (simp add: bnd_def lesson1_round)
  qed
qed

lemma lesson1_greets:
  "\<exists>w'. lesson1_main (length cs) (started ([Yes, Yes, Yes, Yes] @ arrivals cs)) = Returned () w' \<and>
     sent w' = map (\<lambda>_. (4, hello_loop)) (filter (\<lambda>c. c \<noteq> None) cs)"
proof -
  have "open_listener all_checked 8080 (started ([Yes, Yes, Yes, Yes] @ arrivals cs)) = Returned 3 (lesson1_world [] (arrivals cs) [])"
    by (simp add: all_checked_def lesson1_world_def run_defs)
  with lesson1_rounds [of "[]" cs "[]"] show ?thesis
    by (auto simp: lesson1_main_def bnd_def lesson1_world_def)
qed

text \<open>With \<open>bind\<close> and \<open>listen\<close> unchecked the exercise listens on a port the kernel chose when its own is taken; a
  server that does not look at \<open>listen\<close> may accept nobody, for ever.\<close>

lemma exercise_listens_elsewhere:
  "\<exists>v. open_listener checks_exercise 8080 (started [Yes, Yes, Fails, Yes]) = Returned 3 v \<and> fd_at v 3 = Some (Listening None)"
  by (simp add: checks_exercise_def checks_lesson4_def run_defs)

lemma unlistened_accepts_nobody:
  "fd_at w fd = Some (Bound p) \<Longrightarrow> wp (fork_body handler advance fd s) (\<lambda>s' v. s' = s \<and> fd_at v = fd_at w) (\<lambda>_ _. False) w"
  by (simp add: fork_body_def) (rule wp_accept, simp_all)

lemma unlistened_possible:
  "\<exists>v. open_listener checks_lesson4 8080 (started [Yes, Yes, Yes, Fails]) = Returned 3 v \<and> fd_at v 3 = Some (Bound 8080)"
  by (simp add: checks_lesson4_def run_defs)

text \<open>An address that cannot be read makes lessons 5 and 6 connect to this machine.\<close>

lemma bad_address_dialed:
  "\<exists>v. dial_6 ''no host'' 8081 (started [Yes, Fails, Yes]) = Returned 3 v \<and> fd_at v 3 = Some (Dialed ''0.0.0.0'' 8081)"
  "\<exists>v. dial ''no host'' 8081 (started [Yes, Fails, Yes]) = Returned (- 1) v"
  by (simp_all add: dial_6_def dial_def run_defs)

text \<open>The exercise serves a client it did not get.\<close>

lemma exercise_serves_nobody:
  "rr_body [(''127.0.0.1'', 8091)] 3 0 (serving_world [Fails, Yes, Yes, Yes, Yes]) = Faulted Uninit"
  by (simp add: rr_body_def dial_exercise_def next_backend_5_def serving_world_def run_defs)

text \<open>A round of the web server keeps the descriptors, but for the duplicate of the connection, which stays open when no stream can be made of it.\<close>

lemma web_round:
  assumes "web_body fd u w = Returned x v"
  shows "fd_at v = fd_at w \<or> (\<exists>c. fd_at w c = None \<and> fd_at v = (fd_at w)(c \<mapsto> Accepted))"
proof -
  have dup: "d < 0 \<and> fd_at b = fd_at a \<or> 0 \<le> d \<and> fd_at a d = None \<and> fd_at b = (fd_at a)(d := fd_at a c)"
    if "sys_dup c a = Returned d b" for c d a b
    using that by (auto simp: sys_dup_def asks_def split: list.splits if_splits option.splits dest!: alloc_fd_Returned)
  have fdopen: "fd_at b = fd_at a \<and> (ok \<longrightarrow> fd_at a d \<noteq> None)" if "sys_fdopen d a = Returned ok b" for d ok a b
    using that by (auto simp: sys_fdopen_def asks_def split: list.splits)
  have stream: "fd_at b = fd_at a" if "read_stream a = Returned m b" for m a b
    using that by (auto simp: read_stream_def asks_def ret_def split: list.splits)
  have send: "fd_at b = fd_at a" if "sys_send c d a = Returned k b" for c d k a b
    using that by (rule wp_returned [of _ _ "\<lambda>_ _. False", rotated]) (rule wp_send)
  obtain conn w1 where 1: "sys_accept fd w = Returned conn w1" and rest: "(if conn < 0 then ret ()
       else bnd (sys_dup conn) (\<lambda>copy. bnd (sys_fdopen copy) (\<lambda>opened.
       if \<not> opened then sys_close conn
       else bnd read_stream (\<lambda>inp.
         case serve_conn inp of
           Inl (Exited k) \<Rightarrow> bnd (sys_close copy) (\<lambda>_. bnd (sys_close conn) (\<lambda>_. prog_exit k))
         | Inl e \<Rightarrow> prog_fault e
         | Inr text \<Rightarrow> bnd (sys_close copy) (\<lambda>_. bnd (sys_send conn text) (\<lambda>_. sys_close conn)))))) w1 = Returned x v"
    using assms unfolding web_body_def bnd_Returned [of "sys_accept fd"] by blast
  show ?thesis
  proof (cases "conn < 0")
    case True
    with rest sys_accept_Returned [OF 1] show ?thesis by (simp add: ret_def)
  next
    case False
    with sys_accept_Returned [OF 1] have c: "fd_at w conn = None" "fd_at w1 = (fd_at w)(conn \<mapsto> Accepted)" by auto
    from rest False obtain copy w2 opened w3 where 2: "sys_dup conn w1 = Returned copy w2" "sys_fdopen copy w2 = Returned opened w3"
      and rest: "(if \<not> opened then sys_close conn
       else bnd read_stream (\<lambda>inp.
         case serve_conn inp of
           Inl (Exited k) \<Rightarrow> bnd (sys_close copy) (\<lambda>_. bnd (sys_close conn) (\<lambda>_. prog_exit k))
         | Inl e \<Rightarrow> prog_fault e
         | Inr text \<Rightarrow> bnd (sys_close copy) (\<lambda>_. bnd (sys_send conn text) (\<lambda>_. sys_close conn)))) w3 = Returned x v"
      by (auto simp: bnd_Returned [of "sys_dup c" for c] bnd_Returned [of "sys_fdopen c" for c])
    have d: "fd_at w3 = fd_at w1 \<or> copy \<noteq> conn \<and> fd_at w copy = None \<and> fd_at w3 = (fd_at w)(conn \<mapsto> Accepted, copy \<mapsto> Accepted)"
      using dup [OF 2(1)] fdopen [OF 2(2)] c by (auto split: if_splits)
    show ?thesis
    proof (cases opened)
      case False
      with rest have "sys_close conn w3 = Returned x v" by simp
      from sys_close_Returned [OF this] d c show ?thesis by (auto simp: fun_upd_idem fun_upd_twist)
    next
      case True
      with rest obtain inp w4 where 3: "read_stream w3 = Returned inp w4" and rest: "(case serve_conn inp of
           Inl (Exited k) \<Rightarrow> bnd (sys_close copy) (\<lambda>_. bnd (sys_close conn) (\<lambda>_. prog_exit k))
         | Inl e \<Rightarrow> prog_fault e
         | Inr text \<Rightarrow> bnd (sys_close copy) (\<lambda>_. bnd (sys_send conn text) (\<lambda>_. sys_close conn))) w4 = Returned x v"
        by (auto simp: bnd_Returned [of read_stream])
      then obtain reply where "bnd (sys_close copy) (\<lambda>_. bnd (sys_send conn reply) (\<lambda>_. sys_close conn)) w4 = Returned x v"
        by (auto simp: bnd_Returned prog_fault_def prog_exit_def split: sum.splits cfault.splits)
      then obtain w5 k w6 where 4: "sys_close copy w4 = Returned () w5" "sys_send conn reply w5 = Returned k w6" "sys_close conn w6 = Returned x v"
        by (auto simp: bnd_Returned)
      have "fd_at v = (fd_at w3)(copy := None, conn := None)"
        using stream [OF 3] sys_close_Returned [OF 4(1)] send [OF 4(2)] sys_close_Returned [OF 4(3)] by simp
      moreover have "fd_at w2 copy \<noteq> None" using fdopen [OF 2(2)] True by simp
      ultimately show ?thesis using d dup [OF 2(1)] fdopen [OF 2(2)] c by (auto simp: fun_upd_idem fun_upd_twist)
    qed
  qed
qed

lemma web_loses_duplicate:
  "\<exists>v. web_body 3 () (serving_world [Yes, Yes, Fails]) = Returned () v \<and> fd_at v 5 = Some Accepted"
  by (simp add: web_body_def sys_dup_def sys_fdopen_def serving_world_def run_defs)

text \<open>The single reader of \<open>socket/server.c\<close> prints a full buffer as a string.\<close>

lemma server_buffer_unterminated:
  "server_main (started [Yes, Yes, Yes, Yes, Bytes (replicate 1024 CHR ''x'')]) = Faulted OutOfBounds"
  by (simp add: server_main_def printed_buffer_def checks_server_def all_checked_def run_defs)

end
