(* ===== verification/Calculator.thy ===== *)
theory Calculator
  imports CLib
begin

text \<open>
  The calculator (\<open>7. calculator/calculator.c\<close>): infix to postfix conversion with an operator
  stack (\<open>to_postfix\<close>), the postfix evaluator (\<open>eval_postfix\<close>) and their composition \<open>eval\<close>.

  The global stack \<open>top\<close> is a list of items, which point either to a byte of the expression or to a
  \<open>double\<close>. The arithmetic of \<open>double\<close> is a parameter (\<open>darith\<close>): its four operations, the value
  \<open>strtod\<close> gives to the text it consumed, and the first byte of a \<open>double\<close> in memory, which the
  code reads when a number is left on the stack. The output buffer has \<open>strlen(expr) + 1\<close> bytes;
  every write checks it, and the bytes behind the output are whatever \<open>malloc\<close> returned (\<open>init\<close>).
  \<open>eval_postfix\<close> may run forever, which is \<open>None\<close>.
\<close>

section \<open>Data\<close>

record 'd darith =
  fadd :: "'d \<Rightarrow> 'd \<Rightarrow> 'd"
  fsub :: "'d \<Rightarrow> 'd \<Rightarrow> 'd"
  fmul :: "'d \<Rightarrow> 'd \<Rightarrow> 'd"
  fdiv :: "'d \<Rightarrow> 'd \<Rightarrow> 'd"
  strtod_val :: "string \<Rightarrow> 'd"
  byte0 :: "'d \<Rightarrow> char"

datatype 'd item = POp char | PVal 'd

fun item_char :: "'d darith \<Rightarrow> 'd item \<Rightarrow> char" where
  "item_char A (POp c) = c"
| "item_char A (PVal d) = byte0 A d"

text \<open>\<open>strchr(set, c) != NULL\<close> also holds for the terminator of \<open>set\<close>.\<close>

definition strchr_in :: "string \<Rightarrow> char \<Rightarrow> bool" where
  "strchr_in s c \<longleftrightarrow> c \<in> set s \<or> c = NUL"

abbreviation brackets :: string where "brackets \<equiv> ''(){}[]''"
abbreviation opening_brackets :: string where "opening_brackets \<equiv> ''({[''"
abbreviation closing_brackets :: string where "closing_brackets \<equiv> '')}]''"

definition prec :: "char \<Rightarrow> nat" where
  "prec op = (if op = CHR ''+'' \<or> op = CHR ''-'' then 1
              else if op = CHR ''*'' \<or> op = CHR ''/'' then 2 else 0)"

definition isRightAssociative :: "char \<Rightarrow> bool" where
  "isRightAssociative incoming_op \<longleftrightarrow> incoming_op = CHR 0x5E"

definition should_pop :: "char \<Rightarrow> char \<Rightarrow> bool" where
  "should_pop stack_op incoming_op =
     (let p1 = prec stack_op; p2 = prec incoming_op in
      if p1 > p2 then True
      else if p1 = p2 \<and> \<not> isRightAssociative incoming_op then True
      else False)"

section \<open>Infix to postfix\<close>

text \<open>\<open>pstfix[(*idx)++] = c\<close> on a buffer of \<open>cap\<close> bytes of which \<open>out\<close> are written.\<close>

definition emit :: "nat \<Rightarrow> string \<Rightarrow> char \<Rightarrow> string result" where
  "emit cap out c = (if length out < cap then Inr (out @ [c]) else Inl OutOfBounds)"

fun emits :: "nat \<Rightarrow> string \<Rightarrow> string \<Rightarrow> string result" where
  "emits cap out [] = Inr out"
| "emits cap out (c # cs) = ebind (emit cap out c) (\<lambda>out'. emits cap out' cs)"

definition append_separator :: "nat \<Rightarrow> string \<Rightarrow> string result" where
  "append_separator cap out = (if out \<noteq> [] then emit cap out SP else Inr out)"

definition numch :: "char \<Rightarrow> bool" where
  "numch c \<longleftrightarrow> isdigit c \<or> c = CHR ''.''"

text \<open>Pop one item and write its byte, with a separator before it.\<close>

definition emit_item :: "'d darith \<Rightarrow> nat \<Rightarrow> string \<Rightarrow> 'd item \<Rightarrow> string result" where
  "emit_item A cap out x = ebind (append_separator cap out) (\<lambda>out'. emit cap out' (item_char A x))"

fun close_bracket :: "'d darith \<Rightarrow> nat \<Rightarrow> 'd item list \<Rightarrow> string \<Rightarrow> ('d item list \<times> string) result" where
  "close_bracket A cap [] out = Inr ([], out)"
| "close_bracket A cap (x # st) out =
     (if strchr_in opening_brackets (item_char A x) then Inr (st, out)
      else ebind (emit_item A cap out x) (\<lambda>out'. close_bracket A cap st out'))"

fun pop_ops :: "'d darith \<Rightarrow> nat \<Rightarrow> char \<Rightarrow> 'd item list \<Rightarrow> string \<Rightarrow> ('d item list \<times> string) result" where
  "pop_ops A cap op [] out = Inr ([], out)"
| "pop_ops A cap op (x # st) out =
     (if \<not> strchr_in brackets (item_char A x) \<and> should_pop (item_char A x) op
      then ebind (emit_item A cap out x) (\<lambda>out'. pop_ops A cap op st out')
      else Inr (x # st, out))"

fun flush :: "'d darith \<Rightarrow> nat \<Rightarrow> 'd item list \<Rightarrow> string \<Rightarrow> string result" where
  "flush A cap [] out = Inr out"
| "flush A cap (x # st) out = ebind (emit_item A cap out x) (\<lambda>out'. flush A cap st out')"

text \<open>The main loop over the bytes of the expression, and the final flush of the stack.\<close>

function postfix_loop :: "'d darith \<Rightarrow> nat \<Rightarrow> string \<Rightarrow> 'd item list \<Rightarrow> string \<Rightarrow> string result" where
  "postfix_loop A cap [] st out = flush A cap st out"
| "postfix_loop A cap (c # p) st out =
     (if c = SP then postfix_loop A cap p st out
      else if isdigit c \<or> c = CHR ''.'' then
        ebind (append_separator cap out) (\<lambda>out1.
        ebind (emits cap out1 (takeWhile numch (c # p))) (\<lambda>out2.
        postfix_loop A cap (dropWhile numch (c # p)) st out2))
      else if strchr_in brackets c then
        (if strchr_in opening_brackets c then postfix_loop A cap p (POp c # st) out
         else if strchr_in closing_brackets c then
           ebind (close_bracket A cap st out) (\<lambda>(st', out'). postfix_loop A cap p st' out')
         else postfix_loop A cap p st out)
      else if c = CHR ''+'' \<or> c = CHR ''-'' \<or> c = CHR ''*'' \<or> c = CHR ''/'' then
        (if st = [] then postfix_loop A cap p [POp c] out
         else ebind (pop_ops A cap c st out) (\<lambda>(st', out'). postfix_loop A cap p (POp c # st') out'))
      else postfix_loop A cap p st out)"
  by pat_completeness auto
termination
  by (relation "measure (\<lambda>(A, cap, s, st, out). length s)")
     (auto simp: numch_def le_imp_less_Suc length_dropWhile_le)

definition to_postfix :: "'d darith \<Rightarrow> 'd item list \<Rightarrow> string \<Rightarrow> string result" where
  "to_postfix A st expr = postfix_loop A (length expr + 1) expr st []"

section \<open>Evaluation of postfix\<close>

text \<open>
  The text \<open>strtod\<close> consumes at a digit or a dot, and the rest: digits with at most one dot and an
  optional exponent, or the hexadecimal form.
\<close>

definition isxdigit :: "char \<Rightarrow> bool" where
  "isxdigit c \<longleftrightarrow> isdigit c \<or> 65 \<le> code_of c \<and> code_of c \<le> 70 \<or> 97 \<le> code_of c \<and> code_of c \<le> 102"

definition mantissa :: "(char \<Rightarrow> bool) \<Rightarrow> mem \<Rightarrow> mem \<times> mem" where
  "mantissa P m =
     (let ip = takeWhile P m; r = dropWhile P m in
      if r \<noteq> [] \<and> hd r = CHR ''.'' then
        (let fp = takeWhile P (tl r) in
         if ip = [] \<and> fp = [] then ([], m) else (ip @ CHR ''.'' # fp, dropWhile P (tl r)))
      else (ip, r))"

definition exponent :: "string \<Rightarrow> mem \<Rightarrow> mem \<times> mem" where
  "exponent es m =
     (case m of
        [] \<Rightarrow> ([], [])
      | e # r \<Rightarrow>
          (let r' = snd (take_sign r); ds = takeWhile isdigit r' in
           if e \<in> set es \<and> ds \<noteq> []
           then (e # take (length r - length r') r @ ds, dropWhile isdigit r')
           else ([], m)))"

definition strtod_text :: "mem \<Rightarrow> mem \<times> mem" where
  "strtod_text m =
     (let h = mantissa isxdigit (drop 2 m) in
      if length m > 2 \<and> hd m = CHR ''0'' \<and> (m ! 1 = CHR ''x'' \<or> m ! 1 = CHR ''X'') \<and> fst h \<noteq> []
      then (let x = exponent ''pP'' (snd h) in (take 2 m @ fst h @ fst x, snd x))
      else (let d = mantissa isdigit m; x = exponent ''eE'' (snd d) in
            if fst d = [] then ([], m) else (fst d @ fst x, snd x)))"

fun binop :: "'d darith \<Rightarrow> char \<Rightarrow> 'd \<Rightarrow> 'd \<Rightarrow> 'd list" where
  "binop A c op1 op2 =
     (if c = CHR ''+'' then [fadd A op1 op2]
      else if c = CHR ''*'' then [fmul A op1 op2]
      else if c = CHR ''-'' then [fsub A op1 op2]
      else if c = CHR ''/'' then [fdiv A op1 op2]
      else [])"

text \<open>Popping from the empty stack ends the process.\<close>

partial_function (option) eval_loop :: "'d darith \<Rightarrow> mem \<Rightarrow> 'd list \<Rightarrow> 'd list result option" where
  "eval_loop A p st =
     (case p of
        [] \<Rightarrow> Some (Inl OutOfBounds)
      | c # r \<Rightarrow>
          if c = NUL then Some (Inr st)
          else if isspace c then eval_loop A r st
          else if isdigit c \<or> c = CHR ''.'' then
            eval_loop A (snd (strtod_text p)) (strtod_val A (fst (strtod_text p)) # st)
          else
            (case st of
               op2 # op1 # st' \<Rightarrow> eval_loop A r (binop A c op1 op2 @ st')
             | _ \<Rightarrow> Some (Inl (Exited 1))))"

text \<open>The result and what stays on the global stack.\<close>

definition eval_postfix :: "'d darith \<Rightarrow> mem \<Rightarrow> ('d \<times> 'd item list) result option" where
  "eval_postfix A expr =
     (if NUL \<notin> set expr then Some (Inl OutOfBounds)
      else case eval_loop A expr [] of
             None \<Rightarrow> None
           | Some (Inl e) \<Rightarrow> Some (Inl e)
           | Some (Inr []) \<Rightarrow> Some (Inl (Exited 1))
           | Some (Inr (v # st)) \<Rightarrow> Some (Inr (v, map PVal st)))"

definition eval :: "'d darith \<Rightarrow> mem \<Rightarrow> 'd item list \<Rightarrow> string \<Rightarrow> ('d \<times> 'd item list) result option" where
  "eval A init st expr =
     (case to_postfix A st expr of
        Inl e \<Rightarrow> Some (Inl e)
      | Inr out \<Rightarrow> eval_postfix A (out @ drop (length out) init))"

section \<open>Expressions and their meaning\<close>

text \<open>
  The concrete syntax trees: a number, a binary operation and a bracketed expression, each with the
  number of spaces before its token(s). A tree is well formed when its shape agrees with the
  precedences and with associativity to the left.
\<close>

datatype cst =
    Num nat string
  | Bin nat char cst cst
  | Brk nat char cst nat char

fun render :: "cst \<Rightarrow> string" where
  "render (Num k ds) = replicate k SP @ ds"
| "render (Bin k op l r) = render l @ replicate k SP @ op # render r"
| "render (Brk k b e k' b') = replicate k SP @ b # render e @ replicate k' SP @ [b']"

fun level :: "cst \<Rightarrow> nat" where
  "level (Bin k op l r) = prec op"
| "level _ = 3"

definition wf_num :: "string \<Rightarrow> bool" where
  "wf_num ds \<longleftrightarrow> list_all numch ds \<and> list_ex isdigit ds \<and> length (filter (\<lambda>c. c = CHR ''.'') ds) \<le> 1"

fun wf_cst :: "cst \<Rightarrow> bool" where
  "wf_cst (Num k ds) \<longleftrightarrow> wf_num ds"
| "wf_cst (Bin k op l r) \<longleftrightarrow>
     op \<in> set ''+-*/'' \<and> wf_cst l \<and> wf_cst r \<and> prec op \<le> level l \<and> prec op < level r"
| "wf_cst (Brk k b e k' b') \<longleftrightarrow> b \<in> set opening_brackets \<and> b' \<in> set closing_brackets \<and> wf_cst e"

fun arith_op :: "'d darith \<Rightarrow> char \<Rightarrow> 'd \<Rightarrow> 'd \<Rightarrow> 'd" where
  "arith_op A op = (if op = CHR ''+'' then fadd A else if op = CHR ''-'' then fsub A
                    else if op = CHR ''*'' then fmul A else fdiv A)"

fun meaning :: "'d darith \<Rightarrow> cst \<Rightarrow> 'd" where
  "meaning A (Num k ds) = strtod_val A ds"
| "meaning A (Bin k op l r) = arith_op A op (meaning A l) (meaning A r)"
| "meaning A (Brk k b e k' b') = meaning A e"

text \<open>The postfix tokens of a tree.\<close>

fun post :: "cst \<Rightarrow> string list" where
  "post (Num k ds) = [ds]"
| "post (Bin k op l r) = post l @ post r @ [[op]]"
| "post (Brk k b e k' b') = post e"

definition spaced :: "string list \<Rightarrow> string" where
  "spaced ts = (case ts of [] \<Rightarrow> [] | t # ts \<Rightarrow> t @ concat (map (\<lambda>t. SP # t) ts))"

text \<open>The spaces an expression starts with, and expressions with two spaces around each operator.\<close>

fun lead :: "cst \<Rightarrow> nat" where
  "lead (Num k ds) = k"
| "lead (Bin k op l r) = lead l"
| "lead (Brk k b e k' b') = k"

fun roomy :: "cst \<Rightarrow> bool" where
  "roomy (Num k ds) \<longleftrightarrow> True"
| "roomy (Bin k op l r) \<longleftrightarrow> 2 \<le> k + lead r \<and> roomy l \<and> roomy r"
| "roomy (Brk k b e k' b') \<longleftrightarrow> roomy e"

section \<open>The output buffer\<close>

definition sepapp :: "string \<Rightarrow> string \<Rightarrow> string" where
  "sepapp out t = (if out = [] then t else out @ SP # t)"

lemma length_sepapp: "length out \<le> length (sepapp out t)"
  by (simp add: sepapp_def)

lemma length_sepapps: "length out \<le> length (foldl sepapp out ts)"
proof (induction ts arbitrary: out)
  case (Cons t ts)
  then show ?case using length_sepapp [of out t] order_trans by fastforce
qed simp

lemma sepapps_prefix_fits:
  "length (foldl sepapp out (xs @ ys)) \<le> cap \<Longrightarrow> length (foldl sepapp out xs) \<le> cap"
  using length_sepapps order_trans by (fastforce simp: foldl_append)

lemma emits_fits: "length out + length cs \<le> cap \<Longrightarrow> emits cap out cs = Inr (out @ cs)"
  by (induction cs arbitrary: out) (simp_all add: emit_def)

lemma emit_token:
  assumes "length (sepapp out t) \<le> cap"
  shows "ebind (append_separator cap out) (\<lambda>out1. ebind (emits cap out1 t) f) = f (sepapp out t)"
  using assms
  by (cases "out = []") (simp_all add: append_separator_def emit_def sepapp_def emits_fits)

lemma emit_item_fits:
  "length (sepapp out [item_char A x]) \<le> cap \<Longrightarrow> emit_item A cap out x = Inr (sepapp out [item_char A x])"
  by (cases "out = []") (simp_all add: emit_item_def append_separator_def emit_def sepapp_def)

lemma sepapps_nonempty: "out \<noteq> [] \<Longrightarrow> foldl sepapp out ts = out @ concat (map (\<lambda>t. SP # t) ts)"
proof (induction ts arbitrary: out)
  case (Cons t ts)
  then show ?case by (simp add: sepapp_def)
qed simp

lemma sepapps_spaced: "[] \<notin> set ts \<Longrightarrow> foldl sepapp [] ts = spaced ts"
  by (cases ts) (auto simp: spaced_def sepapps_nonempty sepapp_def)

section \<open>The conversion to postfix\<close>

text \<open>
  While a tree is read, the operators on its right spine wait on the stack (\<open>pend\<close>) and the rest
  of its postfix form has been written (\<open>out1\<close>).
\<close>

fun pend :: "cst \<Rightarrow> string" where
  "pend (Bin k op l r) = pend r @ [op]"
| "pend _ = []"

fun out1 :: "cst \<Rightarrow> string list" where
  "out1 (Num k ds) = [ds]"
| "out1 (Bin k op l r) = post l @ out1 r"
| "out1 (Brk k b e k' b') = post e"

abbreviation singles :: "string \<Rightarrow> string list" where "singles \<equiv> map (\<lambda>c. [c])"

definition below :: "'d item list \<Rightarrow> nat \<Rightarrow> bool" where
  "below st n \<longleftrightarrow> (case st of [] \<Rightarrow> True | x # _ \<Rightarrow> \<exists>c. x = POp c \<and> (strchr_in brackets c \<or> prec c < n))"

lemma post_split: "post e = out1 e @ singles (pend e)"
  by (induction e) auto

lemma op_chars:
  assumes "op \<in> set ''+-*/''"
  shows "op \<noteq> SP" "\<not> numch op" "\<not> isdigit op" "op \<noteq> CHR ''.''" "\<not> strchr_in brackets op"
    "\<not> strchr_in opening_brackets op" "op \<noteq> CHR 0x5E" "\<not> isspace op" "op \<noteq> NUL"
  using assms by (auto simp: numch_def strchr_in_def isdigit_def isspace_def)

lemma prec_op: "op \<in> set ''+-*/'' \<Longrightarrow> 0 < prec op \<and> prec op \<le> 2"
  by (auto simp: prec_def)

lemma bracket_chars:
  "b \<in> set opening_brackets \<Longrightarrow> b \<noteq> SP \<and> \<not> numch b \<and> strchr_in brackets b \<and> strchr_in opening_brackets b"
  "b \<in> set closing_brackets \<Longrightarrow> b \<noteq> SP \<and> \<not> numch b \<and> strchr_in brackets b \<and>
     \<not> strchr_in opening_brackets b \<and> strchr_in closing_brackets b"
  by (auto simp: numch_def strchr_in_def isdigit_def)

lemma should_pop_iff: "op \<noteq> CHR 0x5E \<Longrightarrow> should_pop c op \<longleftrightarrow> prec op \<le> prec c"
  by (auto simp: should_pop_def isRightAssociative_def Let_def)

lemma pend_ops: "wf_cst e \<Longrightarrow> c \<in> set (pend e) \<Longrightarrow> c \<in> set ''+-*/'' \<and> level e \<le> prec c"
  by (induction e) fastforce+

lemma postfix_spaces: "postfix_loop A cap (replicate k SP @ s) st out = postfix_loop A cap s st out"
  by (induction k) auto

lemma pop_ops_pending:
  assumes "\<forall>c \<in> set cs. c \<in> set ''+-*/'' \<and> prec op \<le> prec c" and "op \<in> set ''+-*/''"
    and "below st (prec op)" and "length (foldl sepapp out (singles cs)) \<le> cap"
  shows "pop_ops A cap op (map POp cs @ st) out = Inr (st, foldl sepapp out (singles cs))"
  using assms
proof (induction cs arbitrary: out)
  case Nil
  then show ?case
    using op_chars(7) [OF assms(2)]
    by (cases st) (auto simp: below_def should_pop_iff)
next
  case (Cons c cs)
  have fits: "length (sepapp out [c]) \<le> cap"
    using Cons.prems(4) sepapps_prefix_fits [of out "[[c]]" "singles cs"] by simp
  show ?case
    using Cons op_chars(7) [OF assms(2)] op_chars(5) [of c]
    by (simp add: should_pop_iff emit_item_fits fits)
qed

lemma close_pending:
  assumes "\<forall>c \<in> set cs. c \<in> set ''+-*/''" and "strchr_in opening_brackets b"
    and "length (foldl sepapp out (singles cs)) \<le> cap"
  shows "close_bracket A cap (map POp cs @ POp b # st) out = Inr (st, foldl sepapp out (singles cs))"
  using assms
proof (induction cs arbitrary: out)
  case (Cons c cs)
  have fits: "length (sepapp out [c]) \<le> cap"
    using Cons.prems(3) sepapps_prefix_fits [of out "[[c]]" "singles cs"] by simp
  show ?case
    using Cons op_chars(6) [of c] by (simp add: emit_item_fits fits)
qed simp

lemma flush_pending:
  assumes "length (foldl sepapp out (singles cs)) \<le> cap"
  shows "flush A cap (map POp cs) out = Inr (foldl sepapp out (singles cs))"
  using assms
proof (induction cs arbitrary: out)
  case (Cons c cs)
  have fits: "length (sepapp out [c]) \<le> cap"
    using Cons.prems sepapps_prefix_fits [of out "[[c]]" "singles cs"] by simp
  show ?case using Cons by (simp add: emit_item_fits fits)
qed simp

lemma postfix_number:
  assumes "wf_num ds" and "s = [] \<or> \<not> numch (hd s)" and "length (sepapp out ds) \<le> cap"
  shows "postfix_loop A cap (ds @ s) st out = postfix_loop A cap s st (sepapp out ds)"
proof -
  have all: "\<forall>c \<in> set ds. numch c" and "ds \<noteq> []"
    using assms(1) by (auto simp: wf_num_def list_all_iff)
  then obtain c cs where ds: "ds = c # cs" by (cases ds) auto
  have tw: "takeWhile numch (ds @ s) = ds" and dw: "dropWhile numch (ds @ s) = s"
    using all assms(2) by (cases s; simp add: takeWhile_append2 dropWhile_append2)+
  have c: "isdigit c \<or> c = CHR ''.''" and sp: "c \<noteq> SP"
    using all ds by (auto simp: numch_def isdigit_def)
  have "postfix_loop A cap (c # cs @ s) st out =
      ebind (append_separator cap out) (\<lambda>out1. ebind (emits cap out1 ds) (\<lambda>out2. postfix_loop A cap s st out2))"
    using c sp tw dw ds by simp
  also have "\<dots> = postfix_loop A cap s st (sepapp out ds)"
    by (rule emit_token [OF assms(3)])
  finally show ?thesis by (simp add: ds)
qed

lemma postfix_op:
  assumes "op \<in> set ''+-*/''" and "\<forall>c \<in> set cs. c \<in> set ''+-*/'' \<and> prec op \<le> prec c"
    and "below st (prec op)" and "length (foldl sepapp out (singles cs)) \<le> cap"
  shows "postfix_loop A cap (op # s) (map POp cs @ st) out =
         postfix_loop A cap s (POp op # st) (foldl sepapp out (singles cs))"
proof -
  have "op = CHR ''+'' \<or> op = CHR ''-'' \<or> op = CHR ''*'' \<or> op = CHR ''/''" using assms(1) by auto
  then show ?thesis
    using pop_ops_pending [OF assms(2,1,3,4), of A] op_chars [OF assms(1)] by (cases "map POp cs @ st") auto
qed

lemma postfix_open:
  "b \<in> set opening_brackets \<Longrightarrow> postfix_loop A cap (b # s) st out = postfix_loop A cap s (POp b # st) out"
  using bracket_chars(1) [of b] by (auto simp: numch_def)

lemma postfix_close:
  assumes "b' \<in> set closing_brackets" and "b \<in> set opening_brackets" and "\<forall>c \<in> set cs. c \<in> set ''+-*/''"
    and "length (foldl sepapp out (singles cs)) \<le> cap"
  shows "postfix_loop A cap (b' # s) (map POp cs @ POp b # st) out =
         postfix_loop A cap s st (foldl sepapp out (singles cs))"
  using bracket_chars(2) [OF assms(1)] bracket_chars(1) [OF assms(2)] close_pending [OF assms(3) _ assms(4), of b A st]
  by (auto simp: numch_def)

lemma postfix_cst:
  assumes "wf_cst e" and "below st (level e)" and "s = [] \<or> \<not> numch (hd s)"
    and "length (foldl sepapp out (post e)) \<le> cap"
  shows "postfix_loop A cap (render e @ s) st out =
         postfix_loop A cap s (map POp (pend e) @ st) (foldl sepapp out (out1 e))"
  using assms
proof (induction e arbitrary: s st out)
  case (Num k ds)
  then show ?case by (simp add: postfix_spaces postfix_number)
next
  case (Bin k op l r)
  let ?l = "foldl sepapp out (post l)"
  have op: "op \<in> set ''+-*/''" and wf: "wf_cst l" "wf_cst r"
    and lev: "prec op \<le> level l" "prec op < level r"
    using Bin.prems(1) by auto
  have fits: "length ?l \<le> cap" "length (foldl sepapp ?l (post r)) \<le> cap"
    using Bin.prems(4) sepapps_prefix_fits [of out "post l @ post r" "[[op]]" cap]
      sepapps_prefix_fits [of out "post l" "post r" cap] by simp_all
  have b: "below st (prec op)" using Bin.prems(2) by simp
  have bl: "below st (level l)"
    using b lev(1) by (auto simp: below_def split: list.splits intro: less_le_trans)
  have nn: "\<not> numch (hd (replicate k SP @ op # render r @ s))"
    using op_chars(2) [OF op] by (cases k) (auto simp: numch_def isdigit_def)
  have l: "postfix_loop A cap (render l @ replicate k SP @ op # render r @ s) st out =
      postfix_loop A cap (op # render r @ s) (map POp (pend l) @ st) (foldl sepapp out (out1 l))"
    using Bin.IH(1) [OF wf(1) bl _ fits(1)] nn by (simp add: postfix_spaces)
  have "\<forall>c \<in> set (pend l). c \<in> set ''+-*/'' \<and> prec op \<le> prec c"
    using pend_ops [OF wf(1)] lev(1) le_trans by blast
  from postfix_op [OF op this b, of "foldl sepapp out (out1 l)" cap A "render r @ s"] fits(1)
  have o: "postfix_loop A cap (op # render r @ s) (map POp (pend l) @ st) (foldl sepapp out (out1 l)) =
      postfix_loop A cap (render r @ s) (POp op # st) ?l"
    by (simp add: post_split [of l])
  have "below (POp op # st) (level r)" using lev(2) by (simp add: below_def)
  from Bin.IH(2) [OF wf(2) this Bin.prems(3) fits(2)] show ?case
    by (simp add: l o del: postfix_loop.simps)
next
  case (Brk k b e k' b')
  have b: "b \<in> set opening_brackets" "b' \<in> set closing_brackets" and wf: "wf_cst e"
    using Brk.prems(1) by auto
  have "below (POp b # st) (level e)" using bracket_chars(1) [OF b(1)] by (simp add: below_def)
  moreover have "\<not> numch (hd (replicate k' SP @ b' # s))"
    using bracket_chars(2) [OF b(2)] by (cases k') (auto simp: numch_def isdigit_def)
  ultimately have "postfix_loop A cap (render e @ replicate k' SP @ b' # s) (POp b # st) out =
      postfix_loop A cap (b' # s) (map POp (pend e) @ POp b # st) (foldl sepapp out (out1 e))"
    using Brk.IH [OF wf] Brk.prems(4) by (simp add: postfix_spaces)
  moreover have "\<forall>c \<in> set (pend e). c \<in> set ''+-*/''" using pend_ops [OF wf] by blast
  from postfix_close [OF b(2,1) this, of "foldl sepapp out (out1 e)" cap A s st]
  have "postfix_loop A cap (b' # s) (map POp (pend e) @ POp b # st) (foldl sepapp out (out1 e)) =
      postfix_loop A cap s st (foldl sepapp out (post e))"
    using Brk.prems(4) by (simp add: post_split [of e])
  ultimately show ?case
    by (simp add: postfix_spaces postfix_open [OF b(1)] del: postfix_loop.simps)
qed

lemma post_nonempty: "wf_cst e \<Longrightarrow> [] \<notin> set (post e)"
  by (induction e) (auto simp: wf_num_def)

text \<open>The written part of the buffer, whenever the postfix form fits it.\<close>

lemma to_postfix_correct:
  assumes "wf_cst e" and "length (spaced (post e)) \<le> length (render e) + k + 1"
  shows "to_postfix A [] (render e @ replicate k SP) = Inr (spaced (post e))"
proof -
  let ?cap = "length (render e @ replicate k SP) + 1"
  have sp: "foldl sepapp [] (post e) = spaced (post e)"
    by (rule sepapps_spaced [OF post_nonempty [OF assms(1)]])
  have fits: "length (foldl sepapp [] (post e)) \<le> ?cap" using assms(2) sp by simp
  have e: "replicate k SP = [] \<or> \<not> numch (hd (replicate k SP))"
    by (cases k) (auto simp: numch_def isdigit_def)
  have "postfix_loop A ?cap (render e @ replicate k SP) [] [] =
      postfix_loop A ?cap (replicate k SP @ []) (map POp (pend e)) (foldl sepapp [] (out1 e))"
    using postfix_cst [OF assms(1) _ e fits, of "[]" A] by (simp add: below_def)
  also have "\<dots> = flush A ?cap (map POp (pend e)) (foldl sepapp [] (out1 e))"
    unfolding postfix_spaces by simp
  also have "\<dots> = Inr (foldl sepapp [] (post e))"
    using fits flush_pending [of "foldl sepapp [] (out1 e)" "pend e" ?cap A]
    by (simp add: post_split [of e])
  finally show ?thesis by (simp add: to_postfix_def sp)
qed

section \<open>The evaluation of postfix\<close>

lemma eval_loop_end [simp]: "eval_loop A (NUL # r) st = Some (Inr st)"
  by (subst eval_loop.simps) simp

lemma eval_loop_space [simp]: "eval_loop A (SP # r) st = eval_loop A r st"
  by (subst eval_loop.simps) (simp add: isspace_def)

lemma eval_loop_op:
  "op \<in> set ''+-*/'' \<Longrightarrow>
   eval_loop A (op # r) (y # x # st) = eval_loop A r (arith_op A op x y # st)"
  using op_chars [of op] by (subst eval_loop.simps) auto

lemma mantissa_number:
  assumes "wf_num ds" and "r \<noteq> []" and "\<not> isdigit (hd r)" and "hd r \<noteq> CHR ''.''"
  shows "mantissa isdigit (ds @ r) = (ds, r)"
proof (cases "CHR ''.'' \<in> set ds")
  case False
  then have d: "\<forall>c \<in> set ds. isdigit c" using assms(1) by (auto simp: wf_num_def list_all_iff numch_def)
  obtain c s where r: "r = c # s" using assms(2) by (cases r) auto
  have "takeWhile isdigit (ds @ r) = ds" "dropWhile isdigit (ds @ r) = r"
    using d assms(3) r by (auto simp: takeWhile_append_stop dropWhile_append_stop)
  then show ?thesis using assms(4) r by (simp add: mantissa_def)
next
  case True
  then obtain a b where ds: "ds = a @ CHR ''.'' # b" by (meson split_list)
  have "length (filter (\<lambda>c. c = CHR ''.'') a) + length (filter (\<lambda>c. c = CHR ''.'') b) = 0"
    using assms(1) by (simp add: wf_num_def ds)
  then have "CHR ''.'' \<notin> set a" "CHR ''.'' \<notin> set b" by (auto simp: filter_empty_conv)
  then have d: "\<forall>c \<in> set a. isdigit c" "\<forall>c \<in> set b. isdigit c"
    using assms(1) by (auto simp: wf_num_def list_all_iff numch_def ds)
  have ne: "a \<noteq> [] \<or> b \<noteq> []" using assms(1) by (auto simp: wf_num_def ds isdigit_def)
  obtain c s where r: "r = c # s" using assms(2) by (cases r) auto
  have dot: "\<not> isdigit (CHR ''.'')" by (simp add: isdigit_def)
  have "takeWhile isdigit (ds @ r) = a" "dropWhile isdigit (ds @ r) = CHR ''.'' # b @ r"
    using d dot by (auto simp: ds takeWhile_append_stop dropWhile_append_stop)
  moreover have "takeWhile isdigit (b @ r) = b" "dropWhile isdigit (b @ r) = r"
    using d assms(3) r by (auto simp: takeWhile_append_stop dropWhile_append_stop)
  ultimately show ?thesis using ne by (simp add: mantissa_def ds Let_def)
qed

lemma strtod_number:
  assumes "wf_num ds" and "c = SP \<or> c = NUL"
  shows "strtod_text (ds @ c # r) = (ds, c # r)"
proof -
  have c: "\<not> isdigit c" "c \<noteq> CHR ''.''" using assms(2) by (auto simp: isdigit_def)
  have m: "mantissa isdigit (ds @ c # r) = (ds, c # r)" using mantissa_number [OF assms(1)] c by simp
  have nx: "x \<in> set ds \<Longrightarrow> x \<noteq> CHR ''x'' \<and> x \<noteq> CHR ''X''" for x
    using assms(1) by (auto simp: wf_num_def list_all_iff numch_def isdigit_def)
  obtain d ds' where ds: "ds = d # ds'" using assms(1) by (cases ds) (auto simp: wf_num_def)
  then have "(ds @ c # r) ! 1 \<noteq> CHR ''x'' \<and> (ds @ c # r) ! 1 \<noteq> CHR ''X''"
    using assms(2) nx [of "hd ds'"] by (cases ds') auto
  moreover have "exponent ''eE'' (c # r) = ([], c # r)" using assms(2) by (auto simp: exponent_def Let_def)
  ultimately show ?thesis using m ds by (auto simp: strtod_text_def Let_def)
qed

lemma eval_loop_number:
  assumes "wf_num ds" and "c = SP \<or> c = NUL"
  shows "eval_loop A (ds @ c # r) st = eval_loop A (c # r) (strtod_val A ds # st)"
proof -
  obtain d ds' where ds: "ds = d # ds'" using assms(1) by (cases ds) (auto simp: wf_num_def)
  have d: "isdigit d \<or> d = CHR ''.''" using assms(1) ds by (auto simp: wf_num_def numch_def)
  then have ne: "d \<noteq> NUL" "\<not> isspace d" by (auto simp: isdigit_def isspace_def)
  from strtod_number [OF assms, of r] show ?thesis
    using d ne unfolding ds by (subst eval_loop.simps) auto
qed

lemma post_space:
  obtains s where "concat (map (\<lambda>t. SP # t) (post e)) = SP # s"
proof -
  have "\<exists>s. concat (map (\<lambda>t. SP # t) (post e)) = SP # s" by (induction e) auto
  then show ?thesis using that by blast
qed

lemma eval_loop_post:
  assumes "wf_cst e" and "c = SP \<or> c = NUL"
  shows "eval_loop A (concat (map (\<lambda>t. SP # t) (post e)) @ c # r) st = eval_loop A (c # r) (meaning A e # st)"
  using assms
proof (induction e arbitrary: st c r)
  case (Num k ds)
  then show ?case by (simp add: eval_loop_number)
next
  case (Bin k op l r')
  then have wf: "wf_cst l" "wf_cst r'" and op: "op \<in> set ''+-*/''" by auto
  obtain s where s: "concat (map (\<lambda>t. SP # t) (post r')) = SP # s" by (rule post_space)
  have "eval_loop A (concat (map (\<lambda>t. SP # t) (post l)) @ SP # s @ SP # op # c # r) st =
      eval_loop A (SP # s @ SP # op # c # r) (meaning A l # st)"
    by (rule Bin.IH(1) [OF wf(1)]) simp
  moreover have "eval_loop A ((SP # s) @ SP # op # c # r) (meaning A l # st) =
      eval_loop A (SP # op # c # r) (meaning A r' # meaning A l # st)"
    unfolding s [symmetric] by (rule Bin.IH(2) [OF wf(2)]) simp
  ultimately show ?case using eval_loop_op [OF op] by (simp add: s del: arith_op.simps)
next
  case (Brk k b e k' b')
  then show ?case by simp
qed

lemma eval_loop_spaced:
  assumes "wf_cst e"
  shows "eval_loop A (spaced (post e) @ NUL # r) [] = Some (Inr [meaning A e])"
proof -
  obtain s where s: "concat (map (\<lambda>t. SP # t) (post e)) = SP # s" by (rule post_space)
  have "spaced (post e) = s" using s by (cases "post e") (auto simp: spaced_def)
  then show ?thesis using eval_loop_post [OF assms, of NUL A r "[]"] by (simp add: s)
qed

section \<open>Room in the buffer\<close>

definition post_size :: "cst \<Rightarrow> nat" where
  "post_size e = sum_list (map (\<lambda>t. length t + 1) (post e))"

lemma length_spaced: "ts \<noteq> [] \<Longrightarrow> length (spaced ts) + 1 = sum_list (map (\<lambda>t. length t + 1) ts)"
  by (cases ts) (auto simp: spaced_def length_concat comp_def)

lemma lead_le: "lead e \<le> length (render e)"
  by (induction e) auto

lemma post_size_le: "roomy e \<Longrightarrow> post_size e + lead e \<le> length (render e) + 1"
  by (induction e) (auto simp: post_size_def)

lemma roomy_fits: "roomy e \<Longrightarrow> length (spaced (post e)) \<le> length (render e)"
proof -
  assume "roomy e"
  moreover have "post e \<noteq> []" by (induction e) auto
  ultimately show ?thesis using post_size_le [of e] length_spaced [of "post e"] by (simp add: post_size_def)
qed

section \<open>Properties\<close>

lemma eval_renders:
  assumes "wf_cst e" and "roomy e" and "expr = render e @ replicate k SP"
  shows "eval A (replicate (length expr + 1) NUL) [] expr = Some (Inr (meaning A e, []))"
proof -
  have len: "length (spaced (post e)) \<le> length (render e)" by (rule roomy_fits [OF assms(2)])
  then have t: "to_postfix A [] expr = Inr (spaced (post e))"
    using assms(1,3) to_postfix_correct [of e k A] by simp
  obtain z where "drop (length (spaced (post e))) (replicate (length expr + 1) NUL) = NUL # z"
  proof -
    obtain m where "length expr + 1 - length (spaced (post e)) = Suc m"
      using len assms(3) by (cases "length expr + 1 - length (spaced (post e))") auto
    then show ?thesis by (intro that [of "replicate m NUL"]) (simp only: drop_replicate replicate_Suc)
  qed
  then show ?thesis
    using eval_loop_spaced [OF assms(1), of A z] by (simp add: eval_def t eval_postfix_def)
qed


definition sample :: cst where
  "sample = Bin 1 (CHR ''-'') (Bin 1 (CHR ''+'') (Num 0 ''123'') (Bin 1 (CHR ''*'') (Num 1 ''2'') (Num 1 ''2.5''))) (Brk 1 (CHR ''('') (Num 0 ''1'') 0 (CHR '')''))"

text \<open>An arithmetic to run the calculator with: fixed point numbers with one decimal place.\<close>

definition tenths :: "int darith" where
  "tenths = \<lparr>fadd = (+), fsub = (-), fmul = (\<lambda>a b. a * b div 10), fdiv = (\<lambda>a b. 10 * a div b),
     strtod_val = (\<lambda>s. 10 * dec_val (takeWhile isdigit s) + dec_val (take 1 (drop 1 (dropWhile isdigit s)))),
     byte0 = (\<lambda>_. NUL)\<rparr>"


text \<open>C39: \<open>to_postfix\<close> never writes a terminator: for every such expression, if no byte of the rest of
  the buffer happens to be zero, the evaluation runs past the end of the buffer.\<close>

theorem eval_unterminated:
  assumes "wf_cst e" and "roomy e" and "expr = render e @ replicate k SP"
    and "NUL \<notin> set (drop (length (spaced (post e))) init)"
  shows "eval A init [] expr = Some (Inl OutOfBounds)"
proof -
  have t: "to_postfix A [] expr = Inr (spaced (post e))"
    using assms(1,3) to_postfix_correct [of e k A] roomy_fits [OF assms(2)] by simp
  have "\<forall>t \<in> set (post e). NUL \<notin> set t"
    using assms(1) by (induction e) (auto simp: wf_num_def list_all_iff numch_def isdigit_def)
  then have "NUL \<notin> set (spaced (post e))"
    by (cases "post e") (auto simp: spaced_def)
  then show ?thesis using assms(4) by (simp add: eval_def t eval_postfix_def)
qed

theorem eval_unterminated_witness: "eval tenths ''ab'' [] ''7'' = Some (Inl OutOfBounds)"
  using eval_unterminated [of "Num 0 ''7''" "''7''" 0 "''ab''" tenths]
  by (simp add: wf_num_def isdigit_def numch_def spaced_def)

text \<open>Without spaces the buffer of \<open>strlen(expr) + 1\<close> bytes is too small for the separators: an
  operator between two digits always writes beyond it.\<close>

lemma eval_overflows:
  assumes "isdigit a" and "isdigit b" and "op \<in> set ''+-*/''"
  shows "eval A init [] [a, op, b] = Some (Inl OutOfBounds)"
proof -
  have n: "numch a" "numch b" "a \<noteq> SP" "b \<noteq> SP" using assms(1,2) by (auto simp: numch_def isdigit_def)
  note o = op_chars [OF assms(3)]
  have "op = CHR ''+'' \<or> op = CHR ''-'' \<or> op = CHR ''*'' \<or> op = CHR ''/''" using assms(3) by auto
  then have "to_postfix A [] [a, op, b] = Inl OutOfBounds"
    using assms n o by (simp add: to_postfix_def append_separator_def emit_def emit_item_def)
  then show ?thesis by (simp add: eval_def)
qed

lemma eval_overflows_instance: "eval tenths ''abcd'' [] ''1+2'' = Some (Inl OutOfBounds)"
  using eval_overflows [of "CHR ''1''" "CHR ''2''" "CHR ''+''" tenths "''abcd''"] by (simp add: isdigit_def)

lemma eval_loop_dot:
  assumes "eval_loop A p st = Some res"
  shows "p \<noteq> CHR ''.'' # NUL # r"
  by (rule eval_loop.raw_induct [of "\<lambda>A p st res. p \<noteq> CHR ''.'' # NUL # r", OF _ assms])
     (auto simp: strtod_text_def mantissa_def exponent_def isdigit_def isxdigit_def isspace_def Let_def, blast)

text \<open>An expression that is a single dot makes the evaluation run forever, pushing a number in each
  round: \<open>strtod\<close> consumes nothing and \<open>p\<close> never moves.\<close>

lemma eval_dot_diverges:
  "eval A [x, NUL] [] ''.'' = None"
proof -
  have "eval_loop A [CHR ''.'', NUL] [] = None"
    using eval_loop_dot by (metis not_Some_eq)
  moreover have "to_postfix A [] ''.'' = Inr ''.''"
    by (simp add: to_postfix_def append_separator_def emit_def numch_def)
  ultimately show ?thesis by (simp add: eval_def eval_postfix_def)
qed

text \<open>
  A number left over on the global stack is not discarded: the next conversion starts with it and
  writes the first byte of the \<open>double\<close> into its output.
\<close>

lemma to_postfix_stale: "to_postfix A [PVal d] ''1  '' = Inr [CHR ''1'', SP, byte0 A d]"
  by (simp add: to_postfix_def append_separator_def emit_def emit_item_def numch_def isdigit_def)

end
