(* ===== verification/Bitcask_CRC.thy ===== *)
theory Bitcask_CRC
  imports Prelude "HOL-Library.Word"
begin

text \<open>
  The byte-level helpers of the bitcask store, \<open>96. bitcask/helper.c\<close> (and the same code as a study in
  \<open>theories/algorithm/crc_error_detection.c\<close>): the table-driven CRC-32 and the little-endian packing.

  \<open>crc_bit\<close> is one round of the inner loop that builds the table. \<open>crc_bitwise\<close> is the reference: the
  same polynomial division bit by bit, without a table. The lemmas show that the table computes it, that
  a round is linear and injective, and hence which corruptions the checksum detects.
\<close>

unbundle bit_operations_syntax

type_synonym u8 = "8 word"
type_synonym u32 = "32 word"
type_synonym u64 = "64 word"

section \<open>The checksum\<close>

definition POLYNOMIAL :: u32 where "POLYNOMIAL = 0xEDB88320"

definition crc_bit :: "u32 \<Rightarrow> u32" where
  "crc_bit crc = (if crc AND 1 \<noteq> 0 then drop_bit 1 crc XOR POLYNOMIAL else drop_bit 1 crc)"

definition crc32_init :: "u32 list" where
  "crc32_init = map (\<lambda>i. (crc_bit ^^ 8) (of_nat i)) [0..<256]"

definition crc_step :: "u32 list \<Rightarrow> u32 \<Rightarrow> u8 \<Rightarrow> u32" where
  "crc_step crc_table crc b =
     (let index = (ucast ((crc XOR ucast b) AND 0xFF) :: u8)
      in drop_bit 8 crc XOR crc_table ! unat index)"

definition crc32 :: "u32 list \<Rightarrow> u8 list \<Rightarrow> u32" where
  "crc32 crc_table bytes = foldl (crc_step crc_table) 0xFFFFFFFF bytes XOR 0xFFFFFFFF"

definition crc32_of :: "u8 list \<Rightarrow> u32" where
  "crc32_of bytes = crc32 crc32_init bytes"

section \<open>Packing\<close>

definition pack_u32 :: "u32 \<Rightarrow> u8 list" where
  "pack_u32 v = [ucast (v AND 0xFF), ucast (drop_bit 8 v AND 0xFF),
                 ucast (drop_bit 16 v AND 0xFF), ucast (drop_bit 24 v AND 0xFF)]"

definition pack_u64 :: "u64 \<Rightarrow> u8 list" where
  "pack_u64 v = [ucast (v AND 0xFF), ucast (drop_bit 8 v AND 0xFF),
                 ucast (drop_bit 16 v AND 0xFF), ucast (drop_bit 24 v AND 0xFF),
                 ucast (drop_bit 32 v AND 0xFF), ucast (drop_bit 40 v AND 0xFF),
                 ucast (drop_bit 48 v AND 0xFF), ucast (drop_bit 56 v AND 0xFF)]"

text \<open>The value of a little-endian byte sequence.\<close>

fun le_val :: "u8 list \<Rightarrow> nat" where
  "le_val [] = 0"
| "le_val (b # bs) = unat b + 256 * le_val bs"

lemma length_pack [simp]: "length (pack_u32 v) = 4" "length (pack_u64 w) = 8"
  by (simp_all add: pack_u32_def pack_u64_def)

lemma unat_byte: "unat (ucast (drop_bit n v AND 0xFF) :: u8) = unat (v :: 'a :: len word) div 2 ^ n mod 256"
proof -
  have "(0xFF :: 'a word) = mask 8" by (simp add: mask_eq_exp_minus_1)
  then have "drop_bit n v AND 0xFF = take_bit 8 (drop_bit n v)" by (simp add: take_bit_eq_mask)
  then have "unat (ucast (drop_bit n v AND 0xFF) :: u8) = take_bit 8 (take_bit 8 (drop_bit n (unat v)))"
    by (simp add: unsigned_ucast_eq unsigned_take_bit_eq unat_drop_bit_eq)
  then show ?thesis by (simp add: take_bit_eq_mod drop_bit_eq_div)
qed

lemma digit_step: "m div k mod 256 + 256 * (m div (k * 256)) = (m div k :: nat)"
  by (simp add: div_mult2_eq)

lemma le_val_pack_u32: "le_val (pack_u32 v) = unat v"
proof -
  have "unat v < 2 ^ 32" using unsigned_less [of v] by simp
  then show ?thesis
    using unat_byte [of 0 v] unat_byte [of 8 v] unat_byte [of 16 v] unat_byte [of 24 v]
      digit_step [of "unat v" 1] digit_step [of "unat v" "2 ^ 8"] digit_step [of "unat v" "2 ^ 16"]
      digit_step [of "unat v" "2 ^ 24"]
    by (simp add: pack_u32_def)
qed

lemma le_val_pack_u64: "le_val (pack_u64 v) = unat v"
proof -
  have "unat v < 2 ^ 64" using unsigned_less [of v] by simp
  then show ?thesis
    using unat_byte [of 0 v] unat_byte [of 8 v] unat_byte [of 16 v] unat_byte [of 24 v]
      unat_byte [of 32 v] unat_byte [of 40 v] unat_byte [of 48 v] unat_byte [of 56 v]
      digit_step [of "unat v" 1] digit_step [of "unat v" "2 ^ 8"] digit_step [of "unat v" "2 ^ 16"]
      digit_step [of "unat v" "2 ^ 24"] digit_step [of "unat v" "2 ^ 32"] digit_step [of "unat v" "2 ^ 40"]
      digit_step [of "unat v" "2 ^ 48"] digit_step [of "unat v" "2 ^ 56"]
    by (simp add: pack_u64_def)
qed

lemma bit32: "bit (x :: u32) n \<Longrightarrow> n < 32"
  by (drule bit_imp_le_length) simp

lemma bit8: "bit (x :: u8) n \<Longrightarrow> n < 8"
  by (drule bit_imp_le_length) simp

section \<open>The table computes the bitwise checksum\<close>

definition crc_bitwise :: "u8 list \<Rightarrow> u32" where
  "crc_bitwise bytes = foldl (\<lambda>crc b. (crc_bit ^^ 8) (crc XOR ucast b)) 0xFFFFFFFF bytes XOR 0xFFFFFFFF"

lemma crc_bit_iff: "bit (crc_bit x) n \<longleftrightarrow> bit x (Suc n) \<noteq> (bit x 0 \<and> bit POLYNOMIAL n)"
proof -
  have "x AND 1 \<noteq> 0 \<longleftrightarrow> bit x 0" by (simp add: and_one_eq odd_iff_mod_2_eq_one bit_0)
  then show ?thesis by (auto simp: crc_bit_def bit_simps)
qed

lemma crc_bit_xor: "crc_bit (x XOR y) = crc_bit x XOR crc_bit y"
  by (rule bit_word_eqI) (auto simp: crc_bit_iff bit_simps)

lemma crc_bits_xor: "(crc_bit ^^ n) (x XOR y) = (crc_bit ^^ n) x XOR (crc_bit ^^ n) y"
  by (induction n) (simp_all add: crc_bit_xor)

lemma crc_bits_low_zero: "\<forall>i < n. \<not> bit x i \<Longrightarrow> (crc_bit ^^ n) x = drop_bit n x"
proof (induction n arbitrary: x)
  case (Suc n)
  have "crc_bit x = drop_bit 1 x"
    using Suc.prems by (intro bit_word_eqI) (auto simp: crc_bit_iff bit_simps)
  moreover have "\<forall>i < n. \<not> bit (drop_bit 1 x) i" using Suc.prems by (auto simp: bit_simps)
  ultimately show ?case using Suc.IH [of "drop_bit 1 x"] by (simp add: funpow_Suc_right del: funpow.simps)
qed simp

lemma bit_POLYNOMIAL_31: "bit POLYNOMIAL 31"
  by (simp add: POLYNOMIAL_def)

lemma crc_bit_inj: "crc_bit x = crc_bit y \<Longrightarrow> x = y"
proof (rule bit_word_eqI)
  fix n assume eq: "crc_bit x = crc_bit y" and n: "n < LENGTH(32)"
  have "\<not> bit (z :: u32) 32" for z using bit_imp_le_length [of z 32] by auto
  then have 0: "bit x 0 = bit y 0"
    using crc_bit_iff [of x 31] crc_bit_iff [of y 31] eq bit_POLYNOMIAL_31 by auto
  show "bit x n = bit y n"
  proof (cases n)
    case (Suc m)
    then show ?thesis using crc_bit_iff [of x m] crc_bit_iff [of y m] eq 0 by auto
  qed (use 0 in simp)
qed

lemma crc_bits_inj: "(crc_bit ^^ n) x = (crc_bit ^^ n) y \<Longrightarrow> x = y"
  by (induction n) (auto dest: crc_bit_inj)

text \<open>Eight rounds consume one byte: the low byte selects the table entry, the rest is shifted.\<close>

lemma crc_bits_byte: "(crc_bit ^^ 8) x = drop_bit 8 x XOR (crc_bit ^^ 8) (x AND 0xFF)"
proof -
  have m: "(0xFF :: u32) = mask 8" by (simp add: mask_eq_exp_minus_1)
  have "x = (x AND NOT (mask 8)) XOR (x AND mask 8)"
    by (rule bit_word_eqI) (auto simp: bit_simps)
  then have "(crc_bit ^^ 8) x = (crc_bit ^^ 8) (x AND NOT (mask 8)) XOR (crc_bit ^^ 8) (x AND mask 8)"
    by (metis crc_bits_xor)
  moreover have "(crc_bit ^^ 8) (x AND NOT (mask 8)) = drop_bit 8 (x AND NOT (mask 8))"
    by (rule crc_bits_low_zero) (auto simp: bit_simps)
  moreover have "drop_bit 8 (x AND NOT (mask 8)) = drop_bit 8 x"
    by (rule bit_word_eqI) (auto simp: bit_simps dest: bit32)
  ultimately show ?thesis by (simp only: m)
qed

lemma crc_table_entry: "crc32_init ! unat (ucast (x AND 0xFF) :: u8) = (crc_bit ^^ 8) (x AND 0xFF)"
proof -
  have m: "(0xFF :: u32) = mask 8" by (simp add: mask_eq_exp_minus_1)
  have u: "unat (ucast (x AND 0xFF) :: u8) = unat (x AND 0xFF)"
    by (simp add: m unsigned_ucast_eq unsigned_take_bit_eq flip: take_bit_eq_mask)
  have "unat (ucast (x AND 0xFF) :: u8) < 256" using unsigned_less [of "ucast (x AND 0xFF) :: u8"] by simp
  then have "unat (x AND 0xFF) < 256" by (simp only: u)
  then show ?thesis unfolding u by (simp add: crc32_init_def)
qed

lemma crc_step_bitwise: "crc_step crc32_init crc b = (crc_bit ^^ 8) (crc XOR ucast b)"
proof -
  have "drop_bit 8 (crc XOR ucast b) = drop_bit 8 crc"
    by (rule bit_word_eqI) (auto simp: bit_simps dest: bit8)
  then show ?thesis
    using crc_bits_byte [of "crc XOR ucast b"] crc_table_entry [of "crc XOR ucast b"]
    by (simp add: crc_step_def Let_def)
qed

lemma crc_step_fun: "crc_step crc32_init = (\<lambda>crc b. (crc_bit ^^ 8) (crc XOR ucast b))"
  by (simp add: fun_eq_iff crc_step_bitwise)

text \<open>C15: The table-driven checksum is the bit-by-bit CRC-32 with the reflected polynomial.\<close>

theorem crc32_of_bitwise: "crc32_of bytes = crc_bitwise bytes"
  by (simp add: crc32_of_def crc32_def crc_bitwise_def crc_step_fun)

section \<open>Which corruptions change the checksum\<close>

definition crc_run :: "u32 \<Rightarrow> u8 list \<Rightarrow> u32" where
  "crc_run crc bytes = foldl (crc_step crc32_init) crc bytes"

lemma crc_run_simps [simp]:
  "crc_run crc [] = crc"
  "crc_run crc (b # bs) = crc_run ((crc_bit ^^ 8) (crc XOR ucast b)) bs"
  "crc_run crc (xs @ ys) = crc_run (crc_run crc xs) ys"
  by (simp_all add: crc_run_def crc_step_bitwise)

lemma crc32_of_run: "crc32_of bytes = crc_run 0xFFFFFFFF bytes XOR 0xFFFFFFFF"
  by (simp add: crc32_of_def crc32_def crc_run_def)

lemma xor_cancel: "x XOR z = y XOR z \<Longrightarrow> x = (y :: u32)"
proof -
  assume "x XOR z = y XOR z"
  then have "(x XOR z) XOR z = (y XOR z) XOR z" by simp
  then show ?thesis by (simp add: xor.assoc)
qed

lemma crc_run_inj: "crc_run x bs = crc_run y bs \<Longrightarrow> x = y"
proof (induction bs arbitrary: x y)
  case (Cons b bs)
  have "crc_run ((crc_bit ^^ 8) (x XOR ucast b)) bs = crc_run ((crc_bit ^^ 8) (y XOR ucast b)) bs"
    using Cons.prems by (simp only: crc_run_simps)
  then have "(crc_bit ^^ 8) (x XOR ucast b) = (crc_bit ^^ 8) (y XOR ucast b)"
    by (rule Cons.IH)
  then show ?case using crc_bits_inj xor_cancel by blast
qed simp

text \<open>A sequence of up to four bytes as one word, the first byte lowest.\<close>

fun le_word :: "u8 list \<Rightarrow> u32" where
  "le_word [] = 0"
| "le_word (b # bs) = ucast b XOR push_bit 8 (le_word bs)"

lemma crc_bits_push: "\<forall>i. bit x i \<longrightarrow> i + n < 32 \<Longrightarrow> (crc_bit ^^ n) (push_bit n x) = x"
proof -
  assume x: "\<forall>i. bit x i \<longrightarrow> i + n < 32"
  have "(crc_bit ^^ n) (push_bit n x) = drop_bit n (push_bit n x)"
    by (rule crc_bits_low_zero) (simp add: bit_simps)
  also have "\<dots> = x" using x by (intro bit_word_eqI) (auto simp: bit_simps)
  finally show ?thesis .
qed

lemma bit_le_word: "bit (le_word bs) i \<Longrightarrow> i < 8 * length bs"
proof (induction bs arbitrary: i)
  case (Cons b bs)
  then show ?case by (fastforce simp: bit_simps dest: bit_imp_le_length)
qed simp

lemma crc_run_word: "length bs \<le> 4 \<Longrightarrow> crc_run crc bs = (crc_bit ^^ (8 * length bs)) (crc XOR le_word bs)"
proof (induction bs arbitrary: crc)
  case (Cons b bs)
  have "(crc_bit ^^ 8) (push_bit 8 (le_word bs)) = le_word bs"
    using bit_le_word [of bs] Cons.prems by (intro crc_bits_push) fastforce
  then have "(crc_bit ^^ 8) (crc XOR ucast b XOR push_bit 8 (le_word bs)) =
      (crc_bit ^^ 8) (crc XOR ucast b) XOR le_word bs"
    by (simp only: crc_bits_xor xor.assoc)
  then show ?case using Cons.IH [of "(crc_bit ^^ 8) (crc XOR ucast b)"] Cons.prems
    by (simp add: funpow_add mult.commute [of 8] add.commute [of 8] xor.assoc del: funpow.simps)
qed simp

lemma le_word_inj:
  "length xs = length ys \<Longrightarrow> length xs \<le> 4 \<Longrightarrow> le_word xs = le_word ys \<Longrightarrow> xs = ys"
proof (induction xs ys rule: list_induct2)
  case (Cons x xs y ys)
  have b: "bit x n = bit y n" for n
  proof (cases "n < 8")
    case True
    then have "bit (le_word (x # xs)) n = bit x n" "bit (le_word (y # ys)) n = bit y n"
      by (auto simp: bit_simps)
    then show ?thesis using Cons.prems(2) by simp
  qed (use bit_imp_le_length [of x n] bit_imp_le_length [of y n] in auto)
  then have x: "x = y" by (rule bit_word_eqI)
  have "bit (le_word xs) n = bit (le_word ys) n" if "n < 32" for n
  proof (cases "n + 8 < 32")
    case True
    then have "bit (le_word (x # xs)) (n + 8) = bit (le_word xs) n" "bit (le_word (y # ys)) (n + 8) = bit (le_word ys) n"
      by (auto simp: bit_simps dest: bit_imp_le_length)
    then show ?thesis using Cons.prems(2) by simp
  next
    case False
    then show ?thesis using bit_le_word [of xs n] bit_le_word [of ys n] Cons.prems Cons.hyps by auto
  qed
  then have "le_word xs = le_word ys" by (intro bit_word_eqI) simp
  then have "xs = ys" by (intro Cons.IH) (use Cons.prems in simp_all)
  with x show ?case by blast
qed simp

text \<open>C35: Any corruption of at most four consecutive bytes of the checked data, in particular of any
  single byte, changes the checksum.\<close>

theorem crc_detects_burst:
  assumes "length e = length e'" and "length e \<le> 4" and "e \<noteq> e'"
  shows "crc32_of (xs @ e @ ys) \<noteq> crc32_of (xs @ e' @ ys)"
proof
  assume "crc32_of (xs @ e @ ys) = crc32_of (xs @ e' @ ys)"
  then have "crc_run 0xFFFFFFFF (xs @ e @ ys) = crc_run 0xFFFFFFFF (xs @ e' @ ys)"
    unfolding crc32_of_run by (rule xor_cancel)
  then have "crc_run (crc_run 0xFFFFFFFF xs) e = crc_run (crc_run 0xFFFFFFFF xs) e'"
    by (simp add: crc_run_inj)
  then have "crc_run 0xFFFFFFFF xs XOR le_word e = crc_run 0xFFFFFFFF xs XOR le_word e'"
    using assms(1,2) by (simp add: crc_run_word) (rule crc_bits_inj)
  then have "le_word e = le_word e'" by (metis xor_cancel xor.commute)
  then show False using le_word_inj [OF assms(1,2)] assms(3) by simp
qed

theorem crc_detects_burst_witness:
  "crc32_of ([1, 2] @ [3] @ [4, 5]) \<noteq> crc32_of ([1, 2] @ [7] @ [4, 5])"
  by (rule crc_detects_burst) simp_all

section \<open>The check value\<close>

fun rounds :: "nat \<Rightarrow> u32 \<Rightarrow> u32" where
  "rounds 0 x = x"
| "rounds (Suc n) x = rounds n (crc_bit x)"

lemma rounds_funpow: "(crc_bit ^^ n) x = rounds n x"
  by (induction n arbitrary: x) (simp_all add: funpow_Suc_right del: funpow.simps)

lemma rounds_numeral: "rounds (numeral k) x = rounds (pred_numeral k) (crc_bit x)"
  by (simp add: numeral_eq_Suc)

lemma crc_run_rounds: "crc_run crc (b # bs) = crc_run (rounds 8 (crc XOR ucast b)) bs"
  by (simp only: crc_run_simps rounds_funpow)

text \<open>The checksum of the nine bytes \<open>123456789\<close>, which the study program prints, is the published
  check value of CRC-32.\<close>

lemma crc_check_value:
  "crc32_of [0x31, 0x32, 0x33, 0x34, 0x35, 0x36, 0x37, 0x38, 0x39] = 0xCBF43926"
  unfolding crc32_of_run
  by (simp add: crc_run_rounds crc_bit_def POLYNOMIAL_def rounds_numeral del: crc_run_simps(2))

section \<open>The output of the study program\<close>

text \<open>The main function of \<open>crc_error_detection.c\<close>: \<open>%0nX\<close> pads with zeros.\<close>

fun hex_digits :: "nat \<Rightarrow> nat \<Rightarrow> string" where
  "hex_digits 0 v = []"
| "hex_digits (Suc n) v = hex_digits n (v div 16) @ [''0123456789ABCDEF'' ! (v mod 16)]"

definition hex_line :: "string \<Rightarrow> u8 list \<Rightarrow> string" where
  "hex_line name bs = name @ concat (map (\<lambda>b. hex_digits 2 (unat b) @ '' '') bs) @ [CHR 0x0A]"

definition crc_study_main :: string where
  "crc_study_main =
     (let text = ''123456789''; crc = crc32 crc32_init (map of_char text)
      in ''String : '' @ [CHR 0x22] @ text @ [CHR 0x22, CHR 0x0A] @ ''CRC32  : '' @ hex_digits 8 (unat crc) @ [CHR 0x0A] @
         hex_line ''u32: '' (pack_u32 0x12345678) @ hex_line ''u64: '' (pack_u64 0x1122334455667788))"

lemma hex_digits_numeral:
  "hex_digits (numeral k) v = hex_digits (pred_numeral k) (v div 16) @ [''0123456789ABCDEF'' ! (v mod 16)]"
  using hex_digits.simps(2) [of "pred_numeral k" v] by (simp only: flip: numeral_eq_Suc)

lemma study_bytes: "map of_char ''123456789'' = [0x31, 0x32, 0x33, 0x34, 0x35, 0x36, 0x37, 0x38, 0x39 :: u8]"
  by code_simp

lemma study_crc_hex: "hex_digits 8 (unat (0xCBF43926 :: u32)) = ''CBF43926''"
  by (simp add: hex_digits_numeral)

lemma study_u32: "hex_line t (pack_u32 0x12345678) = t @ ''78 56 34 12 '' @ [CHR 0x0A]"
  by (simp add: hex_line_def pack_u32_def hex_digits_numeral)

lemma study_u64: "hex_line t (pack_u64 0x1122334455667788) = t @ ''88 77 66 55 44 33 22 11 '' @ [CHR 0x0A]"
  by (simp add: hex_line_def pack_u64_def hex_digits_numeral)

lemma crc_study_output:
  "crc_study_main = ''String : '' @ [CHR 0x22] @ ''123456789'' @ [CHR 0x22, CHR 0x0A] @ ''CRC32  : CBF43926'' @ [CHR 0x0A] @
     ''u32: 78 56 34 12 '' @ [CHR 0x0A] @ ''u64: 88 77 66 55 44 33 22 11 '' @ [CHR 0x0A]"
  unfolding crc_study_main_def Let_def study_bytes crc32_of_def [symmetric] crc_check_value study_crc_hex study_u32 study_u64
  by simp

end
