(* ===== verification/Bitcask_DB.thy ===== *)
theory Bitcask_DB
  imports Bitcask_CRC Hash_Chain KV_Spec
begin

text \<open>
  The bitcask store, \<open>96. bitcask/db.c\<close> and \<open>db.h\<close>: the in-memory hash table (\<open>ht_*\<close>), its text
  snapshot (\<open>db_save\<close>, \<open>db_load\<close>) and the append-only record log (\<open>bitcask_open\<close>,
  \<open>bitcask_append\<close>).

  The file system is a map from paths to contents. Outcomes of system calls and allocations are
  arguments: whether \<open>open\<close> and \<open>calloc\<close> succeed, which copies of strings were made, and what each
  \<open>write\<close> of the append loop returned. The writes of a snapshot are taken to be complete (the code
  does not look at their results). An open descriptor is the path it was opened on.
\<close>

section \<open>Data\<close>

definition HT_BUCKETS :: u64 where "HT_BUCKETS = 1024"

record ht_node =
  key :: string
  payload :: "string option"

type_synonym hashtable = "nat \<Rightarrow> ht_node list"

type_synonym 'b fs = "string \<rightharpoonup> 'b list"

record bitcask =
  dir :: string
  active_fd :: string
  active_file_id :: nat
  threshold :: nat

section \<open>The hash table\<close>

definition ht_hash :: "string \<Rightarrow> nat" where
  "ht_hash k = unat (djb2 k mod HT_BUCKETS)"

definition ht_new :: hashtable where
  "ht_new = (\<lambda>_. [])"

text \<open>The nodes released, in the order of the two loops.\<close>

definition ht_free :: "hashtable \<Rightarrow> ht_node list" where
  "ht_free ht = concat (map ht [0..<unat HT_BUCKETS])"

definition ht_lookup :: "hashtable \<Rightarrow> string \<Rightarrow> ht_node option" where
  "ht_lookup ht k = chain_find key k (ht (ht_hash k))"

text \<open>
  \<open>node_ok\<close>, \<open>key_ok\<close> and \<open>value_ok\<close> say which of the three allocations succeed; the new node is
  linked before its value is copied.
\<close>

definition ht_set :: "bool \<Rightarrow> bool \<Rightarrow> bool \<Rightarrow> string \<Rightarrow> string \<Rightarrow> hashtable \<Rightarrow> hashtable" where
  "ht_set node_ok key_ok value_ok k v ht =
     (let store = (\<lambda>p. if value_ok then p\<lparr>payload := Some v\<rparr> else p) in
      case ht_lookup ht k of
        None \<Rightarrow>
          if \<not> node_ok then ht
          else if \<not> key_ok then ht
          else ht(ht_hash k := store \<lparr>key = k, payload = None\<rparr> # ht (ht_hash k))
      | Some p \<Rightarrow> ht(ht_hash k := chain_modify key k store (ht (ht_hash k))))"

definition ht_get :: "hashtable \<Rightarrow> string \<Rightarrow> string option" where
  "ht_get ht k = (case ht_lookup ht k of None \<Rightarrow> None | Some p \<Rightarrow> payload p)"

section \<open>Paths\<close>

definition get_path :: "string \<Rightarrow> string option" where
  "get_path d = (if \<not> caseeq (take 2 d) ''./'' then None
                 else if length d \<ge> 1024 then None else Some d)"

definition get_cask_path :: "string \<Rightarrow> nat \<Rightarrow> string option" where
  "get_cask_path d cask_num =
     (case get_path d of
        None \<Rightarrow> None
      | Some path \<Rightarrow> Some (snprintf 1024 (path @ ''/cask.'' @ nat_str cask_num)))"

section \<open>The text snapshot\<close>

definition ITEM_SZ :: nat where "ITEM_SZ = 1024"

definition item_text :: "ht_node \<Rightarrow> string result" where
  "item_text cur = ebind (read_init NullDeref (payload cur)) (\<lambda>v.
     Inr (snprintf ITEM_SZ (key cur @ '':'' @ v @ [CR, LF])))"

fun items_text :: "ht_node list \<Rightarrow> string result" where
  "items_text [] = Inr []"
| "items_text (cur # rest) =
     ebind (item_text cur) (\<lambda>item. ebind (items_text rest) (\<lambda>r. Inr (item @ r)))"

text \<open>The result is always 0.\<close>

definition db_save :: "bool \<Rightarrow> hashtable \<Rightarrow> string \<Rightarrow> char fs \<Rightarrow> (char fs \<times> int) result" where
  "db_save can_open ht d fs =
     (case get_path d of
        None \<Rightarrow> Inr (fs, 0)
      | Some path \<Rightarrow>
          if \<not> can_open then Inr (fs, 0)
          else ebind (items_text (concat (map ht [0..<unat HT_BUCKETS]))) (\<lambda>text. Inr (fs(path \<mapsto> text), 0)))"

text \<open>One round of the reading loop, on the line \<open>fgets\<close> stored.\<close>

definition load_item :: "mem \<Rightarrow> hashtable \<Rightarrow> hashtable" where
  "load_item line ht =
     (let item = takeWhile (\<lambda>c. c \<noteq> NUL \<and> c \<noteq> CR \<and> c \<noteq> LF) line in
      case strstr item '':'' of
        None \<Rightarrow> ht
      | Some value \<Rightarrow> ht_set True True True (take (length item - length value) item) (drop 1 value) ht)"

definition db_load :: "hashtable \<Rightarrow> string \<Rightarrow> char fs \<Rightarrow> hashtable \<times> int" where
  "db_load ht d fs =
     (case get_path d of
        None \<Rightarrow> (ht, 0)
      | Some path \<Rightarrow>
          (case fs path of
             None \<Rightarrow> (ht, -1)
           | Some text \<Rightarrow> (fold load_item (fgets_all ITEM_SZ text) ht, 0)))"

section \<open>The record log\<close>

text \<open>The scan for the highest cask number from \<open>i\<close> down to 0.\<close>

fun find_cask :: "string \<Rightarrow> 'b fs \<Rightarrow> nat \<Rightarrow> nat" where
  "find_cask d fs i =
     (case get_cask_path d i of
        None \<Rightarrow> (if i = 0 then 0 else find_cask d fs (i - 1))
      | Some path \<Rightarrow>
          if fs path \<noteq> None then i else if i = 0 then 0 else find_cask d fs (i - 1))"

declare find_cask.simps [simp del]

definition bitcask_open :: "bool \<Rightarrow> bool \<Rightarrow> string \<Rightarrow> nat \<Rightarrow> 'b fs \<Rightarrow> 'b fs \<times> bitcask option" where
  "bitcask_open can_open calloc_ok d thr fs =
     (let active_file_id = find_cask d fs 100 in
      case get_cask_path d active_file_id of
        None \<Rightarrow> (fs, None)
      | Some path \<Rightarrow>
          if \<not> can_open then (fs, None)
          else
            let fs' = (if fs path = None then fs(path \<mapsto> []) else fs) in
            if \<not> calloc_ok then (fs', None)
            else (fs', Some \<lparr>dir = d, active_fd = path, active_file_id = active_file_id, threshold = thr\<rparr>))"

text \<open>\<open>memcpy(buf + off, bs, length bs)\<close> and the like on the record buffer.\<close>

definition put_at :: "nat \<Rightarrow> 'b list \<Rightarrow> 'b list \<Rightarrow> 'b list" where
  "put_at off bs buf = take off buf @ bs @ drop (off + length bs) buf"

definition str_bytes :: "string \<Rightarrow> u8 list" where
  "str_bytes s = map (\<lambda>c. of_nat (code_of c)) s"

text \<open>\<open>init\<close> is what \<open>malloc(total)\<close> returned; \<open>now\<close> the time.\<close>

definition make_record :: "u8 list \<Rightarrow> u64 \<Rightarrow> string \<Rightarrow> string \<Rightarrow> u8 list" where
  "make_record init now k v =
     (let key_len = length k; value_len = length v; body_without_crc = 16 + key_len + value_len;
          buf = put_at 4 (pack_u64 now) init;
          buf = put_at 12 (pack_u32 (of_nat key_len)) buf;
          buf = put_at 16 (pack_u32 (of_nat value_len)) buf;
          buf = put_at 20 (str_bytes k) buf;
          buf = put_at (20 + key_len) (str_bytes v) buf;
          crc = crc32_of (take body_without_crc (drop 4 buf))
      in put_at 0 (pack_u32 crc) buf)"

text \<open>
  The writing loop: \<open>ws i\<close> is what the \<open>i\<close>-th call of \<open>write\<close> returned; what it wrote is appended to
  the file. The flag says that the whole buffer was written.
\<close>

function write_all :: "(nat \<Rightarrow> int) \<Rightarrow> nat \<Rightarrow> 'b list \<Rightarrow> 'b list \<Rightarrow> 'b list \<times> bool" where
  "write_all ws i rest file =
     (if rest = [] then (file, True)
      else if ws i < 0 then (file, False)
      else if ws i = 0 then (file, False)
      else write_all ws (i + 1) (drop (nat (ws i)) rest) (file @ take (nat (ws i)) rest))"
  by pat_completeness auto
termination
  by (relation "measure (\<lambda>(ws, i, rest, file). length rest)") auto

declare write_all.simps [simp del]

definition bitcask_append :: "bool \<Rightarrow> (nat \<Rightarrow> int) \<Rightarrow> u8 list \<Rightarrow> u64 \<Rightarrow> bitcask \<Rightarrow> string \<Rightarrow> string \<Rightarrow> u8 fs \<Rightarrow> (u8 fs \<times> int) result" where
  "bitcask_append malloc_ok ws init now db k v fs =
     (if \<not> malloc_ok then Inr (fs, -1)
      else
        ebind (read_init NullDeref (fs (active_fd db))) (\<lambda>file.
          let value_pos = int (length file) + 20 + int (length k);
              (file', done) = write_all ws 0 (make_record init now k v) file
          in Inr (fs(active_fd db \<mapsto> file'), if done then value_pos else -1)))"

text \<open>What \<open>bitcask_close\<close> releases: the descriptor and the directory string, not the record itself.\<close>

datatype released = FdClosed string | StrFreed string

definition bitcask_close :: "bitcask option \<Rightarrow> released list" where
  "bitcask_close cask = (case cask of None \<Rightarrow> [] | Some c \<Rightarrow> [FdClosed (active_fd c), StrFreed (dir c)])"

section \<open>The table implements a map\<close>

definition ht_ok :: "hashtable \<Rightarrow> bool" where
  "ht_ok ht \<longleftrightarrow> table_wf ht_hash key ht \<and> (\<forall>i. \<forall>p \<in> set (ht i). payload p \<noteq> None)"

definition ht_put :: "string \<Rightarrow> string \<Rightarrow> hashtable \<Rightarrow> hashtable" where
  "ht_put k v ht = ht_set True True True k v ht"

lemma ht_lookup_eq_find: "ht_lookup ht k = table_find ht_hash key ht k"
  by (simp add: ht_lookup_def table_find_def)

lemma ht_get_put: "ht_get (ht_put k v ht) = (ht_get ht)(k \<mapsto> v)"
proof (cases "ht_lookup ht k")
  case None
  then show ?thesis
    using table_find_link [of ht_hash key ht "\<lparr>key = k, payload = Some v\<rparr>"]
    by (auto simp: ht_put_def ht_set_def ht_get_def ht_lookup_eq_find Let_def fun_eq_iff)
next
  case (Some p)
  then show ?thesis
    using table_find_modify [of key "\<lambda>p. p\<lparr>payload := Some v\<rparr>" ht_hash ht k]
    by (auto simp: ht_put_def ht_set_def ht_get_def ht_lookup_eq_find Let_def fun_eq_iff)
qed

lemma ht_ok_put: "ht_ok ht \<Longrightarrow> ht_ok (ht_put k v ht)"
proof (cases "ht_lookup ht k")
  case None
  assume "ht_ok ht"
  then show ?thesis
    using None table_wf_link [of ht_hash key ht "\<lparr>key = k, payload = Some v\<rparr>"]
    by (auto simp: ht_put_def ht_set_def ht_lookup_def ht_ok_def Let_def)
next
  case (Some p)
  assume "ht_ok ht"
  then show ?thesis
    using Some table_wf_modify [of ht_hash key ht "\<lambda>p. p\<lparr>payload := Some v\<rparr>" "ht_hash k" k]
      set_chain_modify [of key k "\<lambda>p. p\<lparr>payload := Some v\<rparr>" "ht (ht_hash k)"]
    by (fastforce simp: ht_put_def ht_set_def ht_ok_def Let_def)
qed

interpretation ht: kv_store ht_new ht_put ht_get ht_ok
proof unfold_locales
  show "ht_get ht_new = Map.empty" by (simp add: ht_get_def ht_lookup_def ht_new_def fun_eq_iff)
  show "ht_ok ht_new" by (simp add: ht_ok_def ht_new_def)
qed (simp_all add: ht_get_put ht_ok_put)

text \<open>Any batch of \<open>ht_set\<close> calls leaves in the table, for each key, the value written last,
  whatever keys collide.\<close>

lemma ht_sets_correct:
  "ht_get (fold (\<lambda>(k, v). ht_set True True True k v) kvs ht_new) = map_of (rev kvs)"
  using ht.get_puts_empty [of kvs] by (simp add: ht_put_def [abs_def])

section \<open>The record log decodes\<close>

text \<open>What a reader of the log does: check one record and return its time, key and value, and the rest.\<close>

type_synonym log_entry = "nat \<times> u8 list \<times> u8 list"

definition decode_record :: "u8 list \<Rightarrow> (log_entry \<times> u8 list) option" where
  "decode_record bs =
     (let kl = le_val (take 4 (drop 12 bs)); vl = le_val (take 4 (drop 16 bs)) in
      if length bs < 20 \<or> length bs < 20 + kl + vl then None
      else if le_val (take 4 bs) \<noteq> unat (crc32_of (take (16 + kl + vl) (drop 4 bs))) then None
      else Some ((le_val (take 8 (drop 4 bs)), take kl (drop 20 bs), take vl (drop (20 + kl) bs)),
                 drop (20 + kl + vl) bs))"

lemma decode_shorter: "decode_record bs = Some (r, rest) \<Longrightarrow> length rest < length bs"
  by (auto simp: decode_record_def Let_def split: if_splits)

function scan_log :: "u8 list \<Rightarrow> log_entry list option" where
  "scan_log bs =
     (if bs = [] then Some []
      else case decode_record bs of
             None \<Rightarrow> None
           | Some (r, rest) \<Rightarrow> map_option ((#) r) (scan_log rest))"
  by pat_completeness auto
termination
  by (relation "measure length") (auto dest: decode_shorter)

declare scan_log.simps [simp del]

lemma scan_log_Nil [simp]: "scan_log [] = Some []"
  by (simp add: scan_log.simps)

text \<open>The record as a whole, and what decodes it.\<close>

definition body_of :: "u64 \<Rightarrow> string \<Rightarrow> string \<Rightarrow> u8 list" where
  "body_of now k v =
     pack_u64 now @ pack_u32 (of_nat (length k)) @ pack_u32 (of_nat (length v)) @ str_bytes k @ str_bytes v"

definition record_of :: "u64 \<Rightarrow> string \<Rightarrow> string \<Rightarrow> u8 list" where
  "record_of now k v = pack_u32 (crc32_of (body_of now k v)) @ body_of now k v"

lemma length_str_bytes [simp]: "length (str_bytes s) = length s"
  by (simp add: str_bytes_def)

lemma length_body_of [simp]: "length (body_of now k v) = 16 + length k + length v"
  by (simp add: body_of_def)

lemma length_record_of [simp]: "length (record_of now k v) = 20 + length k + length v"
  by (simp add: record_of_def)

lemma put_at_append: "length a = off \<Longrightarrow> length b = length bs \<Longrightarrow> put_at off bs (a @ b @ c) = a @ bs @ c"
  by (simp add: put_at_def)

lemma split_at: "n \<le> length xs \<Longrightarrow> \<exists>a b. xs = a @ b \<and> length a = n \<and> length b = length xs - n"
  by (intro exI [of _ "take n xs"] exI [of _ "drop n xs"]) simp

lemma make_record_eq:
  assumes "length init = 20 + length k + length v"
  shows "make_record init now k v = record_of now k v"
proof -
  obtain g0 i1 where 0: "init = g0 @ i1" "length g0 = 4" "length i1 = 16 + length k + length v"
    using split_at [of 4 init] assms by auto
  obtain g1 i2 where 1: "i1 = g1 @ i2" "length g1 = 8" "length i2 = 8 + length k + length v"
    using split_at [of 8 i1] 0 by auto
  obtain g2 i3 where 2: "i2 = g2 @ i3" "length g2 = 4" "length i3 = 4 + length k + length v"
    using split_at [of 4 i2] 1 by auto
  obtain g3 i4 where 3: "i3 = g3 @ i4" "length g3 = 4" "length i4 = length k + length v"
    using split_at [of 4 i3] 2 by auto
  obtain g4 g5 where 4: "i4 = g4 @ g5" "length g4 = length k" "length g5 = length v"
    using split_at [of "length k" i4] 3 by auto
  let ?t = "pack_u64 now" and ?k = "pack_u32 (of_nat (length k))" and ?v = "pack_u32 (of_nat (length v))"
  have "put_at 4 ?t init = g0 @ ?t @ g2 @ g3 @ g4 @ g5"
    using put_at_append [of g0 4 g1 ?t "g2 @ g3 @ g4 @ g5"] 0 1 2 3 4 by simp
  moreover have "put_at 12 ?k (g0 @ ?t @ g2 @ g3 @ g4 @ g5) = g0 @ ?t @ ?k @ g3 @ g4 @ g5"
    using put_at_append [of "g0 @ ?t" 12 g2 ?k "g3 @ g4 @ g5"] 0 2 by simp
  moreover have "put_at 16 ?v (g0 @ ?t @ ?k @ g3 @ g4 @ g5) = g0 @ ?t @ ?k @ ?v @ g4 @ g5"
    using put_at_append [of "g0 @ ?t @ ?k" 16 g3 ?v "g4 @ g5"] 0 3 by simp
  moreover have "put_at 20 (str_bytes k) (g0 @ ?t @ ?k @ ?v @ g4 @ g5) = g0 @ ?t @ ?k @ ?v @ str_bytes k @ g5"
    using put_at_append [of "g0 @ ?t @ ?k @ ?v" 20 g4 "str_bytes k" g5] 0 4 by simp
  moreover have "put_at (20 + length k) (str_bytes v) (g0 @ ?t @ ?k @ ?v @ str_bytes k @ g5) = g0 @ body_of now k v"
    using put_at_append [of "g0 @ ?t @ ?k @ ?v @ str_bytes k" "20 + length k" g5 "str_bytes v" "[]"] 0 4
    by (simp add: body_of_def)
  moreover have "put_at 0 cs (g0 @ body_of now k v) = cs @ body_of now k v" if "length cs = 4" for cs
    using put_at_append [of "[]" 0 g0 cs "body_of now k v"] 0 that by simp
  ultimately show ?thesis using 0(2) by (simp add: make_record_def Let_def record_of_def)
qed

lemma decode_record_of:
  assumes "length k < 2 ^ 32" and "length v < 2 ^ 32"
  shows "decode_record (record_of now k v @ r) = Some ((unat now, str_bytes k, str_bytes v), r)"
proof -
  have n: "unat (of_nat (length k) :: u32) = length k" "unat (of_nat (length v) :: u32) = length v"
    using assms by (simp_all add: unat_of_nat)
  let ?h = "pack_u32 (crc32_of (body_of now k v)) @ pack_u64 now @ pack_u32 (of_nat (length k)) @ pack_u32 (of_nat (length v))"
  let ?r = "record_of now k v @ r"
  have r: "?r = ?h @ str_bytes k @ str_bytes v @ r"
    by (simp add: record_of_def body_of_def)
  have c: "le_val (take 4 ?r) = unat (crc32_of (body_of now k v))"
    by (simp add: record_of_def le_val_pack_u32)
  have b: "take (16 + length k + length v) (drop 4 ?r) = body_of now k v"
    by (simp add: record_of_def)
  have t: "le_val (take 8 (drop 4 ?r)) = unat now"
    by (simp add: record_of_def body_of_def le_val_pack_u64)
  have kl: "le_val (take 4 (drop 12 ?r)) = length k" and vl: "le_val (take 4 (drop 16 ?r)) = length v"
    unfolding r using n by (simp_all add: le_val_pack_u32)
  have k: "take (length k) (drop 20 ?r) = str_bytes k" and v: "take (length v) (drop (20 + length k) ?r) = str_bytes v"
    unfolding r by simp_all
  have d: "drop (20 + length k + length v) ?r = r" by simp
  have l: "\<not> (length ?r < 20 \<or> length ?r < 20 + length k + length v)" by simp
  show ?thesis
    unfolding decode_record_def Let_def kl vl b c t k v d using l by (simp only: if_False refl not_True_eq_False simp_thms)
qed

lemma take_drop_append: "m + n \<le> length xs \<Longrightarrow> take n (drop m (xs @ ys)) = take n (drop m xs)"
  by simp

lemma decode_append:
  assumes d: "decode_record bs = Some (e, rest)"
  shows "decode_record (bs @ r) = Some (e, rest @ r)"
proof -
  let ?kl = "le_val (take 4 (drop 12 bs))" and ?vl = "le_val (take 4 (drop 16 bs))"
  have l0: "\<not> (length bs < 20 \<or> length bs < 20 + ?kl + ?vl)"
    using d unfolding decode_record_def Let_def by (rule contrapos_pn) simp
  then have l: "20 \<le> length bs" "20 + ?kl + ?vl \<le> length bs" by simp_all
  have s: "take 4 (drop 12 (bs @ r)) = take 4 (drop 12 bs)" "take 4 (drop 16 (bs @ r)) = take 4 (drop 16 bs)"
      "take 8 (drop 4 (bs @ r)) = take 8 (drop 4 bs)"
      "take (16 + ?kl + ?vl) (drop 4 (bs @ r)) = take (16 + ?kl + ?vl) (drop 4 bs)"
      "take ?kl (drop 20 (bs @ r)) = take ?kl (drop 20 bs)"
      "take ?vl (drop (20 + ?kl) (bs @ r)) = take ?vl (drop (20 + ?kl) bs)"
    by (rule take_drop_append; use l in linarith)+
  have s': "take 4 (bs @ r) = take 4 bs" "drop (20 + ?kl + ?vl) (bs @ r) = drop (20 + ?kl + ?vl) bs @ r"
    using l by (simp_all only: take_append drop_append) simp_all
  have l': "\<not> (length (bs @ r) < 20 \<or> length (bs @ r) < 20 + ?kl + ?vl)" using l by simp
  have "(if le_val (take 4 bs) \<noteq> unat (crc32_of (take (16 + ?kl + ?vl) (drop 4 bs))) then None
      else Some ((le_val (take 8 (drop 4 bs)), take ?kl (drop 20 bs), take ?vl (drop (20 + ?kl) bs)),
                 drop (20 + ?kl + ?vl) bs)) = Some (e, rest)"
    using d unfolding decode_record_def Let_def by (simp only: l0 if_False)
  then show ?thesis
    unfolding decode_record_def Let_def s s' using l' by (auto split: if_splits simp del: drop_append take_append length_append)
qed

lemma scan_log_append:
  "scan_log bs = Some es \<Longrightarrow> scan_log (bs @ r) = map_option ((@) es) (scan_log r)"
proof (induction bs arbitrary: es rule: scan_log.induct)
  case (1 bs)
  show ?case
  proof (cases "bs = []")
    case True
    then show ?thesis using 1 by (simp add: option.map_ident_strong)
  next
    case False
    then obtain e rest es' where d: "decode_record bs = Some (e, rest)" "scan_log rest = Some es'" "es = e # es'"
      using "1.prems" by (subst (asm) scan_log.simps) (auto split: option.splits)
    then have "scan_log (rest @ r) = map_option ((@) es') (scan_log r)"
      using "1.IH" False by blast
    then show ?thesis
      using False d decode_append [OF d(1), of r]
      by (subst scan_log.simps) (cases "scan_log r"; simp)
  qed
qed

lemma scan_log_record:
  assumes "length k < 2 ^ 32" and "length v < 2 ^ 32"
  shows "scan_log (record_of now k v) = Some [(unat now, str_bytes k, str_bytes v)]"
proof -
  have "record_of now k v \<noteq> []" using length_record_of [of now k v] by (metis list.size(3) add_is_0 zero_neq_numeral)
  then show ?thesis using decode_record_of [OF assms, of now "[]"] by (subst scan_log.simps) simp
qed

section \<open>The writing loop\<close>

lemma write_all_complete: "(\<And>i. 0 < ws i) \<Longrightarrow> write_all ws i rest f = (f @ rest, True)"
proof (induction ws i rest f rule: write_all.induct)
  case (1 ws i rest f)
  have "\<not> ws i < 0" "ws i \<noteq> 0" using 1(2) [of i] by auto
  then show ?case using 1 by (subst write_all.simps) simp
qed

lemma write_all_torn:
  "write_all ws i rest f = (f', False) \<Longrightarrow> \<exists>n < length rest. f' = f @ take n rest"
proof (induction ws i rest f rule: write_all.induct)
  case (1 ws i rest f)
  show ?case
  proof (cases "rest = [] \<or> ws i \<le> 0")
    case True
    with 1(2) show ?thesis by (subst (asm) write_all.simps) (auto split: if_splits)
  next
    case False
    let ?n = "nat (ws i)"
    have "write_all ws (i + 1) (drop ?n rest) (f @ take ?n rest) = (f', False)"
      using False 1(2) by (subst (asm) write_all.simps) auto
    then obtain m where "m < length (drop ?n rest)" "f' = (f @ take ?n rest) @ take m (drop ?n rest)"
      using 1(1) False by fastforce
    then show ?thesis by (intro exI [of _ "?n + m"]) (auto simp: take_add)
  qed
qed

text \<open>A successful append adds exactly one record to the log: if the file decoded into a list of
  entries before, it decodes into that list followed by the new entry, and the value stands at the
  offset the function returned. No other file changes.\<close>

lemma bitcask_append_decodes:
  assumes "fs (active_fd db) = Some file" and "scan_log file = Some es" and "\<And>i. 0 < ws i"
    and "length init = 20 + length k + length v" and "length k < 2 ^ 32" and "length v < 2 ^ 32"
  shows "\<exists>file'. bitcask_append True ws init now db k v fs =
           Inr (fs(active_fd db \<mapsto> file'), int (length file + 20 + length k)) \<and>
         scan_log file' = Some (es @ [(unat now, str_bytes k, str_bytes v)]) \<and>
         take (length v) (drop (length file + 20 + length k) file') = str_bytes v"
proof -
  let ?f = "file @ record_of now k v"
  have "bitcask_append True ws init now db k v fs = Inr (fs(active_fd db \<mapsto> ?f), int (length file + 20 + length k))"
    using assms by (simp add: bitcask_append_def make_record_eq write_all_complete Let_def)
  moreover have "scan_log ?f = Some (es @ [(unat now, str_bytes k, str_bytes v)])"
    using scan_log_append [OF assms(2)] scan_log_record [OF assms(5,6)] by simp
  moreover have "take (length v) (drop (length file + 20 + length k) ?f) = str_bytes v"
    by (simp add: record_of_def body_of_def)
  ultimately show ?thesis by blast
qed

lemma bitcask_append_decodes_instance:
  "\<exists>file'. bitcask_append True (\<lambda>_. 3) (replicate 25 0) 7 \<lparr>dir = ''./d'', active_fd = ''f'', active_file_id = 0, threshold = 1\<rparr>
       ''key'' ''ab'' [''f'' \<mapsto> []] = Inr ([''f'' \<mapsto> file'], 23) \<and>
     scan_log file' = Some [(7, str_bytes ''key'', str_bytes ''ab'')] \<and>
     take (length ''ab'') (drop 23 file') = str_bytes ''ab''"
  using bitcask_append_decodes [of "[''f'' \<mapsto> []]" "\<lparr>dir = ''./d'', active_fd = ''f'', active_file_id = 0, threshold = 1\<rparr>"
      "[]" "[]" "\<lambda>_. 3" "replicate 25 0" "''key''" "''ab''" 7] by simp

section \<open>A run of appends\<close>

text \<open>One append: what the writes return, the bytes \<open>malloc\<close> gave, the time, the key and the value.\<close>

type_synonym append_op = "(nat \<Rightarrow> int) \<times> u8 list \<times> u64 \<times> string \<times> string"

fun append_seq :: "bitcask \<Rightarrow> append_op list \<Rightarrow> u8 fs \<Rightarrow> (u8 fs \<times> int list) result" where
  "append_seq db [] fs = Inr (fs, [])"
| "append_seq db ((ws, init, now, k, v) # ops) fs =
     ebind (bitcask_append True ws init now db k v fs) (\<lambda>(fs', off).
       ebind (append_seq db ops fs') (\<lambda>(fs'', offs). Inr (fs'', off # offs)))"

fun append_ok :: "append_op \<Rightarrow> bool" where
  "append_ok (ws, init, now, k, v) \<longleftrightarrow>
     (\<forall>i. 0 < ws i) \<and> length init = 20 + length k + length v \<and> length k < 2 ^ 32 \<and> length v < 2 ^ 32"

fun op_record :: "append_op \<Rightarrow> u8 list" where
  "op_record (ws, init, now, k, v) = record_of now k v"

fun op_entry :: "append_op \<Rightarrow> log_entry" where
  "op_entry (ws, init, now, k, v) = (unat now, str_bytes k, str_bytes v)"

text \<open>The value of an append stands in the file at the offset it returned.\<close>

fun value_at :: "u8 list \<Rightarrow> append_op \<Rightarrow> int \<Rightarrow> bool" where
  "value_at file (ws, init, now, k, v) off \<longleftrightarrow> take (length v) (drop (nat off) file) = str_bytes v"

interpretation log: record_stream op_record decode_record scan_log op_entry append_ok
proof unfold_locales
  fix x r assume "append_ok x"
  then show "decode_record (op_record x @ r) = Some (op_entry x, r)"
    by (cases x rule: op_record.cases) (simp add: decode_record_of)
next
  fix bs y r assume "decode_record bs = Some (y, r)"
  moreover from this have "bs \<noteq> []" by (auto simp: decode_record_def Let_def)
  ultimately show "scan_log bs = map_option ((#) y) (scan_log r)" by (subst scan_log.simps) simp
qed

lemma append_seq_complete:
  assumes "fs (active_fd db) = Some fl" and "list_all append_ok ops"
  shows "\<exists>offs. append_seq db ops fs = Inr (fs(active_fd db \<mapsto> fl @ concat (map op_record ops)), offs) \<and>
    list_all2 (value_at (fl @ concat (map op_record ops))) ops offs"
  using assms
proof (induction ops arbitrary: fs fl)
  case Nil
  then show ?case by (simp add: fun_upd_idem)
next
  case (Cons op ops)
  obtain ws init now k v where op: "op = (ws, init, now, k, v)" by (cases op rule: op_record.cases)
  let ?f = "fl @ record_of now k v"
  let ?off = "int (length fl + 20 + length k)"
  have one: "bitcask_append True ws init now db k v fs = Inr (fs(active_fd db \<mapsto> ?f), ?off)"
    using Cons.prems op by (simp add: bitcask_append_def make_record_eq write_all_complete Let_def)
  obtain offs where offs: "append_seq db ops (fs(active_fd db \<mapsto> ?f)) =
      Inr (fs(active_fd db \<mapsto> ?f @ concat (map op_record ops)), offs)"
    "list_all2 (value_at (?f @ concat (map op_record ops))) ops offs"
    using Cons.IH [of "fs(active_fd db \<mapsto> ?f)" ?f] Cons.prems(2) by (simp only: fun_upd_upd fun_upd_same list.pred_inject(2)) blast
  have "value_at (?f @ concat (map op_record ops)) op ?off"
    by (simp add: op record_of_def body_of_def nat_int_add)
  then show ?case using one offs op by (intro exI [of _ "?off # offs"]) (simp add: fun_upd_def)
qed

text \<open>C13: After any run of successful appends, however their writes were split, the log decodes into the
  old entries followed by the appended ones in their order, and every offset that was handed out, not
  only the last, leads to its value. No other file changes.\<close>

theorem bitcask_offsets_stay_valid:
  assumes "fs (active_fd db) = Some file" and "scan_log file = Some es" and "list_all append_ok ops"
  shows "\<exists>file' offs. append_seq db ops fs = Inr (fs(active_fd db \<mapsto> file'), offs) \<and>
    scan_log file' = Some (es @ map op_entry ops) \<and> list_all2 (value_at file') ops offs"
proof -
  have "scan_log (file @ concat (map op_record ops)) = Some (es @ map op_entry ops)"
    using scan_log_append [OF assms(2)] log.all_encs [OF assms(3), of "[]"] by simp
  then show ?thesis using append_seq_complete [where fl = "file" and fs = fs, OF assms(1,3)] by blast
qed

theorem bitcask_offsets_stay_valid_witness:
  "\<exists>file' offs. append_seq \<lparr>dir = ''./d'', active_fd = ''f'', active_file_id = 0, threshold = 1\<rparr>
       [(\<lambda>_. 3, replicate 25 0, 7, ''key'', ''ab''), (\<lambda>_. 100, replicate 22 1, 9, ''k'', ''x'')] [''f'' \<mapsto> []] =
       Inr ([''f'' \<mapsto> file'], offs) \<and>
     scan_log file' = Some [(7, str_bytes ''key'', str_bytes ''ab''), (9, str_bytes ''k'', str_bytes ''x'')]"
  using bitcask_offsets_stay_valid [of "[''f'' \<mapsto> []]" "\<lparr>dir = ''./d'', active_fd = ''f'', active_file_id = 0, threshold = 1\<rparr>"
      "[]" "[]" "[(\<lambda>_. 3, replicate 25 0, 7, ''key'', ''ab''), (\<lambda>_. 100, replicate 22 1, 9, ''k'', ''x'')]"]
  by auto

text \<open>C40: A write that stops half way is not undone: the function reports the failure and leaves a
  part of the record at the end of the file, which then no longer decodes.\<close>

theorem bitcask_append_torn:
  assumes "fs (active_fd db) = Some file" and "scan_log file = Some es"
    and "length init = 20 + length k + length v" and "length k < 2 ^ 32" and "length v < 2 ^ 32"
    and "0 < ws 0" and "ws 0 < int (20 + length k + length v)" and "ws 1 < 0"
  shows "\<exists>file'. bitcask_append True ws init now db k v fs = Inr (fs(active_fd db \<mapsto> file'), -1) \<and>
           scan_log file' = None"
proof -
  let ?n = "nat (ws 0)" and ?r = "record_of now k v"
  have "\<not> ws 0 < 0" "ws 0 \<noteq> 0" "drop ?n ?r \<noteq> []"
    using assms(6,7) by auto
  then have "?r \<noteq> []" by force
  have w: "write_all ws 0 ?r file = (file @ take ?n ?r, False)"
    using assms(8) \<open>\<not> ws 0 < 0\<close> \<open>ws 0 \<noteq> 0\<close> \<open>?r \<noteq> []\<close> \<open>drop ?n ?r \<noteq> []\<close> write_all.simps [of ws 0 ?r "file"] write_all.simps [of ws 1 "drop ?n ?r" "file @ take ?n ?r"] by simp
  have "decode_record (take ?n ?r) = None"
  proof (cases "decode_record (take ?n ?r)")
    case (Some p)
    obtain e rest where p: "p = (e, rest)" by (cases p)
    have "decode_record (take ?n ?r @ drop ?n ?r) = Some (e, rest @ drop ?n ?r)"
      using decode_append Some p by blast
    then have "rest @ drop ?n ?r = []"
      using decode_record_of [OF assms(4,5), of now "[]"] by simp
    then show ?thesis using \<open>drop ?n ?r \<noteq> []\<close> by simp
  qed
  moreover have "take ?n ?r \<noteq> []" using assms(6) \<open>?r \<noteq> []\<close> by simp
  ultimately have "scan_log (take ?n ?r) = None" by (subst scan_log.simps) simp
  then have "scan_log (file @ take ?n ?r) = None" using scan_log_append [OF assms(2)] by simp
  moreover have "bitcask_append True ws init now db k v fs = Inr (fs(active_fd db \<mapsto> file @ take ?n ?r), -1)"
    using assms w by (simp add: bitcask_append_def make_record_eq Let_def)
  ultimately show ?thesis by blast
qed

theorem bitcask_append_torn_witness:
  "\<exists>file'. bitcask_append True (\<lambda>i. if i = 0 then 9 else -1) (replicate 25 0) 7
       \<lparr>dir = ''./d'', active_fd = ''f'', active_file_id = 0, threshold = 1\<rparr> ''key'' ''ab'' [''f'' \<mapsto> []] =
       Inr ([''f'' \<mapsto> file'], -1) \<and> scan_log file' = None"
  using bitcask_append_torn [of "[''f'' \<mapsto> []]" "\<lparr>dir = ''./d'', active_fd = ''f'', active_file_id = 0, threshold = 1\<rparr>"
      "[]" "[]" "replicate 25 0" "''key''" "''ab''" "\<lambda>i. if i = 0 then 9 else -1" 7] by simp

section \<open>Snapshots\<close>

definition clean_key :: "string \<Rightarrow> bool" where
  "clean_key k \<longleftrightarrow> set k \<inter> {NUL, CR, LF, CHR '':''} = {}"

definition clean_value :: "string \<Rightarrow> bool" where
  "clean_value v \<longleftrightarrow> set v \<inter> {NUL, CR, LF} = {}"

definition line_of :: "ht_node \<Rightarrow> string" where
  "line_of p = key p @ '':'' @ the (payload p) @ [CR, LF]"

definition fits_item :: "ht_node \<Rightarrow> bool" where
  "fits_item p \<longleftrightarrow> payload p \<noteq> None \<and> clean_key (key p) \<and> clean_value (the (payload p)) \<and>
     length (line_of p) < ITEM_SZ"

lemma strstr_colon: "CHR '':'' \<notin> set k \<Longrightarrow> strstr (k @ CHR '':'' # v) '':'' = Some (CHR '':'' # v)"
  by (induction k) auto

lemma load_item_text:
  assumes "clean_key k" and "clean_value v" and "set w \<inter> {NUL, CR, LF} = set w"
  shows "load_item (k @ CHR '':'' # v @ w) ht = ht_put k v ht"
proof -
  have "takeWhile (\<lambda>c. c \<noteq> NUL \<and> c \<noteq> CR \<and> c \<noteq> LF) (k @ CHR '':'' # v @ w) = k @ CHR '':'' # v"
  proof -
    let ?P = "\<lambda>c. c \<noteq> NUL \<and> c \<noteq> CR \<and> c \<noteq> LF"
    have "\<And>c. c \<in> set (k @ CHR '':'' # v) \<Longrightarrow> ?P c"
      using assms(1,2) by (auto simp: clean_key_def clean_value_def)
    then have "takeWhile ?P ((k @ CHR '':'' # v) @ w) = (k @ CHR '':'' # v) @ takeWhile ?P w"
      by (rule takeWhile_append2)
    moreover have "takeWhile ?P w = []" using assms(3) by (cases w) auto
    ultimately show ?thesis by simp
  qed
  moreover have "strstr (k @ CHR '':'' # v) '':'' = Some (CHR '':'' # v)"
    using assms(1) by (intro strstr_colon) (auto simp: clean_key_def)
  ultimately show ?thesis by (simp add: load_item_def ht_put_def)
qed

lemma items_text_lines:
  "\<forall>p \<in> set ps. fits_item p \<Longrightarrow> items_text ps = Inr (concat (map line_of ps))"
  by (induction ps) (auto simp: fits_item_def item_text_def line_of_def snprintf_def ITEM_SZ_def)

lemma fgets_all_lines:
  "\<forall>p \<in> set ps. fits_item p \<Longrightarrow> fgets_all ITEM_SZ (concat (map line_of ps)) = map line_of ps"
proof (induction ps)
  case (Cons p ps)
  let ?l = "key p @ '':'' @ the (payload p) @ [CR]"
  have "LF \<notin> set ?l" "length ?l + 1 < ITEM_SZ"
    using Cons.prems by (auto simp: fits_item_def clean_key_def clean_value_def line_of_def)
  from fgets_all_line [OF this, of "concat (map line_of ps)"] Cons
  show ?case by (simp add: line_of_def [of p])
qed simp

lemma fold_load_lines:
  "\<forall>p \<in> set ps. fits_item p \<Longrightarrow>
   fold load_item (map line_of ps) ht = fold (\<lambda>(k, v). ht_put k v) (map (\<lambda>p. (key p, the (payload p))) ps) ht"
proof (induction ps arbitrary: ht)
  case (Cons p ps)
  have "load_item (line_of p) ht = ht_put (key p) (the (payload p)) ht"
    using Cons.prems load_item_text [of "key p" "the (payload p)" "[CR, LF]" ht]
    by (simp add: fits_item_def line_of_def)
  with Cons show ?case by simp
qed simp

lemma unat_HT_BUCKETS [simp]: "unat HT_BUCKETS = 1024"
  by (simp add: HT_BUCKETS_def)

lemma ht_hash_bound: "ht_hash k < 1024"
  by (simp add: ht_hash_def unat_mod)

lemma table_keys_distinct:
  assumes "table_wf h kf t"
  shows "distinct (map kf (concat (map t [0..<n])))"
proof (induction n)
  case (Suc n)
  have "kf p \<noteq> kf q" if "p \<in> set (t n)" "q \<in> set (t i)" "i < n" for p q i
    using table_wf_bucket [OF assms that(1)] table_wf_bucket [OF assms that(2)] that(3) by auto
  then show ?case using Suc table_wf_distinct [OF assms, of n] by fastforce
qed simp

lemma ht_get_iff:
  assumes "ht_ok ht"
  shows "ht_get ht k = Some v \<longleftrightarrow> (\<exists>p \<in> set (concat (map ht [0..<1024])). key p = k \<and> payload p = Some v)"
proof -
  have wf: "table_wf ht_hash key ht" using assms by (simp add: ht_ok_def)
  have "p \<in> set (ht i) \<Longrightarrow> i < 1024" for p i
    using table_wf_bucket [OF wf, of p i] ht_hash_bound [of "key p"] by auto
  then have in_iff: "(\<exists>i. p \<in> set (ht i)) \<longleftrightarrow> p \<in> set (concat (map ht [0..<1024]))" for p by auto
  have "ht_get ht k = Some v \<longleftrightarrow> (\<exists>p. table_find ht_hash key ht k = Some p \<and> payload p = Some v)"
    by (auto simp: ht_get_def ht_lookup_eq_find split: option.splits)
  then show ?thesis using table_find_iff [OF wf, of k] in_iff by blast
qed

lemma ht_get_rebuilt:
  assumes "ht_ok ht"
  shows "map_of (rev (map (\<lambda>p. (key p, the (payload p))) (concat (map ht [0..<1024])))) = ht_get ht"
proof
  fix k
  let ?ps = "concat (map ht [0..<1024])"
  have d: "distinct (map key ?ps)" using assms by (intro table_keys_distinct [of ht_hash]) (simp add: ht_ok_def)
  have s: "\<forall>p \<in> set ?ps. payload p \<noteq> None" using assms by (auto simp: ht_ok_def)
  have "map_of (rev (map (\<lambda>p. (key p, the (payload p))) ?ps)) k = Some v \<longleftrightarrow> ht_get ht k = Some v" for v
  proof -
    have "distinct (map fst (rev (map (\<lambda>p. (key p, the (payload p))) ?ps)))"
      using d by (simp add: comp_def del: map_concat flip: rev_map)
    from map_of_eq_Some_iff [OF this, of k v] show ?thesis
      using s ht_get_iff [OF assms, of k v] by fastforce
  qed
  then show "map_of (rev (map (\<lambda>p. (key p, the (payload p))) ?ps)) k = ht_get ht k"
    by (metis not_None_eq)
qed

text \<open>C23: A table saved and loaded into a new one gives every key the value it had, provided keys and
  values have no line terminators, keys no colon, and each line fits the item buffer.\<close>

theorem save_load_roundtrip:
  assumes "ht_ok ht" and "\<And>i p. p \<in> set (ht i) \<Longrightarrow> fits_item p" and "get_path d = Some path"
  shows "\<exists>fs' ht'. db_save True ht d fs = Inr (fs', 0) \<and> db_load ht_new d fs' = (ht', 0) \<and> ht_get ht' = ht_get ht"
proof -
  let ?ps = "concat (map ht [0..<1024])"
  let ?kvs = "map (\<lambda>p. (key p, the (payload p))) ?ps"
  have f: "\<forall>p \<in> set ?ps. fits_item p" using assms(2) by auto
  have 1: "db_save True ht d fs = Inr (fs(path \<mapsto> concat (map line_of ?ps)), 0)"
    using items_text_lines [OF f] assms(3) by (simp add: db_save_def del: map_concat)
  have 2: "db_load ht_new d (fs(path \<mapsto> concat (map line_of ?ps))) = (fold (\<lambda>(k, v). ht_put k v) ?kvs ht_new, 0)"
    using fgets_all_lines [OF f] fold_load_lines [OF f, of ht_new] assms(3)
    by (simp add: db_load_def del: map_concat)
  have "ht_get (fold (\<lambda>(k, v). ht_put k v) ?kvs ht_new) = ht_get ht"
    unfolding ht.get_puts_empty by (rule ht_get_rebuilt [OF assms(1)])
  with 1 2 show ?thesis by blast
qed

lemma singleton_table:
  "ht_put k v ht_new i = (if i = ht_hash k then [\<lparr>key = k, payload = Some v\<rparr>] else [])"
  by (simp add: ht_put_def ht_set_def ht_lookup_def ht_new_def)

lemma singleton_table_fun:
  "ht_put k v ht_new = (\<lambda>i. if i = ht_hash k then [\<lparr>key = k, payload = Some v\<rparr>] else [])"
  by (simp add: fun_eq_iff singleton_table)

lemma ht_ok_singleton [simp]: "ht_ok (ht_put k v ht_new)"
  by (rule ht.invar_put [OF ht.invar_empty])

theorem save_load_roundtrip_witness:
  "\<exists>fs' ht'. db_save True (ht_put ''a'' ''b'' ht_new) ''./x'' Map.empty = Inr (fs', 0) \<and>
     db_load ht_new ''./x'' fs' = (ht', 0) \<and> ht_get ht' = [''a'' \<mapsto> ''b'']"
  using save_load_roundtrip [of "ht_put ''a'' ''b'' ht_new" "''./x''" "''./x''" Map.empty]
  by (simp add: singleton_table fits_item_def clean_key_def clean_value_def line_of_def ITEM_SZ_def get_path_def
      ht.get_put ht.invar_empty ht.get_empty split: if_splits)

lemma concat_single: "h < n \<Longrightarrow> concat (map (\<lambda>i. if i = h then x else []) [0..<n]) = x"
proof (induction n)
  case (Suc n)
  have "concat (map (\<lambda>i. if i = n then x else []) [0..<n]) = []" by simp
  with Suc show ?case by (cases "h = n") auto
qed simp

lemma fgets_take_all: "LF \<notin> set s \<Longrightarrow> length s \<le> n \<Longrightarrow> fgets_take n s = s"
  by (induction n s rule: fgets_take.induct) auto

lemma fgets_all_unterminated:
  "LF \<notin> set s \<Longrightarrow> s \<noteq> [] \<Longrightarrow> length s < n \<Longrightarrow> fgets_all n s = [s]"
  by (cases s; subst fgets_all.simps) (auto simp: fgets_def fgets_take_all)

text \<open>An item longer than the buffer of 1024 bytes is cut without notice, terminator included: what
  is loaded back is the part of the value that fitted.\<close>

lemma save_truncates:
  assumes "clean_key k" and "clean_value v" and "length k \<le> 1022" and "1022 \<le> length k + length v"
    and "get_path d = Some path"
  shows "\<exists>fs' ht'. db_save True (ht_put k v ht_new) d fs = Inr (fs', 0) \<and> db_load ht_new d fs' = (ht', 0) \<and>
           ht_get ht' = [k \<mapsto> take (1022 - length k) v]"
proof -
  let ?v = "take (1022 - length k) v"
  let ?item = "k @ CHR '':'' # ?v"
  have ps: "concat (map (ht_put k v ht_new) [0..<1024]) = [\<lparr>key = k, payload = Some v\<rparr>]"
    unfolding singleton_table_fun by (rule concat_single [OF ht_hash_bound])
  have i: "snprintf ITEM_SZ (k @ CHR '':'' # v @ [CR, LF]) = ?item"
  proof -
    have "1023 - length k = Suc (1022 - length k)" using assms(3) by simp
    then have "take (1023 - length k) (CHR '':'' # v @ [CR, LF]) = CHR '':'' # take (1022 - length k) (v @ [CR, LF])"
      by (simp only: take_Suc_Cons)
    then show ?thesis using assms(3,4) by (simp add: snprintf_def ITEM_SZ_def)
  qed
  have s: "db_save True (ht_put k v ht_new) d fs = Inr (fs(path \<mapsto> ?item), 0)"
    using assms(5) ps i by (simp add: db_save_def item_text_def del: map_concat)
  have cv: "clean_value ?v" using assms(2) by (auto simp: clean_value_def dest: in_set_takeD)
  have "LF \<notin> set ?item" using assms(1) cv by (auto simp: clean_key_def clean_value_def)
  then have "fgets_all ITEM_SZ ?item = [?item]"
    using assms(3) by (intro fgets_all_unterminated) (auto simp: ITEM_SZ_def)
  moreover have "load_item ?item ht_new = ht_put k ?v ht_new"
    using load_item_text [OF assms(1) cv, of "[]"] by simp
  ultimately have "db_load ht_new d (fs(path \<mapsto> ?item)) = (ht_put k ?v ht_new, 0)"
    using assms(5) by (simp add: db_load_def)
  with s show ?thesis by (simp add: ht.get_put ht.invar_empty ht.get_empty)
qed

lemma save_truncates_instance:
  "\<exists>fs' ht'. db_save True (ht_put ''k'' (replicate 2000 (CHR ''v'')) ht_new) ''./x'' Map.empty = Inr (fs', 0) \<and>
     db_load ht_new ''./x'' fs' = (ht', 0) \<and> ht_get ht' = [''k'' \<mapsto> replicate 1021 (CHR ''v'')]"
  using save_truncates [of "''k''" "replicate 2000 (CHR ''v'')" "''./x''" "''./x''" Map.empty]
  by (simp add: clean_key_def clean_value_def get_path_def)

text \<open>A key that contains the separator comes back as a shorter key.\<close>

lemma load_item_split_key:
  "load_item ''a:b:c'' ht_new = ht_put ''a'' ''b:c'' ht_new"
  using load_item_text [of "''a''" "''b:c''" "[]" ht_new] by (simp add: clean_key_def clean_value_def)

section \<open>Opening the log\<close>

lemma find_cask_props:
  "find_cask d fs n \<le> n \<and>
   (find_cask d fs n < j \<longrightarrow> j \<le> n \<longrightarrow> get_cask_path d j = Some p \<longrightarrow> fs p = None) \<and>
   (0 < find_cask d fs n \<longrightarrow> get_cask_path d (find_cask d fs n) = Some q \<longrightarrow> fs q \<noteq> None)"
proof (induction n)
  case 0
  show ?case by (subst find_cask.simps, subst (2) find_cask.simps, subst (3) find_cask.simps) (auto split: option.splits)
next
  case (Suc n)
  show ?case
  proof (cases "find_cask d fs (Suc n) = Suc n")
    case True
    then show ?thesis by (subst (asm) find_cask.simps) (use Suc True in \<open>auto split: option.splits if_splits\<close>)
  next
    case False
    then have eq: "find_cask d fs (Suc n) = find_cask d fs n" and
      no: "get_cask_path d (Suc n) = Some p \<Longrightarrow> fs p = None"
      by (subst (asm) find_cask.simps, subst find_cask.simps, force split: option.splits if_splits)
         (use False in \<open>subst (asm) find_cask.simps, force split: option.splits if_splits\<close>)
    then show ?thesis using Suc by (auto simp: le_Suc_eq)
  qed
qed

text \<open>Opening a directory selects its highest numbered cask up to 100 and keeps its contents, or
  creates number 0 when there is none.\<close>

lemma bitcask_open_latest:
  assumes "bitcask_open True True d thr fs = (fs', Some c)"
  shows "active_file_id c \<le> 100 \<and>
     get_cask_path d (active_file_id c) = Some (active_fd c) \<and>
     (\<forall>j p. active_file_id c < j \<longrightarrow> j \<le> 100 \<longrightarrow> get_cask_path d j = Some p \<longrightarrow> fs p = None) \<and>
     (0 < active_file_id c \<longrightarrow> fs (active_fd c) \<noteq> None) \<and>
     fs' = fs(active_fd c \<mapsto> (case fs (active_fd c) of None \<Rightarrow> [] | Some f \<Rightarrow> f))"
proof -
  let ?i = "find_cask d fs 100"
  obtain path where p: "get_cask_path d ?i = Some path"
    using assms by (auto simp: bitcask_open_def Let_def split: option.splits)
  then have c: "active_file_id c = ?i" "active_fd c = path"
    and fs': "fs' = (if fs path = None then fs(path \<mapsto> []) else fs)"
    using assms by (auto simp: bitcask_open_def Let_def)
  show ?thesis
    using find_cask_props [of d fs 100] p c fs' by (auto simp: fun_upd_idem split: option.splits)
qed

lemma bitcask_open_latest_instance:
  "active_file_id (the (snd (bitcask_open True True ''./d'' 5 [''./d/cask.0'' \<mapsto> [1 :: u8]]))) \<le> 100"
  using bitcask_open_latest [of "''./d''" 5 "[''./d/cask.0'' \<mapsto> [1 :: u8]]"]
  by (cases "bitcask_open True True ''./d'' 5 [''./d/cask.0'' \<mapsto> [1 :: u8]]")
     (auto simp: bitcask_open_def get_cask_path_def get_path_def Let_def)

section \<open>Releasing the table\<close>

text \<open>\<open>ht_free\<close> releases every entry exactly once.\<close>

lemma ht_free_all:
  assumes "ht_ok ht"
  shows "distinct (ht_free ht) \<and> set (ht_free ht) = (\<Union>i. set (ht i))"
proof -
  have wf: "table_wf ht_hash key ht" using assms by (simp add: ht_ok_def)
  have "i < 1024" if "p \<in> set (ht i)" for p i
    using table_wf_bucket [OF wf that] ht_hash_bound [of "key p"] by auto
  then have "set (ht_free ht) = (\<Union>i. set (ht i))" by (fastforce simp: ht_free_def)
  moreover have "distinct (ht_free ht)"
    using table_keys_distinct [OF wf, of 1024] unfolding ht_free_def unat_HT_BUCKETS by (rule distinct_map [THEN iffD1, THEN conjunct1])
  ultimately show ?thesis by blast
qed

end
