(* ===== verification/Bitcask_Main.thy ===== *)
theory Bitcask_Main
  imports Bitcask_DB
begin

text \<open>
  The program \<open>96. bitcask/bitcask.c\<close>: it opens a database, appends one entry and closes it. A call may
  return the null pointer (\<open>can_open\<close>, \<open>calloc_ok\<close>, \<open>malloc_ok\<close> say which system calls succeed), which
  the program does not check. What follows \<open>exit(0)\<close> is never reached. The programs that run one after the
  other on the same directory extend the same log.
\<close>

section \<open>The program\<close>

definition bitcask_session ::
  "bool \<Rightarrow> bool \<Rightarrow> bool \<Rightarrow> string \<Rightarrow> nat \<Rightarrow> append_op \<Rightarrow> u8 fs \<Rightarrow> (u8 fs \<times> released list) result" where
  "bitcask_session can_open calloc_ok malloc_ok d thr = (\<lambda>(ws, init, now, k, v) fs.
     case bitcask_open can_open calloc_ok d thr fs of
       (fs1, None) \<Rightarrow> if malloc_ok then Inl NullDeref else Inr (fs1, bitcask_close None)
     | (fs1, Some db) \<Rightarrow>
         ebind (bitcask_append malloc_ok ws init now db k v fs1) (\<lambda>(fs2, _).
           Inr (fs2, bitcask_close (Some db))))"

definition bitcask_main ::
  "bool \<Rightarrow> bool \<Rightarrow> bool \<Rightarrow> (nat \<Rightarrow> int) \<Rightarrow> u8 list \<Rightarrow> u64 \<Rightarrow> u8 fs \<Rightarrow> (u8 fs \<times> released list) result" where
  "bitcask_main can_open calloc_ok malloc_ok ws init now fs =
     bitcask_session can_open calloc_ok malloc_ok ''./database'' 100 (ws, init, now, ''shakil'', ''flksdjflkajsdklfjasdkf'') fs"

text \<open>Programs run one after the other.\<close>

fun run_sessions :: "string \<Rightarrow> nat \<Rightarrow> append_op list \<Rightarrow> u8 fs \<Rightarrow> u8 fs result" where
  "run_sessions d thr [] fs = Inr fs"
| "run_sessions d thr (op # ops) fs =
     ebind (bitcask_session True True True d thr op fs) (\<lambda>(fs', _). run_sessions d thr ops fs')"

section \<open>The casks have names of their own\<close>

lemma get_cask_path_inj:
  assumes "length d \<le> 1000" and "i \<le> 100" and "j \<le> 100"
    and "get_cask_path d i = Some p" and "get_cask_path d j = Some p"
  shows "i = j"
proof -
  have "length (nat_str i) \<le> 3" "length (nat_str j) \<le> 3"
    using length_nat_str [of i 2] length_nat_str [of j 2] assms(2,3) by simp_all
  then have "nat_str i = nat_str j"
    using assms by (auto simp: get_cask_path_def get_path_def snprintf_def split: option.splits if_splits)
  then have "dec_val (nat_str i) = dec_val (nat_str j)" by simp
  then show ?thesis unfolding dec_val_nat_str by simp
qed

text \<open>Writing the active cask does not change which cask is the active one.\<close>

lemma find_cask_update:
  assumes "length d \<le> 1000" and "n \<le> 100" and "get_cask_path d (find_cask d fs n) = Some p"
  shows "find_cask d (fs(p \<mapsto> x)) n = find_cask d fs n"
  using assms(2,3)
proof (induction n)
  case 0
  then show ?case by (subst find_cask.simps, subst (2) find_cask.simps) (auto split: option.splits)
next
  case (Suc n)
  show ?case
  proof (cases "find_cask d fs (Suc n) = Suc n")
    case True
    with Suc.prems show ?thesis by (subst (1) find_cask.simps) simp
  next
    case False
    obtain q where q: "get_cask_path d (Suc n) = Some q"
      using Suc.prems(2) by (auto simp: get_cask_path_def split: option.splits)
    have prev: "find_cask d fs (Suc n) = find_cask d fs n" and absent: "fs q = None"
      by (subst find_cask.simps, use False q in \<open>subst (asm) find_cask.simps, force split: if_splits\<close>)
         (use False q in \<open>subst (asm) find_cask.simps, force split: if_splits\<close>)
    have le: "find_cask d fs n \<le> n" using find_cask_props [of d fs n] by blast
    have "q \<noteq> p"
      using get_cask_path_inj [OF assms(1), of "Suc n" "find_cask d fs n" p] le
        Suc.prems prev q by auto
    then have "find_cask d (fs(p \<mapsto> x)) (Suc n) = find_cask d (fs(p \<mapsto> x)) n"
      using q absent by (subst find_cask.simps) simp
    also have "find_cask d (fs(p \<mapsto> x)) n = find_cask d fs n"
      by (rule Suc.IH) (use Suc.prems prev in simp_all)
    finally show ?thesis unfolding prev .
  qed
qed

section \<open>Sessions extend the log\<close>

definition content :: "'b fs \<Rightarrow> string \<Rightarrow> 'b list" where
  "content fs p = (case fs p of None \<Rightarrow> [] | Some f \<Rightarrow> f)"

lemma bitcask_session_appends:
  assumes "get_cask_path d (find_cask d fs 100) = Some p" and "append_ok op"
  shows "bitcask_session True True True d thr op fs =
    Inr (fs(p \<mapsto> content fs p @ op_record op), [FdClosed p, StrFreed d])"
proof -
  obtain ws init now k v where op: "op = (ws, init, now, k, v)" by (cases op rule: op_record.cases)
  define db where "db = \<lparr>dir = d, active_fd = p, active_file_id = find_cask d fs 100, threshold = thr\<rparr>"
  have open_: "bitcask_open True True d thr fs = (fs(p \<mapsto> content fs p), Some db)"
    using assms(1) by (auto simp: bitcask_open_def db_def content_def fun_upd_idem split: option.splits)
  have "bitcask_append True ws init now db k v (fs(p \<mapsto> content fs p)) =
      Inr (fs(p \<mapsto> content fs p @ record_of now k v), int (length (content fs p) + 20 + length k))"
    using assms(2) op by (simp add: bitcask_append_def db_def make_record_eq write_all_complete Let_def)
  with open_ show ?thesis by (simp add: bitcask_session_def op bitcask_close_def db_def)
qed

text \<open>C14: What is appended survives the program: any number of runs that open a directory, append and close leave one log
  that decodes into the entries it had before and then those of all runs in their order; every other file is
  as it was.\<close>

theorem bitcask_sessions_log:
  assumes "length d \<le> 1000" and "get_cask_path d (find_cask d fs 100) = Some p"
    and "scan_log (content fs p) = Some es" and "list_all append_ok ops"
  shows "\<exists>fs'. run_sessions d thr ops fs = Inr fs' \<and> scan_log (content fs' p) = Some (es @ map op_entry ops) \<and>
    fs'(p := fs p) = fs"
  using assms(2-)
proof (induction ops arbitrary: fs es)
  case Nil
  then show ?case by (intro exI [of _ fs]) (simp add: fun_eq_iff)
next
  case (Cons op ops)
  let ?fs = "fs(p \<mapsto> content fs p @ op_record op)"
  have one: "bitcask_session True True True d thr op fs = Inr (?fs, [FdClosed p, StrFreed d])"
    by (rule bitcask_session_appends) (use Cons.prems in simp_all)
  have "scan_log (op_record op) = Some [op_entry op]"
    using log.all_encs [of "[op]" "[]"] Cons.prems(3) by simp
  then have "scan_log (content ?fs p) = Some (es @ [op_entry op])"
    using scan_log_append [OF Cons.prems(2)] by (simp add: content_def)
  moreover have "get_cask_path d (find_cask d ?fs 100) = Some p"
    using find_cask_update [OF assms(1) _ Cons.prems(1)] Cons.prems(1) by simp
  ultimately obtain fs' where "run_sessions d thr ops ?fs = Inr fs'"
    "scan_log (content fs' p) = Some ((es @ [op_entry op]) @ map op_entry ops)" "fs'(p := ?fs p) = ?fs"
    using Cons.IH [of ?fs "es @ [op_entry op]"] Cons.prems(3) unfolding list.pred_inject(2) by blast
  moreover from this(3) have "fs'(p := fs p) = fs" by (auto simp: fun_eq_iff split: if_splits)
  moreover from one calculation(1) have "run_sessions d thr (op # ops) fs = Inr fs'" by simp
  ultimately show ?case unfolding append.assoc append_Cons append_Nil list.map by blast
qed

theorem bitcask_sessions_log_witness:
  "\<exists>fs'. run_sessions ''./database'' 100
      [((\<lambda>_. 3), replicate 22 0, 7, ''k'', ''a''), ((\<lambda>_. 100), replicate 23 1, 9, ''k'', ''bc'')] Map.empty = Inr fs' \<and>
    scan_log (content fs' ''./database/cask.0'') =
      Some [(7, str_bytes ''k'', str_bytes ''a''), (9, str_bytes ''k'', str_bytes ''bc'')]"
proof -
  have none: "find_cask d (Map.empty :: u8 fs) n = 0" for d n
    by (induction n) (subst find_cask.simps, simp split: option.splits)+
  have "get_cask_path ''./database'' (find_cask ''./database'' (Map.empty :: u8 fs) 100) = Some ''./database/cask.0''"
    by (simp add: none get_cask_path_def get_path_def snprintf_def nat_str.simps caseeq_def)
  then show ?thesis
    using bitcask_sessions_log [of "''./database''" Map.empty "''./database/cask.0''" "[]"
        "[((\<lambda>_. 3), replicate 22 0, 7, ''k'', ''a''), ((\<lambda>_. 100), replicate 23 1, 9, ''k'', ''bc'')]" 100]
    by (auto simp: content_def)
qed

text \<open>The program itself: without a directory \<open>database\<close> it dereferences the null pointer it was given.\<close>

lemma bitcask_main_appends:
  assumes "get_cask_path ''./database'' (find_cask ''./database'' fs 100) = Some p" and "\<And>i. 0 < ws i" and "length init = 48"
  shows "bitcask_main True True True ws init now fs =
    Inr (fs(p \<mapsto> content fs p @ record_of now ''shakil'' ''flksdjflkajsdklfjasdkf''), [FdClosed p, StrFreed ''./database''])"
  using bitcask_session_appends [OF assms(1)] assms(2,3) by (simp add: bitcask_main_def)

lemma bitcask_main_no_directory: "bitcask_main False calloc_ok True ws init now fs = Inl NullDeref"
  by (simp add: bitcask_main_def bitcask_session_def bitcask_open_def Let_def split: option.splits)

end
