(* ===== verification/Diff_LCS.thy ===== *)
theory Diff_LCS
  imports Prelude
begin

text \<open>
  The diff tool, \<open>13. diff tool/diff_tool.c\<close>: the longest common subsequence of two lists of lines
  (\<open>lcs_lines\<close>) by a table and a walk back through it.

  The table is a function updated cell by cell in the order of the two loops; it has \<open>LEN\<close> rows and
  columns, so longer inputs are out of bounds. The result array starts with every cell indeterminate
  (\<open>None\<close>) and is written from its end. \<open>L\<close> is the recursion the table tabulates.
\<close>

section \<open>The code\<close>

definition LEN :: nat where "LEN = 1001"

record str_list =
  items :: "string option list"
  count :: nat

type_synonym dp = "nat \<times> nat \<Rightarrow> nat"

definition cell :: "string list \<Rightarrow> string list \<Rightarrow> dp \<Rightarrow> nat \<Rightarrow> nat \<Rightarrow> nat" where
  "cell a b dp i j =
     (if a ! (i - 1) = b ! (j - 1) then dp (i - 1, j - 1) + 1
      else if dp (i - 1, j) \<ge> dp (i, j - 1) then dp (i - 1, j)
      else dp (i, j - 1))"

definition fill_row :: "string list \<Rightarrow> string list \<Rightarrow> nat \<Rightarrow> dp \<Rightarrow> nat \<Rightarrow> dp" where
  "fill_row a b m dp i = foldl (\<lambda>dp j. dp((i, j) := cell a b dp i j)) dp [1..<Suc m]"

definition fill_table :: "string list \<Rightarrow> string list \<Rightarrow> nat \<Rightarrow> nat \<Rightarrow> dp" where
  "fill_table a b n m = foldl (fill_row a b m) (\<lambda>_. 0) [1..<Suc n]"

function walk_back :: "string list \<Rightarrow> string list \<Rightarrow> dp \<Rightarrow> nat \<Rightarrow> nat \<Rightarrow> nat \<Rightarrow> string option list \<Rightarrow> (nat \<times> string option list) result" where
  "walk_back a b dp i j idx its =
     (if i > 0 \<and> j > 0 then
        (if a ! (i - 1) = b ! (j - 1) then
           (if idx = 0 \<or> idx > length its then Inl OutOfBounds
            else walk_back a b dp (i - 1) (j - 1) (idx - 1) (its[idx - 1 := Some (a ! (i - 1))]))
         else if dp (i - 1, j) > dp (i, j - 1) then walk_back a b dp (i - 1) j idx its
         else walk_back a b dp i (j - 1) idx its)
      else Inr (idx, its))"
  by pat_completeness auto
termination
  by (relation "measure (\<lambda>(a, b, dp, i, j, idx, its). i + j)") auto

declare walk_back.simps [simp del]

definition lcs_lines :: "string list \<Rightarrow> string list \<Rightarrow> str_list result" where
  "lcs_lines a b =
     (let n = length a; m = length b in
      if n \<ge> LEN \<or> m \<ge> LEN then Inl OutOfBounds
      else
        let dp = fill_table a b n m; cnt = dp (n, m) in
        ebind (walk_back a b dp n m cnt (replicate (cnt + 1) None)) (\<lambda>(_, its).
          Inr \<lparr>items = its, count = cnt\<rparr>))"

text \<open>The two comparison callbacks of the header.\<close>

definition word_equal :: "string \<Rightarrow> string \<Rightarrow> nat \<Rightarrow> nat \<Rightarrow> bool result" where
  "word_equal a b i j = (if i < length a \<and> j < length b then Inr (a ! i = b ! j) else Inl OutOfBounds)"

definition line_equal :: "string list \<Rightarrow> string list \<Rightarrow> nat \<Rightarrow> nat \<Rightarrow> bool result" where
  "line_equal a b i j = (if i < length a \<and> j < length b then Inr (a ! i = b ! j) else Inl OutOfBounds)"

section \<open>The recursion behind the table\<close>

fun L :: "string list \<Rightarrow> string list \<Rightarrow> nat \<Rightarrow> nat \<Rightarrow> nat" where
  "L a b 0 j = 0"
| "L a b (Suc i) 0 = 0"
| "L a b (Suc i) (Suc j) =
     (if a ! i = b ! j then L a b i j + 1 else max (L a b i (Suc j)) (L a b (Suc i) j))"

lemma L_0_right [simp]: "L a b i 0 = 0"
  by (cases i) auto

text \<open>\<open>agrees R dp\<close>: the table holds the recursion on the cells \<open>R\<close> and zero elsewhere.\<close>

definition agrees :: "string list \<Rightarrow> string list \<Rightarrow> (nat \<times> nat) set \<Rightarrow> dp \<Rightarrow> bool" where
  "agrees a b R dp \<longleftrightarrow> (\<forall>i j. dp (i, j) = (if (i, j) \<in> R then L a b i j else 0))"

definition rows :: "nat \<Rightarrow> nat \<Rightarrow> (nat \<times> nat) set" where
  "rows n m = {1..n} \<times> {1..m}"

lemma agrees_at:
  "agrees a b R dp \<Longrightarrow> (i, j) \<in> R \<or> i = 0 \<or> j = 0 \<Longrightarrow> dp (i, j) = L a b i j"
  by (auto simp: agrees_def)

lemma cell_L:
  "dp (i, j) = L a b i j \<Longrightarrow> dp (i, Suc j) = L a b i (Suc j) \<Longrightarrow> dp (Suc i, j) = L a b (Suc i) j \<Longrightarrow>
   cell a b dp (Suc i) (Suc j) = L a b (Suc i) (Suc j)"
  by (simp add: cell_def)

lemma agrees_upd: "agrees a b R dp \<Longrightarrow> v = L a b i j \<Longrightarrow> agrees a b (insert (i, j) R) (dp((i, j) := v))"
  by (simp add: agrees_def)

lemma fill_row_cells:
  assumes "agrees a b (rows i m) dp" and "j \<le> m"
  shows "agrees a b (rows i m \<union> {Suc i} \<times> {1..j})
           (foldl (\<lambda>dp j. dp((Suc i, j) := cell a b dp (Suc i) j)) dp [1..<Suc j])"
  using assms(2)
proof (induction j)
  case 0
  then show ?case using assms(1) by simp
next
  case (Suc j)
  let ?R = "rows i m \<union> {Suc i} \<times> {1..j}"
  let ?d = "foldl (\<lambda>dp j. dp((Suc i, j) := cell a b dp (Suc i) j)) dp [1..<Suc j]"
  have ag: "agrees a b ?R ?d" by (rule Suc.IH) (use Suc.prems in simp)
  have "?d (i, j) = L a b i j" "?d (i, Suc j) = L a b i (Suc j)" "?d (Suc i, j) = L a b (Suc i) j"
    using Suc.prems by (intro agrees_at [OF ag]; auto simp: rows_def)+
  then have c: "cell a b ?d (Suc i) (Suc j) = L a b (Suc i) (Suc j)"
    by (rule cell_L)
  have r: "rows i m \<union> {Suc i} \<times> {1..Suc j} = insert (Suc i, Suc j) ?R"
    by (auto simp: le_Suc_eq)
  have u: "[1..<Suc (Suc j)] = [1..<Suc j] @ [Suc j]" by simp
  show ?case
    unfolding r u foldl_append foldl_Cons foldl_Nil by (rule agrees_upd [OF ag c])
qed

lemma fill_table_rows: "agrees a b (rows n m) (fill_table a b n m)"
proof (induction n)
  case 0
  then show ?case by (simp add: fill_table_def agrees_def rows_def)
next
  case (Suc n)
  have "rows (Suc n) m = rows n m \<union> {Suc n} \<times> {1..m}" by (auto simp: rows_def le_Suc_eq)
  then show ?case
    using fill_row_cells [OF Suc, of m] by (simp add: fill_table_def fill_row_def)
qed

lemma fill_table_L: "i \<le> n \<Longrightarrow> j \<le> m \<Longrightarrow> fill_table a b n m (i, j) = L a b i j"
  by (rule agrees_at [OF fill_table_rows]) (auto simp: rows_def)

section \<open>Common subsequences\<close>

lemma subseq_snoc_iff:
  "subseq cs (xs @ [x]) \<longleftrightarrow> subseq cs xs \<or> (\<exists>cs'. cs = cs' @ [x] \<and> subseq cs' xs)"
proof
  assume "subseq cs (xs @ [x])"
  then obtain c1 c2 where c: "cs = c1 @ c2" "subseq c1 xs" "subseq c2 [x]"
    by (auto simp: subseq_append_iff)
  then have "c2 = [] \<or> c2 = [x]" by (cases c2) (auto split: if_splits)
  with c show "subseq cs xs \<or> (\<exists>cs'. cs = cs' @ [x] \<and> subseq cs' xs)" by auto
next
  assume "subseq cs xs \<or> (\<exists>cs'. cs = cs' @ [x] \<and> subseq cs' xs)"
  then show "subseq cs (xs @ [x])" by (auto intro: subseq_rev_drop_many)
qed

lemma take_snoc: "i < length a \<Longrightarrow> take (Suc i) a = take i a @ [a ! i]"
  by (rule take_Suc_conv_app_nth)

lemma subseq_butlast: "subseq cs (xs @ [x]) \<Longrightarrow> subseq (butlast cs) xs"
proof (cases cs rule: rev_cases)
  case (snoc cs' c)
  assume "subseq cs (xs @ [x])"
  then show ?thesis
    unfolding subseq_snoc_iff snoc by (auto dest: subseq_rev_drop_many intro: subseq_order.trans)
qed simp

lemma L_upper:
  assumes "subseq cs (take i a)" and "subseq cs (take j b)" and "i \<le> length a" and "j \<le> length b"
  shows "length cs \<le> L a b i j"
  using assms
proof (induction a b i j arbitrary: cs rule: L.induct)
  case (3 a b i j)
  have a: "take (Suc i) a = take i a @ [a ! i]" and b: "take (Suc j) b = take j b @ [b ! j]"
    using "3.prems" by (simp_all add: take_snoc)
  show ?case
  proof (cases "a ! i = b ! j")
    case True
    have "length (butlast cs) \<le> L a b i j"
      using "3.IH"(1) [OF True, of "butlast cs"] subseq_butlast [of cs "take i a" "a ! i"]
        subseq_butlast [of cs "take j b" "b ! j"] "3.prems" a b by simp
    then show ?thesis using True by simp
  next
    case False
    consider "subseq cs (take i a)" | "subseq cs (take j b)"
      using "3.prems"(1,2) False unfolding a b subseq_snoc_iff by auto
    then show ?thesis
      using "3.IH"(2,3) [OF False] "3.prems" False by cases (auto simp: le_max_iff_disj)
  qed
qed simp_all

lemma walk_back_result:
  assumes "\<And>i j. i \<le> length a \<Longrightarrow> j \<le> length b \<Longrightarrow> dp (i, j) = L a b i j"
    and "i \<le> length a" and "j \<le> length b" and "idx = L a b i j" and "idx \<le> length its"
  shows "\<exists>cs. walk_back a b dp i j idx its = Inr (0, map Some cs @ drop idx its) \<and> length cs = idx \<and>
           subseq cs (take i a) \<and> subseq cs (take j b)"
  using assms(2-)
proof (induction "i + j" arbitrary: i j idx its rule: less_induct)
  case less
  show ?case
  proof (cases "0 < i \<and> 0 < j")
    case False
    then show ?thesis using less.prems by (subst walk_back.simps) (auto intro!: exI [of _ "[]"])
  next
    case True
    then obtain i' j' where ij: "i = Suc i'" "j = Suc j'" by (metis gr0_conv_Suc)
    have ta: "take i a = take i' a @ [a ! i']" and tb: "take j b = take j' b @ [b ! j']"
      using less.prems ij by (simp_all add: take_snoc)
    show ?thesis
    proof (cases "a ! i' = b ! j'")
      case eq: True
      let ?its = "its[idx - 1 := Some (a ! i')]"
      have idx: "idx = Suc (L a b i' j')" using less.prems ij eq by simp
      then obtain cs where cs: "walk_back a b dp i' j' (idx - 1) ?its = Inr (0, map Some cs @ drop (idx - 1) ?its)"
        "length cs = idx - 1" "subseq cs (take i' a)" "subseq cs (take j' b)"
        using less.hyps [of i' j' "idx - 1" ?its] less.prems ij by auto
      have "drop (idx - 1) ?its = Some (a ! i') # drop idx its"
        using less.prems idx by (simp add: Cons_nth_drop_Suc [symmetric])
      then have "walk_back a b dp i j idx its = Inr (0, map Some (cs @ [a ! i']) @ drop idx its)"
        using cs(1) eq ij idx less.prems by (subst walk_back.simps) simp
      moreover have "subseq (cs @ [a ! i']) (take i a)" "subseq (cs @ [a ! i']) (take j b)"
        using cs(3,4) eq unfolding ta tb subseq_snoc_iff by auto
      ultimately show ?thesis using cs(2) idx by (intro exI [of _ "cs @ [a ! i']"]) simp
    next
      case ne: False
      have d: "dp (i', j) = L a b i' j" "dp (i, j') = L a b i j'"
        using assms(1) less.prems ij by simp_all
      show ?thesis
      proof (cases "dp (i', j) > dp (i, j')")
        case True
        then have "idx = L a b i' j" using less.prems ij ne d by simp
        then obtain cs where "walk_back a b dp i' j idx its = Inr (0, map Some cs @ drop idx its)"
          "length cs = idx" "subseq cs (take i' a)" "subseq cs (take j b)"
          using less.hyps [of i' j idx its] less.prems ij by auto
        then show ?thesis using True ne ij ta
          by (subst walk_back.simps) (auto simp: subseq_snoc_iff intro!: exI [of _ cs])
      next
        case False
        then have "idx = L a b i j'" using less.prems ij ne d by simp
        then obtain cs where "walk_back a b dp i j' idx its = Inr (0, map Some cs @ drop idx its)"
          "length cs = idx" "subseq cs (take i a)" "subseq cs (take j' b)"
          using less.hyps [of i j' idx its] less.prems ij by auto
        then show ?thesis using False ne ij tb
          by (subst walk_back.simps) (auto simp: subseq_snoc_iff intro!: exI [of _ cs])
      qed
    qed
  qed
qed

section \<open>Properties\<close>

text \<open>C12: For lists of at most 1000 lines the result is a longest common subsequence: a subsequence of
  both lists, and no common subsequence is longer. Every cell of the result up to its count has been
  written.\<close>

theorem lcs_lines_correct:
  assumes "length a \<le> 1000" and "length b \<le> 1000"
  shows "\<exists>cs r. lcs_lines a b = Inr r \<and> count r = length cs \<and> take (count r) (items r) = map Some cs \<and>
           subseq cs a \<and> subseq cs b \<and> (\<forall>ds. subseq ds a \<and> subseq ds b \<longrightarrow> length ds \<le> length cs)"
proof -
  let ?dp = "fill_table a b (length a) (length b)"
  let ?n = "L a b (length a) (length b)"
  obtain cs where cs: "walk_back a b ?dp (length a) (length b) ?n (replicate (?n + 1) None) =
      Inr (0, map Some cs @ drop ?n (replicate (?n + 1) None))" "length cs = ?n" "subseq cs a" "subseq cs b"
    using walk_back_result [of a b ?dp "length a" "length b" ?n "replicate (?n + 1) None"] fill_table_L by auto
  have "length ds \<le> length cs" if "subseq ds a" "subseq ds b" for ds
    using L_upper [of ds "length a" a "length b" b] that cs(2) by simp
  moreover have "?dp (length a, length b) = ?n" by (rule fill_table_L) simp_all
  then have "lcs_lines a b = Inr \<lparr>items = map Some cs @ drop ?n (replicate (?n + 1) None), count = ?n\<rparr>"
    using assms cs(1) by (simp add: lcs_lines_def LEN_def Let_def)
  ultimately show ?thesis using cs(2,3,4) by (intro exI [of _ cs]) simp
qed

theorem lcs_lines_correct_witness:
  "\<exists>cs r. lcs_lines [''this'', ''is'', ''a'', ''test''] [''is'', ''test'', ''a''] = Inr r \<and> count r = length cs \<and>
     take (count r) (items r) = map Some cs \<and> subseq cs [''this'', ''is'', ''a'', ''test''] \<and>
     subseq cs [''is'', ''test'', ''a''] \<and>
     (\<forall>ds. subseq ds [''this'', ''is'', ''a'', ''test''] \<and> subseq ds [''is'', ''test'', ''a''] \<longrightarrow> length ds \<le> length cs)"
  by (rule lcs_lines_correct) simp_all

text \<open>The first list of the project's own test.\<close>

lemma lcs_lines_test:
  "lcs_lines [''x'', ''this is the lcs''] [''this is the lcs'', ''y''] =
     Inr \<lparr>items = [Some ''this is the lcs'', None], count = 1\<rparr>"
  by code_simp

lemma lcs_lines_too_long: "1000 < length a \<or> 1000 < length b \<Longrightarrow> lcs_lines a b = Inl OutOfBounds"
  by (auto simp: lcs_lines_def LEN_def Let_def)

end
