(* ===== verification/Uniq.thy ===== *)
theory Uniq
  imports CLib
begin

text \<open>
  The uniq tool, \<open>10. uniq/uniq.c\<close>: option parsing, the loop that compares adjacent lines, and the
  treatment of the last group behind the loop. \<open>groups\<close> is the reference: the maximal runs of equal
  lines with their lengths.

  The output is a pair: what goes to the chosen output stream and what goes to the standard output
  (the last group always does). \<open>files\<close> gives the contents of the files that can be opened for
  reading; whether the output file can be opened is an argument.
\<close>

section \<open>Options\<close>

record uniq_opts =
  print_count :: bool
  repeated_lines_only :: bool
  unique_lines_only :: bool
  input_file_path :: "string option"
  output_file_path :: "string option"

definition no_opts :: uniq_opts where
  "no_opts = \<lparr>print_count = False, repeated_lines_only = False, unique_lines_only = False,
              input_file_path = None, output_file_path = None\<rparr>"

text \<open>The test for \<open>-\<close> looks at the first argument (\<open>a1\<close>), not at the current one.\<close>

fun parse_args :: "string \<Rightarrow> string list \<Rightarrow> uniq_opts \<Rightarrow> uniq_opts" where
  "parse_args a1 [] op = op"
| "parse_args a1 (a # as) op =
     (if a = ''-c'' \<or> a = ''--count'' then parse_args a1 as (op\<lparr>print_count := True\<rparr>)
      else if a = ''-d'' \<or> a = ''--repeated'' then parse_args a1 as (op\<lparr>repeated_lines_only := True\<rparr>)
      else if a = ''-u'' then parse_args a1 as (op\<lparr>unique_lines_only := True\<rparr>)
      else if a1 = ''-'' then
        (case as of [] \<Rightarrow> op | out # as' \<Rightarrow> parse_args a1 as' (op\<lparr>output_file_path := Some out\<rparr>))
      else parse_args a1 as (if input_file_path op = None then op\<lparr>input_file_path := Some a\<rparr> else op))"

section \<open>The loop\<close>

definition MAX_LEN :: nat where "MAX_LEN = 10000"

definition should_print :: "uniq_opts \<Rightarrow> nat \<Rightarrow> bool" where
  "should_print op count =
     (let p = True;
          p = (if repeated_lines_only op then count > 1 else p);
          p = (if unique_lines_only op then count = 1 else p)
      in p)"

definition print_group :: "uniq_opts \<Rightarrow> nat \<Rightarrow> string \<Rightarrow> string" where
  "print_group op count prev =
     (if print_count op then snprintf (2 * MAX_LEN) (int_str3 (int count) @ '' '' @ prev) else prev)"

fun uniq_loop :: "uniq_opts \<Rightarrow> string list \<Rightarrow> string \<Rightarrow> nat \<Rightarrow> string \<Rightarrow> string \<times> nat \<times> string" where
  "uniq_loop op [] prev count out = (prev, count, out)"
| "uniq_loop op (buf # bufs) prev count out =
     (if prev \<noteq> [] \<and> buf \<noteq> prev then
        uniq_loop op bufs buf 1 (if should_print op count then out @ print_group op count prev else out)
      else uniq_loop op bufs buf (count + 1) out)"

text \<open>\<open>printf\<close> has no buffer: the last group is printed as a whole.\<close>

definition print_last :: "uniq_opts \<Rightarrow> nat \<Rightarrow> string \<Rightarrow> string" where
  "print_last op count prev =
     (if count > 0 \<and> should_print op count
      then (if print_count op then int_str3 (int count) @ '' '' @ prev else prev) else [])"

definition uniq_stream :: "uniq_opts \<Rightarrow> mem \<Rightarrow> string \<times> string" where
  "uniq_stream op s =
     (let (prev, count, out) = uniq_loop op (map cstr (fgets_all MAX_LEN s)) [] 0 []
      in (out, print_last op count prev))"

record uniq_result =
  status :: int
  to_stdout :: string
  to_file :: "(string \<times> string) option"

definition uniq_main :: "(string \<Rightarrow> mem option) \<Rightarrow> bool \<Rightarrow> mem \<Rightarrow> string list \<Rightarrow> uniq_result" where
  "uniq_main files can_write stdin args =
     (let op = (case args of [] \<Rightarrow> no_opts | a1 # _ \<Rightarrow> parse_args a1 args no_opts);
          inp = (case input_file_path op of None \<Rightarrow> Some stdin | Some f \<Rightarrow> files f)
      in case inp of
           None \<Rightarrow> \<lparr>status = 1, to_stdout = [], to_file = None\<rparr>
         | Some s \<Rightarrow>
             (case output_file_path op of
                None \<Rightarrow> (let (out, last) = uniq_stream op s in \<lparr>status = 0, to_stdout = out @ last, to_file = None\<rparr>)
              | Some f \<Rightarrow>
                  if \<not> can_write then \<lparr>status = 1, to_stdout = [], to_file = None\<rparr>
                  else (let (out, last) = uniq_stream op s in \<lparr>status = 0, to_stdout = last, to_file = Some (f, out)\<rparr>)))"

section \<open>Groups of equal adjacent lines\<close>

fun groups :: "string list \<Rightarrow> (nat \<times> string) list" where
  "groups [] = []"
| "groups (l # ls) =
     (case groups ls of
        [] \<Rightarrow> [(1, l)]
      | (n, l') # gs \<Rightarrow> if l = l' then (n + 1, l) # gs else (1, l) # (n, l') # gs)"

definition show_group :: "uniq_opts \<Rightarrow> nat \<times> string \<Rightarrow> string" where
  "show_group op g =
     (if should_print op (fst g)
      then (if print_count op then int_str3 (int (fst g)) @ '' '' @ snd g else snd g) else [])"

text \<open>Adding a group in front of the groups of a list.\<close>

fun cons_group :: "nat \<Rightarrow> string \<Rightarrow> (nat \<times> string) list \<Rightarrow> (nat \<times> string) list" where
  "cons_group n l [] = [(n, l)]"
| "cons_group n l ((m, l') # gs) = (if l = l' then (n + m, l) # gs else (n, l) # (m, l') # gs)"

lemma groups_Cons: "groups (l # ls) = cons_group 1 l (groups ls)"
  by (simp split: list.splits prod.splits)

lemma cons_group_nonempty [simp]: "cons_group n l gs \<noteq> []"
  by (cases "(n, l, gs)" rule: cons_group.cases) auto

lemma cons_group_same: "cons_group n l (cons_group m l gs) = cons_group (n + m) l gs"
  by (cases "(n, l, gs)" rule: cons_group.cases) auto

lemma groups_sum: "sum_list (map fst (groups ls)) = length ls"
proof (induction ls)
  case (Cons l ls)
  have "sum_list (map fst (cons_group n l gs)) = n + sum_list (map fst gs)" for n gs
    by (cases "(n, l, gs)" rule: cons_group.cases) auto
  with Cons show ?case by (simp only: groups_Cons) simp
qed simp

lemma concat_groups: "concat (map (\<lambda>(n, l). replicate n l) (groups ls)) = ls"
proof (induction ls)
  case (Cons l ls)
  have "concat (map (\<lambda>(n, l). replicate n l) (cons_group 1 l gs)) = l # concat (map (\<lambda>(n, l). replicate n l) gs)" for gs
    by (cases "(1 :: nat, l, gs)" rule: cons_group.cases) auto
  with Cons show ?case by (simp only: groups_Cons)
qed simp

lemma cons_group_other: "l \<noteq> k \<Longrightarrow> cons_group n l (cons_group m k gs) = (n, l) # cons_group m k gs"
  by (cases "(m, k, gs)" rule: cons_group.cases) auto

section \<open>The loop prints the groups\<close>

lemma print_group_show:
  assumes "length prev < MAX_LEN" and "int count \<le> INT_MAX" and "should_print op count"
  shows "print_group op count prev = show_group op (count, prev)"
proof -
  have "length (int_str3 (int count)) \<le> 11"
    using assms(2) by (intro length_int_str3) (simp_all add: INT_MIN_def)
  then show ?thesis
    using assms by (simp add: print_group_def show_group_def snprintf_def MAX_LEN_def)
qed

lemma uniq_loop_groups:
  assumes "prev \<noteq> []" and "length prev < MAX_LEN" and "\<forall>l \<in> set ls. l \<noteq> [] \<and> length l < MAX_LEN"
    and "int (count + length ls) \<le> INT_MAX"
  shows "uniq_loop op ls prev count out =
     (let gs = cons_group count prev (groups ls)
      in (snd (last gs), fst (last gs), out @ concat (map (show_group op) (butlast gs))))"
  using assms
proof (induction ls arbitrary: prev count out)
  case Nil
  then show ?case by simp
next
  case (Cons l ls)
  note groups.simps(2) [simp del]
  show ?case
  proof (cases "l = prev")
    case True
    then show ?thesis
      using Cons.IH [of prev "count + 1" out] Cons.prems by (simp add: groups_Cons cons_group_same)
  next
    case False
    let ?out = "if should_print op count then out @ print_group op count prev else out"
    have out: "?out = out @ show_group op (count, prev)"
      using print_group_show [of prev count op] Cons.prems by (auto simp: show_group_def)
    have "uniq_loop op (l # ls) prev count out = uniq_loop op ls l 1 ?out"
      using False Cons.prems by simp
    also have "\<dots> = (let gs = cons_group 1 l (groups ls)
        in (snd (last gs), fst (last gs), ?out @ concat (map (show_group op) (butlast gs))))"
      by (rule Cons.IH) (use Cons.prems in auto)
    finally show ?thesis
      unfolding out using False by (simp add: groups_Cons cons_group_other Let_def)
  qed
qed

lemma print_last_show: "0 < fst g \<Longrightarrow> print_last op (fst g) (snd g) = show_group op g"
  by (simp add: print_last_def show_group_def)

lemma fst_cons_group: "0 < n \<Longrightarrow> \<forall>g \<in> set gs. 0 < fst g \<Longrightarrow> \<forall>g \<in> set (cons_group n l gs). 0 < fst g"
  by (cases "(n, l, gs)" rule: cons_group.cases) auto

lemma groups_pos: "\<forall>g \<in> set (groups ls). 0 < fst g"
proof (induction ls)
  case (Cons l ls)
  then show ?case unfolding groups_Cons by (rule fst_cons_group [OF zero_less_one])
qed simp

definition group_out :: "uniq_opts \<Rightarrow> string list \<Rightarrow> string" where
  "group_out op ls = concat (map (show_group op) (groups ls))"

lemma uniq_stream_lines:
  assumes "plain_lines MAX_LEN ls" and "int (length ls) \<le> INT_MAX"
  shows "uniq_stream op (text_of ls) =
     (concat (map (show_group op) (butlast (groups (full_lines ls)))),
      (if ls = [] then [] else show_group op (last (groups (full_lines ls)))))"
proof (cases ls)
  case Nil
  then show ?thesis by (simp add: uniq_stream_def text_of_def print_last_def)
next
  case (Cons l ls')
  note groups.simps(2) [simp del]
  let ?l = "l @ [LF]" and ?ls = "full_lines ls'"
  let ?gs = "cons_group 1 ?l (groups ?ls)"
  have gs: "groups (full_lines ls) = ?gs" using Cons by (simp add: groups_Cons)
  have len: "length ?l < MAX_LEN" "\<forall>x \<in> set ?ls. x \<noteq> [] \<and> length x < MAX_LEN"
    using assms(1) Cons by (auto simp: plain_lines_def)
  have "uniq_loop op (full_lines ls) [] 0 [] = uniq_loop op ?ls ?l 1 []"
    using Cons by simp
  also have "\<dots> = (snd (last ?gs), fst (last ?gs), concat (map (show_group op) (butlast ?gs)))"
    using uniq_loop_groups [of ?l ?ls 1 op "[]"] len assms(2) Cons by (simp add: Let_def)
  finally have loop: "uniq_loop op (full_lines ls) [] 0 [] =
      (snd (last ?gs), fst (last ?gs), concat (map (show_group op) (butlast ?gs)))" .
  have "last ?gs \<in> set (groups (full_lines ls))" unfolding gs by (rule last_in_set) simp
  then have "0 < fst (last ?gs)" using groups_pos by blast
  then have "uniq_stream op (text_of ls) = (concat (map (show_group op) (butlast ?gs)), show_group op (last ?gs))"
    unfolding uniq_stream_def fgets_all_text [OF assms(1)] cstr_lines [OF assms(1)] loop
    by (simp add: print_last_show)
  then show ?thesis using gs Cons by simp
qed

section \<open>Properties\<close>



text \<open>With an output file (\<open>-\<close> as the first argument) the last group is printed to the standard
  output and is missing from the file.\<close>

lemma uniq_file_misses_last:
  assumes "plain_lines MAX_LEN ls" and "int (length ls) \<le> INT_MAX" and "ls \<noteq> []"
    and "parse_args ''-'' (''-'' # as) no_opts = op" and "input_file_path op = None" and "output_file_path op = Some f"
  shows "uniq_main files True (text_of ls) (''-'' # as) =
     \<lparr>status = 0, to_stdout = show_group op (last (groups (full_lines ls))),
      to_file = Some (f, concat (map (show_group op) (butlast (groups (full_lines ls)))))\<rparr>"
  using assms(3-6) by (simp add: uniq_main_def uniq_stream_lines [OF assms(1,2)])

lemma uniq_file_misses_last_instance:
  "uniq_main Map.empty True (text_of [''a'', ''b'', ''b'']) [''-'', ''o''] =
     \<lparr>status = 0, to_stdout = ''b'' @ [LF], to_file = Some (''o'', ''a'' @ [LF])\<rparr>"
  using uniq_file_misses_last [of "[''a'', ''b'', ''b'']" "[''o'']" _ "''o''" Map.empty, OF _ _ _ refl]
  by (simp add: plain_lines_def MAX_LEN_def INT_MAX_def no_opts_def show_group_def should_print_def)

text \<open>A dash behind another argument is not recognised: it is taken for an input file, or dropped.\<close>

lemma dash_not_first:
  "parse_args ''in'' [''in'', ''-'', ''out''] no_opts = no_opts\<lparr>input_file_path := Some ''in''\<rparr>"
  by (simp add: no_opts_def)

text \<open>Without options the output has no two equal adjacent lines and the groups hold the whole input.\<close>

lemma groups_adjacent: "distinct_adj (map snd (groups ls))"
proof (induction ls)
  case (Cons l ls)
  have "distinct_adj (map snd gs) \<Longrightarrow> distinct_adj (map snd (cons_group 1 l gs))" for gs
    by (cases "(1 :: nat, l, gs)" rule: cons_group.cases) (auto simp: distinct_adj_Cons)
  with Cons show ?case by (simp only: groups_Cons)
qed simp

end
