(* ===== verification/Cut.thy ===== *)
theory Cut
  imports CLib "HOL-Library.Word"
begin

text \<open>
  The cut tool, \<open>4. cut tool/main.c\<close>: the column list of \<open>-f\<close> as a bit set, and the loop that prints the
  selected fields of each line. Shifts by too much are faults, as in C: \<open>1u << cval\<close> from 32 on,
  \<open>1 << field\<close> from 31 on.

  \<open>fopen\<close> is what opening a file name (or no name, \<open>None\<close>) for reading gives.
\<close>

unbundle bit_operations_syntax

type_synonym u32 = "32 word"

section \<open>Arguments\<close>

record cut_opts =
  delimiter :: char
  col_fetch :: u32
  cval :: int
  filename :: "string option"

definition default_opts :: cut_opts where
  "default_opts = \<lparr>delimiter = TAB, col_fetch = 0, cval = 0, filename = None\<rparr>"

definition set_col :: "int \<Rightarrow> u32 \<Rightarrow> u32 result" where
  "set_col v col = (if 0 \<le> v \<and> v < 32 then Inr (col OR push_bit (nat v) 1) else Inl BadShift)"

text \<open>The bytes behind \<open>-f\<close>: the value read last stays in \<open>cval\<close>.\<close>

fun parse_cols :: "string \<Rightarrow> int \<Rightarrow> u32 \<Rightarrow> (int \<times> u32) result" where
  "parse_cols [] v col = ebind (set_col v col) (\<lambda>col'. Inr (v, col'))"
| "parse_cols (c # cs) v col =
     (if c = SP \<or> c = CHR '','' then ebind (set_col v col) (\<lambda>col'. parse_cols cs 0 col')
      else if \<not> isdigit c then Inl (Exited 1)
      else if v * 10 + digit_val c > INT_MAX then Inl SignedOverflow
      else parse_cols cs (v * 10 + digit_val c) col)"

definition char_at :: "string \<Rightarrow> nat \<Rightarrow> char" where
  "char_at s i = (if i < length s then s ! i else NUL)"

fun cut_args :: "string list \<Rightarrow> cut_opts \<Rightarrow> cut_opts result" where
  "cut_args [] op = Inr op"
| "cut_args (a # as) op =
     (if char_at a 0 = CHR ''-'' \<and> char_at a 1 = CHR ''f'' then
        ebind (parse_cols (drop 2 a) (cval op) (col_fetch op)) (\<lambda>(v, col).
          cut_args as (op\<lparr>cval := v, col_fetch := col\<rparr>))
      else if char_at a 0 = CHR ''-'' \<and> char_at a 1 = CHR ''d'' then
        cut_args as (op\<lparr>delimiter := char_at a 2\<rparr>)
      else cut_args as (op\<lparr>filename := Some a\<rparr>))"

section \<open>The loop over a line\<close>

definition BUFSIZE :: nat where "BUFSIZE = 1000"

text \<open>\<open>col_fetch & (1 << field)\<close>\<close>

definition has_col :: "u32 \<Rightarrow> nat \<Rightarrow> bool result" where
  "has_col col field = (if field < 31 then Inr (bit col field) else Inl BadShift)"

fun cut_chars :: "char \<Rightarrow> u32 \<Rightarrow> string \<Rightarrow> nat \<Rightarrow> bool \<Rightarrow> string result" where
  "cut_chars d col [] field pfch = Inr []"
| "cut_chars d col (c # p) field pfch =
     (if c = LF then cut_chars d col p field pfch
      else
        let field' = (if d = c then field + 1 else field) in
        ebind (if d = c \<and> pfch then has_col col field' else Inr False) (\<lambda>sep.
        ebind (has_col col field') (\<lambda>sel.
        if sel \<and> c \<noteq> d
        then ebind (cut_chars d col p field' True) (\<lambda>out. Inr ((if sep then [d] else []) @ c # out))
        else ebind (cut_chars d col p field' pfch) (\<lambda>out. Inr ((if sep then [d] else []) @ out)))))"

fun cut_lines :: "char \<Rightarrow> u32 \<Rightarrow> mem list \<Rightarrow> string result" where
  "cut_lines d col [] = Inr []"
| "cut_lines d col (buf # bufs) =
     ebind (cut_chars d col (cstr buf) 1 False) (\<lambda>out.
     ebind (cut_lines d col bufs) (\<lambda>outs. Inr (out @ LF # outs)))"

definition cut_main :: "(string option \<Rightarrow> mem option) \<Rightarrow> mem \<Rightarrow> string list \<Rightarrow> string result" where
  "cut_main fopen stdin args =
     ebind (cut_args args default_opts) (\<lambda>op.
       if col_fetch op > 0 then
         (let fp = (case fopen (filename op) of None \<Rightarrow> stdin | Some s \<Rightarrow> s)
          in cut_lines (delimiter op) (col_fetch op) (fgets_all BUFSIZE fp))
       else Inr [])"

section \<open>Fields\<close>

fun split_on :: "char \<Rightarrow> string \<Rightarrow> string list" where
  "split_on d [] = [[]]"
| "split_on d (c # s) =
     (if c = d then [] # split_on d s
      else (case split_on d s of [] \<Rightarrow> [[c]] | f # fs \<Rightarrow> (c # f) # fs))"

definition join :: "char \<Rightarrow> string list \<Rightarrow> string" where
  "join d fs = (case fs of [] \<Rightarrow> [] | f # fs \<Rightarrow> f @ concat (map (\<lambda>g. d # g) fs))"

definition select_from :: "nat \<Rightarrow> (nat \<Rightarrow> bool) \<Rightarrow> string list \<Rightarrow> string list" where
  "select_from n S fs = map snd (filter (\<lambda>(i, f). S i) (enumerate n fs))"

lemma split_on_nonempty [simp]: "split_on d s \<noteq> []"
  by (induction s) (auto split: list.splits)

lemma select_from_simps [simp]:
  "select_from n S [] = []"
  "select_from n S (f # fs) = (if S n then f # select_from (Suc n) S fs else select_from (Suc n) S fs)"
  by (simp_all add: select_from_def)

lemma join_split: "join d (split_on d s) = s"
proof (induction s)
  case (Cons c s)
  then show ?case by (cases "split_on d s") (auto simp: join_def)
qed (simp add: join_def)

text \<open>What is printed from field \<open>n\<close> on; \<open>b\<close>: something has been printed before.\<close>

fun tail_out :: "char \<Rightarrow> (nat \<Rightarrow> bool) \<Rightarrow> nat \<Rightarrow> bool \<Rightarrow> string list \<Rightarrow> string" where
  "tail_out d S n b [] = []"
| "tail_out d S n b (f # fs) =
     (if S n then (if b then [d] else []) @ f else []) @ tail_out d S (Suc n) (b \<or> S n \<and> f \<noteq> []) fs"

lemma tail_out_True: "tail_out d S n True fs = concat (map (\<lambda>f. d # f) (select_from n S fs))"
  by (induction fs arbitrary: n) auto

lemma tail_out_False: "tail_out d S n False fs = join d (dropWhile (\<lambda>f. f = []) (select_from n S fs))"
  by (induction fs arbitrary: n) (auto simp: tail_out_True join_def)

lemma cut_chars_fields:
  assumes "LF \<notin> set s" and "split_on d s = f # fs" and "n + length fs < 31"
  shows "cut_chars d col s n b =
     Inr ((if bit col n then f else []) @ tail_out d (bit col) (Suc n) (b \<or> bit col n \<and> f \<noteq> []) fs)"
  using assms
proof (induction s arbitrary: f fs n b)
  case Nil
  then show ?case by simp
next
  case (Cons c s)
  obtain g gs where s: "split_on d s = g # gs" by (cases "split_on d s") auto
  show ?case
  proof (cases "c = d")
    case True
    then have f: "f = []" "fs = g # gs" using Cons.prems(2) s by auto
    have "cut_chars d col s (n + 1) b = Inr ((if bit col (n + 1) then g else []) @
        tail_out d (bit col) (Suc (n + 1)) (b \<or> bit col (n + 1) \<and> g \<noteq> []) gs)"
      by (rule Cons.IH [OF _ s]) (use Cons.prems f in auto)
    then show ?thesis using True Cons.prems f by (auto simp: has_col_def)
  next
    case False
    then have f: "f = c # g" "fs = gs" using Cons.prems(2) s by auto
    have "cut_chars d col s n b' = Inr ((if bit col n then g else []) @
        tail_out d (bit col) (Suc n) (b' \<or> bit col n \<and> g \<noteq> []) gs)" for b'
      by (rule Cons.IH [OF _ s]) (use Cons.prems f in auto)
    then show ?thesis using False Cons.prems f by (auto simp: has_col_def)
  qed
qed

lemma cut_chars_newline: "cut_chars d col (s @ [LF]) n b = cut_chars d col s n b"
proof (induction s arbitrary: n b)
  case (Cons c s)
  then show ?case by (cases "c = d"; cases b) (auto simp: Let_def has_col_def)
qed simp

lemma cut_chars_line:
  assumes "LF \<notin> set l" and "length (split_on d l) \<le> 30"
  shows "cut_chars d col (l @ [LF]) 1 False =
     Inr (join d (dropWhile (\<lambda>f. f = []) (select_from 1 (bit col) (split_on d l))))"
proof -
  obtain f fs where s: "split_on d l = f # fs" by (cases "split_on d l") auto
  have "cut_chars d col l 1 False = Inr (tail_out d (bit col) 1 False (f # fs))"
    using cut_chars_fields [OF assms(1) s, of 1 col False] assms(2) s by simp
  then show ?thesis using s by (simp only: cut_chars_newline tail_out_False)
qed

lemma cut_lines_text:
  assumes "plain_lines BUFSIZE ls" and "\<forall>l \<in> set ls. length (split_on d l) \<le> 30"
  shows "cut_lines d col (full_lines ls) =
     Inr (concat (map (\<lambda>l. join d (dropWhile (\<lambda>f. f = []) (select_from 1 (bit col) (split_on d l))) @ [LF]) ls))"
  using assms
proof (induction ls)
  case (Cons l ls)
  have "cstr (l @ [LF]) = l @ [LF]" using Cons.prems(1) by (intro cstr_line) (simp add: plain_lines_def)
  moreover have "LF \<notin> set l" using Cons.prems(1) by (simp add: plain_lines_def)
  ultimately show ?case
    using Cons cut_chars_line [of l d col] by (simp add: plain_lines_def)
qed simp

section \<open>The column list\<close>

definition accum :: "int \<Rightarrow> string \<Rightarrow> int" where
  "accum v ds = foldl (\<lambda>a c. 10 * a + digit_val c) v ds"

lemma digit_val_nonneg: "isdigit c \<Longrightarrow> 0 \<le> digit_val c"
  by (simp add: isdigit_def digit_val_def)

lemma accum_ge: "list_all isdigit ds \<Longrightarrow> 0 \<le> v \<Longrightarrow> v \<le> accum v ds"
proof (induction ds arbitrary: v)
  case (Cons c ds)
  have "10 * v + digit_val c \<le> accum (10 * v + digit_val c) ds"
    using Cons digit_val_nonneg [of c] by (intro Cons.IH) auto
  then show ?case using Cons.prems digit_val_nonneg [of c] by (simp add: accum_def)
qed (simp add: accum_def)

lemma parse_cols_digits:
  assumes "list_all isdigit ds" and "0 \<le> v" and "accum v ds \<le> INT_MAX"
  shows "parse_cols (ds @ s) v col = parse_cols s (accum v ds) col"
  using assms
proof (induction ds arbitrary: v)
  case (Cons c ds)
  have c: "isdigit c" "c \<noteq> SP" "c \<noteq> CHR '',''" using Cons.prems(1) by (auto simp: isdigit_def)
  have v: "0 \<le> 10 * v + digit_val c" using Cons.prems digit_val_nonneg [of c] by simp
  have a: "accum v (c # ds) = accum (10 * v + digit_val c) ds" by (simp add: accum_def)
  have "10 * v + digit_val c \<le> INT_MAX"
    using accum_ge [of ds "10 * v + digit_val c"] Cons.prems v a by simp
  then show ?case using Cons c v a by (simp add: mult.commute)
qed (simp add: accum_def)

lemma parse_cols_number:
  assumes "n < 32"
  shows "parse_cols (nat_str n @ s) 0 col = parse_cols s (int n) col"
proof -
  have "accum 0 (nat_str n) = int n" using dec_val_nat_str [of n] by (simp add: accum_def dec_val_def)
  moreover have "list_all isdigit (nat_str n)" using nat_str_digits by (auto simp: list_all_iff)
  ultimately show ?thesis
    using parse_cols_digits [of "nat_str n" 0 s col] assms by (simp add: INT_MAX_def)
qed

lemma set_col_bits: "n < 32 \<Longrightarrow> set_col (int n) col = Inr (col OR push_bit n 1)"
  by (simp add: set_col_def)

definition cols_word :: "nat list \<Rightarrow> u32" where
  "cols_word ns = foldr (\<lambda>n w. w OR push_bit n 1) ns 0"

lemma bit_cols_word: "\<forall>n \<in> set ns. n < 32 \<Longrightarrow> bit (cols_word ns) k \<longleftrightarrow> k \<in> set ns"
  by (induction ns) (auto simp: cols_word_def bit_simps)

lemma parse_cols_list:
  assumes "\<forall>n \<in> set ns. n < 32" and "ns \<noteq> []"
  shows "\<exists>v col'. parse_cols (join (CHR '','') (map nat_str ns)) 0 col = Inr (v, col') \<and>
           (\<forall>k. bit col' k \<longleftrightarrow> bit col k \<or> k \<in> set ns)"
  using assms
proof (induction ns arbitrary: col)
  case (Cons n ns)
  show ?case
  proof (cases ns)
    case Nil
    have "parse_cols (nat_str n) 0 col = Inr (int n, col OR push_bit n 1)"
      using parse_cols_number [of n "[]" col] Cons.prems by (simp add: set_col_bits)
    then show ?thesis using Nil Cons.prems by (auto simp: join_def bit_simps)
  next
    case (Cons m ms)
    have j: "join (CHR '','') (map nat_str (n # ns)) = nat_str n @ CHR '','' # join (CHR '','') (map nat_str ns)"
      using Cons by (simp add: join_def)
    have "parse_cols (nat_str n @ CHR '','' # join (CHR '','') (map nat_str ns)) 0 col =
        parse_cols (join (CHR '','') (map nat_str ns)) 0 (col OR push_bit n 1)"
      using parse_cols_number [of n _ col] Cons.prems by (simp add: set_col_bits)
    moreover obtain v col' where "parse_cols (join (CHR '','') (map nat_str ns)) 0 (col OR push_bit n 1) = Inr (v, col')"
      "\<forall>k. bit col' k \<longleftrightarrow> bit (col OR push_bit n 1) k \<or> k \<in> set ns"
      using Cons.IH Cons.prems Cons by (metis list.distinct(1) list.set_intros(2))
    ultimately show ?thesis using j Cons.prems by (auto simp: bit_simps)
  qed
qed simp

section \<open>Properties\<close>

text \<open>C29: \<open>cut -fLIST -dD FILE\<close> prints, for every line that fits the buffer and has at most 30 fields, the
  selected fields in the order of the line with the delimiter between them; selected fields that are
  empty at the front leave no trace.\<close>

theorem cut_selects_columns:
  assumes "plain_lines BUFSIZE ls" and "\<forall>l \<in> set ls. length (split_on d l) \<le> 30"
    and "ns \<noteq> []" and "\<forall>n \<in> set ns. n < 32"
    and "file \<noteq> [] \<longrightarrow> hd file \<noteq> CHR ''-''" and "fopen (Some file) = Some (text_of ls)"
  shows "cut_main fopen stdin [''-f'' @ join (CHR '','') (map nat_str ns), ''-d'' @ [d], file] =
     Inr (concat (map (\<lambda>l. join d (dropWhile (\<lambda>f. f = [])
       (select_from 1 (\<lambda>i. i \<in> set ns) (split_on d l))) @ [LF]) ls))"
proof -
  obtain v col where col: "parse_cols (join (CHR '','') (map nat_str ns)) 0 0 = Inr (v, col)"
    and b: "\<And>k. bit col k \<longleftrightarrow> k \<in> set ns"
    using parse_cols_list [OF assms(4,3), of 0] by auto
  have "col \<noteq> 0" using b [of "hd ns"] assms(3) by auto
  then have pos: "0 < col" by (simp add: word_neq_0_conv)
  have "cut_args [''-f'' @ join (CHR '','') (map nat_str ns), ''-d'' @ [d], file] default_opts =
      Inr \<lparr>delimiter = d, col_fetch = col, cval = v, filename = Some file\<rparr>"
    using col assms(5) by (cases "file") (auto simp: default_opts_def char_at_def)
  moreover have "bit col = (\<lambda>i. i \<in> set ns)" using b by (simp add: fun_eq_iff)
  ultimately show ?thesis
    using pos assms(6) cut_lines_text [OF assms(1,2), of col]
    by (simp add: cut_main_def fgets_all_text [OF assms(1)] del: cut_args.simps)
qed

theorem cut_selects_columns_witness:
  "cut_main [Some ''f'' \<mapsto> text_of [''a,b,c'', '',x,y'']] [] [''-f'' @ join (CHR '','') (map nat_str [1, 3]), ''-d,'', ''f''] =
     Inr (''a,c'' @ [LF] @ ''y'' @ [LF])"
  using cut_selects_columns [of "[''a,b,c'', '',x,y'']" "CHR '',''" "[1, 3]" "''f''" "[Some ''f'' \<mapsto> text_of [''a,b,c'', '',x,y'']]" "[]"]
  by (simp add: plain_lines_def BUFSIZE_def join_def)

lemma bit_4098: "bit (4098 :: u32) k \<longleftrightarrow> k = 1 \<or> k = 12"
proof -
  have e: "(4098 :: u32) = push_bit 1 1 OR push_bit 12 1" by simp
  show ?thesis unfolding e by (simp only: bit_or_iff bit_push_bit_iff bit_1_iff) auto
qed

lemma two_lists: "cut_args [''-f1'', ''-f2''] default_opts = Inr (default_opts\<lparr>cval := 12, col_fetch := 4098\<rparr>)"
  by (simp add: default_opts_def char_at_def set_col_def isdigit_def digit_val_def INT_MAX_def)

text \<open>\<open>cval\<close> is not reset behind a column list: the digits of a second \<open>-f\<close> option continue the number
  of the first, so that \<open>-f1 -f2\<close> selects the columns 1 and 12.\<close>

lemma second_list_continues:
  "\<exists>op. cut_args [''-f1'', ''-f2''] default_opts = Inr op \<and> (\<forall>k. bit (col_fetch op) k \<longleftrightarrow> k = 1 \<or> k = 12)"
proof -
  let ?op = "default_opts\<lparr>cval := 12, col_fetch := 4098\<rparr>"
  have "col_fetch ?op = 4098" by simp
  then have "\<forall>k. bit (col_fetch ?op) k \<longleftrightarrow> k = 1 \<or> k = 12" using bit_4098 by metis
  with two_lists show ?thesis by blast
qed

text \<open>The fields of a line are not bounded: the shift for the 31st is undefined, whatever is selected.\<close>

lemma field_31_faults:
  "d \<noteq> LF \<Longrightarrow> 0 < k \<Longrightarrow> n + k = 31 \<Longrightarrow> cut_chars d col (replicate k d @ s) n b = Inl BadShift"
proof (induction k arbitrary: n b)
  case (Suc k)
  show ?case
  proof (cases k)
    case 0
    then show ?thesis using Suc.prems by (simp add: has_col_def Let_def)
  next
    case Suc
    then have "n + 1 < 31" "cut_chars d col (replicate k d @ s) (n + 1) b = Inl BadShift"
      using Suc.IH [of "n + 1"] Suc.prems by simp_all
    then show ?thesis using Suc.prems by (simp add: has_col_def Let_def)
  qed
qed simp

end
