(* ===== verification/Grep.thy ===== *)
theory Grep
  imports CLib
begin

text \<open>
  The grep tool, \<open>9. grep/grep.c\<close>: the modes chosen by the first argument (a prefix \<open>^..\<close>, \<open>\d\<close>, \<open>\w\<close>,
  \<open>-v\<close> on the standard input, the empty pattern, a single character) and the recursive listing \<open>-r\<close>.

  \<open>fopen\<close> gives the contents of the files that can be read and \<open>opendir\<close> the entries of the directories
  (name, and whether it is a directory). The recursion into directories has no bound in the code; it
  takes fuel here, and the depth of the tree is enough. Opening a file in a directory is not checked:
  reading from the null stream is a fault.
\<close>

section \<open>The recursive listing\<close>

definition MAX_PATH_LENGTH :: nat where "MAX_PATH_LENGTH = 1000"
definition MAX_LINE_LENGTH :: nat where "MAX_LINE_LENGTH = 1000"

definition is_dots :: "string \<Rightarrow> bool" where
  "is_dots name \<longleftrightarrow> caseeq name ''.'' \<or> caseeq name ''..''"

definition sub_path :: "string \<Rightarrow> string \<Rightarrow> string" where
  "sub_path dir name = snprintf MAX_PATH_LENGTH (dir @ ''/'' @ name)"

definition file_lines :: "string \<Rightarrow> string \<Rightarrow> mem \<Rightarrow> string" where
  "file_lines path pattern s =
     concat (map (\<lambda>buf. path @ '':'' @ buf)
       (filter (\<lambda>buf. strstr buf pattern \<noteq> None) (map cstr (fgets_all MAX_LINE_LENGTH s))))"

type_synonym opendir = "string \<Rightarrow> (string \<times> bool) list option"
type_synonym fopen = "string \<Rightarrow> mem option"

text \<open>The loop over the entries; \<open>rec\<close> is the recursive call. \<open>None\<close>: it has not returned.\<close>

fun list_entries :: "(string \<Rightarrow> (string \<times> int) result option) \<Rightarrow> fopen \<Rightarrow> string \<Rightarrow> string \<Rightarrow> (string \<times> bool) list \<Rightarrow> string result option" where
  "list_entries rec fopen pattern dir [] = Some (Inr [])"
| "list_entries rec fopen pattern dir ((name, is_dir) # es) =
     (if is_dots name then list_entries rec fopen pattern dir es
      else
        let path = sub_path dir name in
        case (if is_dir then map_option (\<lambda>r. ebind r (\<lambda>(out, _). Inr out)) (rec path)
              else (case fopen path of
                      None \<Rightarrow> Some (Inl NullDeref)
                    | Some s \<Rightarrow> Some (Inr (file_lines path pattern s)))) of
          None \<Rightarrow> None
        | Some (Inl e) \<Rightarrow> Some (Inl e)
        | Some (Inr out) \<Rightarrow>
            map_option (\<lambda>r. ebind r (\<lambda>outs. Inr (out @ outs))) (list_entries rec fopen pattern dir es))"

fun list_lines_recursively :: "nat \<Rightarrow> opendir \<Rightarrow> fopen \<Rightarrow> string \<Rightarrow> string \<Rightarrow> (string \<times> int) result option" where
  "list_lines_recursively 0 opendir fopen dir_path pattern = None"
| "list_lines_recursively (Suc fuel) opendir fopen dir_path pattern =
     (case opendir dir_path of
        None \<Rightarrow> Some (Inr ([], 1))
      | Some es \<Rightarrow>
          map_option (\<lambda>r. ebind r (\<lambda>out. Inr (out, 0)))
            (list_entries (\<lambda>path. list_lines_recursively fuel opendir fopen path pattern) fopen pattern dir_path es))"

text \<open>The variant with an \<open>exclude\<close> argument does not use it.\<close>

definition list_lines_recursively_with_exclude :: "nat \<Rightarrow> opendir \<Rightarrow> fopen \<Rightarrow> string \<Rightarrow> string \<Rightarrow> string \<Rightarrow> (string \<times> int) result option" where
  "list_lines_recursively_with_exclude fuel opendir fopen dir_path pattern exclude =
     list_lines_recursively fuel opendir fopen dir_path pattern"

section \<open>The line modes\<close>

datatype line_type = ALL_LINES | SINGLE_CHARACTER

datatype line_action = Print | Quiet | Stop

text \<open>What one round of the loop does with a line, and whether it counts single-character matches.\<close>

definition grep_line :: "string \<Rightarrow> string \<Rightarrow> string \<Rightarrow> line_action" where
  "grep_line opt arg2 buf =
     (if opt \<noteq> [] \<and> hd opt = CHR ''^'' then (if prefix (tl opt) buf then Print else Quiet)
      else if opt = [CHR 0x5C, CHR ''d''] then (if list_ex isdigit buf then Print else Quiet)
      else if opt = [CHR 0x5C, CHR ''w''] then
        (if list_all (\<lambda>c. c = LF \<or> c = SP \<or> c = TAB \<or> isalpha c) buf then Print else Quiet)
      else if opt = ''-v'' then (if strstr buf arg2 = None then Print else Quiet)
      else if opt = [] then Print
      else if length opt = 1 then (if hd opt \<in> set buf then Print else Quiet)
      else Stop)"

definition single_mode :: "string \<Rightarrow> bool" where
  "single_mode opt \<longleftrightarrow> length opt = 1 \<and> hd opt \<noteq> CHR ''^''"

fun grep_loop :: "string \<Rightarrow> string \<Rightarrow> string list \<Rightarrow> line_type \<Rightarrow> nat \<Rightarrow> string \<times> int" where
  "grep_loop opt arg2 [] ty matched = ([], if ty = SINGLE_CHARACTER then (if matched \<noteq> 0 then 0 else 1) else 0)"
| "grep_loop opt arg2 (buf # bufs) ty matched =
     (let ty' = (if single_mode opt then SINGLE_CHARACTER else ty) in
      case grep_line opt arg2 buf of
        Print \<Rightarrow> (let (out, st) = grep_loop opt arg2 bufs ty' (if single_mode opt then matched + 1 else matched)
                  in (buf @ out, st))
      | Quiet \<Rightarrow> grep_loop opt arg2 bufs ty' matched
      | Stop \<Rightarrow> (''undefine behavior'', 1))"

definition grep_main :: "nat \<Rightarrow> opendir \<Rightarrow> fopen \<Rightarrow> mem \<Rightarrow> string list \<Rightarrow> (string \<times> int) result option" where
  "grep_main fuel opendir fopen stdin args =
     (case args of
        opt # arg2 # more \<Rightarrow>
          if caseeq opt ''-r'' then
            (case more of
               [] \<Rightarrow> Some (Inl NullDeref)
             | dir # _ \<Rightarrow>
                 map_option (\<lambda>r. ebind r (\<lambda>(out, _). Inr (out, 0)))
                   (list_lines_recursively fuel opendir fopen dir arg2))
          else
            (case (if caseeq opt ''-v'' then Some stdin else fopen arg2) of
               None \<Rightarrow> Some (Inl (Exited 1))
             | Some s \<Rightarrow> Some (Inr (grep_loop opt arg2 (map cstr (fgets_all MAX_LINE_LENGTH s)) ALL_LINES 0)))
      | _ \<Rightarrow> Some (Inl (Exited 1)))"

section \<open>A directory tree\<close>

datatype tree = File string mem | Dir string "tree list"

fun entry_of :: "tree \<Rightarrow> string \<times> bool" where
  "entry_of (File n s) = (n, False)"
| "entry_of (Dir n ts) = (n, True)"

fun depth :: "tree \<Rightarrow> nat" where
  "depth (File n s) = 0"
| "depth (Dir n ts) = Suc (Max (insert 0 (set (map depth ts))))"

text \<open>The calls \<open>opendir\<close> and \<open>fopen\<close> show the tree under the path \<open>dir\<close>.\<close>

fun shows_tree :: "opendir \<Rightarrow> fopen \<Rightarrow> string \<Rightarrow> tree \<Rightarrow> bool" where
  "shows_tree opendir fopen dir (File n s) \<longleftrightarrow>
     \<not> is_dots n \<and> length (dir @ ''/'' @ n) < MAX_PATH_LENGTH \<and> fopen (dir @ ''/'' @ n) = Some s"
| "shows_tree opendir fopen dir (Dir n ts) \<longleftrightarrow>
     \<not> is_dots n \<and> length (dir @ ''/'' @ n) < MAX_PATH_LENGTH \<and>
     opendir (dir @ ''/'' @ n) = Some (map entry_of ts) \<and>
     (\<forall>t \<in> set ts. shows_tree opendir fopen (dir @ ''/'' @ n) t)"

text \<open>The matching lines of a tree, in the order of its entries.\<close>

fun tree_matches :: "string \<Rightarrow> string \<Rightarrow> tree \<Rightarrow> string" where
  "tree_matches pattern dir (File n s) = file_lines (dir @ ''/'' @ n) pattern s"
| "tree_matches pattern dir (Dir n ts) = concat (map (tree_matches pattern (dir @ ''/'' @ n)) ts)"

lemma sub_path_short: "length (dir @ ''/'' @ n) < MAX_PATH_LENGTH \<Longrightarrow> sub_path dir n = dir @ ''/'' @ n"
  by (simp add: sub_path_def snprintf_def MAX_PATH_LENGTH_def)

lemma depth_child: "t \<in> set ts \<Longrightarrow> depth t < depth (Dir n ts)"
  by (auto simp: less_Suc_eq_le intro: Max_ge)

lemma list_lines_tree:
  assumes "opendir dir = Some (map entry_of ts)" and "\<forall>t \<in> set ts. shows_tree opendir fopen dir t"
    and "\<forall>t \<in> set ts. depth t < fuel" and "0 < fuel"
  shows "list_lines_recursively fuel opendir fopen dir pattern =
     Some (Inr (concat (map (tree_matches pattern dir) ts), 0))"
  using assms
proof (induction fuel arbitrary: dir ts)
  case (Suc fuel)
  let ?rec = "\<lambda>path. list_lines_recursively fuel opendir fopen path pattern"
  have "list_entries ?rec fopen pattern dir (map entry_of us) = Some (Inr (concat (map (tree_matches pattern dir) us)))"
    if "set us \<subseteq> set ts" for us
    using that
  proof (induction us)
    case (Cons u us)
    then have u: "shows_tree opendir fopen dir u" "depth u < Suc fuel"
      and us: "list_entries ?rec fopen pattern dir (map entry_of us) = Some (Inr (concat (map (tree_matches pattern dir) us)))"
      using Suc.prems(2,3) by auto
    show ?case
    proof (cases u)
      case (File n s)
      then show ?thesis using u us by (simp add: sub_path_short Let_def)
    next
      case (Dir n vs)
      have "depth u \<le> fuel" using u(2) by simp
      then have "\<forall>t \<in> set vs. depth t < fuel" and "0 < fuel"
        using depth_child [of _ vs n] unfolding Dir by (blast intro: less_le_trans, simp)
      note d = this
      have "list_lines_recursively fuel opendir fopen (dir @ ''/'' @ n) pattern =
          Some (Inr (concat (map (tree_matches pattern (dir @ ''/'' @ n)) vs), 0))"
        by (rule Suc.IH [OF _ _ d]) (use u Dir in simp_all)
      then show ?thesis using u us Dir by (simp add: sub_path_short Let_def)
    qed
  qed simp
  then show ?case using Suc.prems(1) by simp
qed simp

section \<open>Properties\<close>



lemma grep_loop_filter:
  assumes "\<And>buf. grep_line opt arg2 buf \<noteq> Stop"
  shows "fst (grep_loop opt arg2 bufs ty n) = concat (filter (\<lambda>buf. grep_line opt arg2 buf = Print) bufs)"
  using assms
  by (induction bufs arbitrary: ty n) (auto simp: Let_def split_beta split: line_action.splits)

lemma grep_loop_status:
  assumes "single_mode opt" and "\<And>buf. grep_line opt arg2 buf = (if P buf then Print else Quiet)"
  shows "snd (grep_loop opt arg2 bufs SINGLE_CHARACTER n) = (if n \<noteq> 0 \<or> (\<exists>buf \<in> set bufs. P buf) then 0 else 1)"
  using assms by (induction bufs arbitrary: n) (auto simp: Let_def split_beta)

text \<open>With a single character as the pattern the lines that contain it are printed, and the exit
  status tells whether there was one.\<close>

lemma grep_character:
  assumes "c \<noteq> CHR ''^''" and "plain_lines MAX_LINE_LENGTH ls" and "fopen f = Some (text_of ls)" and "ls \<noteq> []"
  shows "grep_main fuel opendir fopen stdin [[c], f] =
     Some (Inr (concat (filter (\<lambda>l. c \<in> set l) (full_lines ls)), if \<exists>l \<in> set (full_lines ls). c \<in> set l then 0 else 1))"
proof -
  have s: "single_mode [c]" using assms(1) by (simp add: single_mode_def)
  have l: "grep_line [c] f buf = (if c \<in> set buf then Print else Quiet)" for buf
    using assms(1) by (simp add: grep_line_def)
  have o: "\<not> caseeq [c] ''-r''" "\<not> caseeq [c] ''-v''" by (simp_all add: caseeq_def)
  have ty: "grep_loop [c] f bufs ALL_LINES 0 = grep_loop [c] f bufs SINGLE_CHARACTER 0" if "bufs \<noteq> []" for bufs
    using that s by (cases bufs) simp_all
  have "grep_loop [c] f (full_lines ls) ALL_LINES 0 =
      (concat (filter (\<lambda>l. c \<in> set l) (full_lines ls)), if \<exists>l \<in> set (full_lines ls). c \<in> set l then 0 else 1)"
    using grep_loop_filter [of "[c]" f "full_lines ls" SINGLE_CHARACTER 0] grep_loop_status [OF s l, of "full_lines ls" 0]
      ty [of "full_lines ls"] l assms(4)
    by (simp add: prod_eq_iff)
  then show ?thesis
    using o assms(3) by (simp add: grep_main_def fgets_all_text [OF assms(2)] cstr_lines [OF assms(2)])
qed

lemma grep_character_instance:
  "grep_main 0 Map.empty [''f'' \<mapsto> text_of [''Jo'', ''mo'']] [] [''J'', ''f''] = Some (Inr (''Jo'' @ [LF], 0))"
  using grep_character [of "CHR ''J''" "[''Jo'', ''mo'']" "[''f'' \<mapsto> text_of [''Jo'', ''mo'']]" "''f''" 0 Map.empty "[]"]
  by (simp add: plain_lines_def MAX_LINE_LENGTH_def)

text \<open>
  A pattern of several characters that is none of the modes is not searched for: the program stops at
  the first line. An unreadable file under a directory is a fault.
\<close>

lemma grep_word_undefined:
  assumes "2 \<le> length opt" and "hd opt \<noteq> CHR ''^''" and "opt \<notin> {[CHR 0x5C, CHR ''d''], [CHR 0x5C, CHR ''w''], ''-v''}"
  shows "grep_loop opt arg2 (buf # bufs) ty n = (''undefine behavior'', 1)"
proof -
  have "opt \<noteq> []" using assms(1) by auto
  then have "grep_line opt arg2 buf = Stop" using assms by (auto simp: grep_line_def)
  then show ?thesis by simp
qed

lemma unreadable_file_faults:
  "\<not> is_dots n \<Longrightarrow> fopen (sub_path dir n) = None \<Longrightarrow> list_entries rec fopen pattern dir ((n, False) # es) = Some (Inl NullDeref)"
  by simp

end
