(* ===== verification/Grep_Streams.thy ===== *)
theory Grep_Streams
  imports Grep
begin

text \<open>
  The descriptors of the recursive listing of \<open>grep\<close>: a directory is closed when its entries have been read, a
  file that was searched never is. The functions are those of \<open>Grep\<close> with the number of descriptors in use
  and their limit: without a free one \<open>opendir\<close> fails, which ends the call silently, and \<open>fopen\<close> gives the
  null stream, which is read from.
\<close>

fun list_entries_fd ::
  "(string \<Rightarrow> nat \<Rightarrow> ((string \<times> int) \<times> nat) result option) \<Rightarrow> nat \<Rightarrow> fopen \<Rightarrow> string \<Rightarrow> string \<Rightarrow> (string \<times> bool) list \<Rightarrow> nat \<Rightarrow>
     (string \<times> nat) result option" where
  "list_entries_fd rec lim fopen pattern dir [] used = Some (Inr ([], used))"
| "list_entries_fd rec lim fopen pattern dir ((name, is_dir) # es) used =
     (if is_dots name then list_entries_fd rec lim fopen pattern dir es used
      else
        let path = sub_path dir name in
        case (if is_dir then map_option (\<lambda>r. ebind r (\<lambda>((out, _), used'). Inr (out, used'))) (rec path used)
              else (case (if used < lim then fopen path else None) of
                      None \<Rightarrow> Some (Inl NullDeref)
                    | Some s \<Rightarrow> Some (Inr (file_lines path pattern s, used + 1)))) of
          None \<Rightarrow> None
        | Some (Inl e) \<Rightarrow> Some (Inl e)
        | Some (Inr (out, used')) \<Rightarrow>
            map_option (\<lambda>r. ebind r (\<lambda>(outs, used''). Inr (out @ outs, used'')))
              (list_entries_fd rec lim fopen pattern dir es used'))"

fun list_lines_fd :: "nat \<Rightarrow> nat \<Rightarrow> opendir \<Rightarrow> fopen \<Rightarrow> string \<Rightarrow> string \<Rightarrow> nat \<Rightarrow> ((string \<times> int) \<times> nat) result option" where
  "list_lines_fd 0 lim opendir fopen dir_path pattern used = None"
| "list_lines_fd (Suc fuel) lim opendir fopen dir_path pattern used =
     (case (if used < lim then opendir dir_path else None) of
        None \<Rightarrow> Some (Inr (([], 1), used))
      | Some es \<Rightarrow>
          map_option (\<lambda>r. ebind r (\<lambda>(out, used'). Inr ((out, 0), used' - 1)))
            (list_entries_fd (\<lambda>path. list_lines_fd fuel lim opendir fopen path pattern) lim fopen pattern dir_path es (used + 1)))"

text \<open>The files a listing searches, and so the descriptors it loses.\<close>

fun files_seen :: "nat \<Rightarrow> opendir \<Rightarrow> string \<Rightarrow> nat" where
  "files_seen 0 opendir dir = 0"
| "files_seen (Suc fuel) opendir dir =
     (case opendir dir of
        None \<Rightarrow> 0
      | Some es \<Rightarrow>
          sum_list (map (\<lambda>(name, is_dir).
            if is_dots name then 0 else if is_dir then files_seen fuel opendir (sub_path dir name) else 1) es))"

text \<open>Where the descriptors suffice for all files and for the directories that are open at a time, the listing is that
  of \<open>Grep\<close>.\<close>

lemma list_lines_fd_agrees:
  assumes "list_lines_recursively fuel opendir fopen dir pattern = Some (Inr (out, st))"
    and "used + files_seen fuel opendir dir + fuel \<le> lim"
  shows "list_lines_fd fuel lim opendir fopen dir pattern used = Some (Inr ((out, st), used + files_seen fuel opendir dir))"
  using assms
proof (induction fuel arbitrary: dir out st used)
  case 0
  then show ?case by simp
next
  case (Suc fuel)
  show ?case
  proof (cases "opendir dir")
    case None
    with Suc.prems show ?thesis by simp
  next
    case (Some es)
    let ?seen = "\<lambda>(name, is_dir). if is_dots name then 0 else if is_dir then files_seen fuel opendir (sub_path dir name) else 1"
    let ?rec = "\<lambda>path. list_lines_recursively fuel opendir fopen path pattern"
    let ?fd = "\<lambda>path. list_lines_fd fuel lim opendir fopen path pattern"
    have entries: "list_entries_fd ?fd lim fopen pattern dir es u = Some (Inr (o', u + sum_list (map ?seen es)))"
      if "list_entries ?rec fopen pattern dir es = Some (Inr o')" "u + sum_list (map ?seen es) + fuel \<le> lim" for u o'
      using that
    proof (induction es arbitrary: u o')
      case Nil
      then show ?case by simp
    next
      case (Cons e es)
      obtain name is_dir where e: "e = (name, is_dir)" by (cases e)
      let ?path = "sub_path dir name"
      show ?case
      proof (cases "is_dots name")
        case True
        with Cons e show ?thesis by simp
      next
        case False
        note f = False
        show ?thesis
        proof (cases is_dir)
          case True
          with Cons.prems(1) f e obtain o1 st1 o2 where
            r: "?rec ?path = Some (Inr (o1, st1))" "list_entries ?rec fopen pattern dir es = Some (Inr o2)" "o' = o1 @ o2"
            by (auto simp: Let_def result_inv split: option.splits sum.splits)
          have "?fd ?path u = Some (Inr ((o1, st1), u + files_seen fuel opendir ?path))"
            by (rule Suc.IH [OF r(1)]) (use Cons.prems(2) e f True in simp)
          moreover have "list_entries_fd ?fd lim fopen pattern dir es (u + files_seen fuel opendir ?path) =
              Some (Inr (o2, u + files_seen fuel opendir ?path + sum_list (map ?seen es)))"
            by (rule Cons.IH [OF r(2)]) (use Cons.prems(2) e f True in simp)
          ultimately show ?thesis using e f True r(3) by (simp add: Let_def)
        next
          case False
          with Cons.prems(1) f e obtain s o2 where
            r: "fopen ?path = Some s" "list_entries ?rec fopen pattern dir es = Some (Inr o2)" "o' = file_lines ?path pattern s @ o2"
            by (auto simp: Let_def result_inv split: option.splits sum.splits)
          have "list_entries_fd ?fd lim fopen pattern dir es (u + 1) = Some (Inr (o2, u + 1 + sum_list (map ?seen es)))"
            by (rule Cons.IH [OF r(2)]) (use Cons.prems(2) e f False in simp)
          then show ?thesis using e f False r Cons.prems(2) by (simp add: Let_def)
        qed
      qed
    qed
    obtain o' where o': "list_entries ?rec fopen pattern dir es = Some (Inr o')" "out = o'" "st = 0"
      using Suc.prems(1) Some by (auto simp: result_inv)
    have "list_entries_fd ?fd lim fopen pattern dir es (used + 1) = Some (Inr (o', used + 1 + sum_list (map ?seen es)))"
      by (rule entries [OF o'(1)]) (use Suc.prems(2) Some in simp)
    then show ?thesis using Some o' Suc.prems(2) by simp
  qed
qed

text \<open>A directory with nothing but \<open>n\<close> files: all its matching lines are listed when there are \<open>n + 1\<close> free
  descriptors, and \<open>n\<close> of them are gone afterwards; with fewer the program reads from the null stream.\<close>

definition plain_files :: "fopen \<Rightarrow> string \<Rightarrow> (string \<times> bool) list \<Rightarrow> bool" where
  "plain_files fopen dir es \<longleftrightarrow> (\<forall>(n, d) \<in> set es. \<not> is_dots n \<and> \<not> d \<and> fopen (sub_path dir n) \<noteq> None)"

definition all_lines :: "fopen \<Rightarrow> string \<Rightarrow> string \<Rightarrow> (string \<times> bool) list \<Rightarrow> string" where
  "all_lines fopen pattern dir es =
     concat (map (\<lambda>(n, d). file_lines (sub_path dir n) pattern (the (fopen (sub_path dir n)))) es)"

lemma plain_entries_fd:
  "plain_files fopen dir es \<Longrightarrow> used \<le> lim \<Longrightarrow>
     list_entries_fd rec lim fopen pattern dir es used =
       Some (if used + length es \<le> lim then Inr (all_lines fopen pattern dir es, used + length es) else Inl NullDeref)"
proof (induction es arbitrary: used)
  case (Cons e es)
  obtain n d where e: "e = (n, d)" by (cases e)
  with Cons.prems obtain s where s: "\<not> is_dots n" "\<not> d" "fopen (sub_path dir n) = Some s"
    by (auto simp: plain_files_def)
  show ?case
  proof (cases "used < lim")
    case True
    with Cons.prems s e show ?thesis
      using Cons.IH [of "used + 1"] by (auto simp: plain_files_def all_lines_def)
  next
    case False
    with Cons.prems s e show ?thesis by simp
  qed
qed (simp add: all_lines_def)

lemma plain_entries:
  "plain_files fopen dir es \<Longrightarrow> list_entries rec fopen pattern dir es = Some (Inr (all_lines fopen pattern dir es))"
  by (induction es) (fastforce simp: plain_files_def all_lines_def)+

lemma grep_directory_streams:
  assumes "opendir dir = Some es" and "plain_files fopen dir es" and "used < lim" and "0 < fuel"
  shows "list_lines_fd fuel lim opendir fopen dir pattern used =
    (if used + length es < lim
     then Some (Inr ((all_lines fopen pattern dir es, 0), used + length es))
     else Some (Inl NullDeref))"
    and "list_lines_recursively fuel opendir fopen dir pattern = Some (Inr (all_lines fopen pattern dir es, 0))"
  using assms by (cases fuel; simp add: plain_entries_fd plain_entries)+

end
