(* ===== verification/Threads.thy ===== *)
theory Threads
  imports Prelude Step_System "HOL-Library.Word"
begin

text \<open>
  The thread programs of \<open>theories/c/thread_mutexes_concurrent\<close>: the counter under a mutex (\<open>mutex.c\<close>),
  the counter without one (\<open>threads_shared_memory.c\<close>) and the two threads that take two locks in opposite
  orders (\<open>deadlock.c\<close>); and the two pointer updates of the Redis store that can run at the same time.

  A thread is the list of its remaining instructions and a register. \<open>count++\<close> is a load and a store,
  which may be separated by steps of other threads; a thread that wants a lock another one owns
  cannot move. Every interleaving is a run of \<open>tstep\<close>; \<open>run\<close> executes one given schedule. Reading the
  counter for a message is a load. \<open>unsigned int\<close> wraps at 32 bits.
\<close>

type_synonym u32 = "32 word"

section \<open>Threads, locks and a counter\<close>

datatype instr = Lock nat | Unlock nat | Load | StoreInc

record thread =
  code :: "instr list"
  reg :: u32

record machine =
  owner :: "nat \<Rightarrow> nat option"
  count :: u32
  threads :: "thread list"

definition set_thread :: "nat \<Rightarrow> thread \<Rightarrow> machine \<Rightarrow> machine" where
  "set_thread i t s = s\<lparr>threads := (threads s)[i := t]\<rparr>"

text \<open>One step of thread \<open>i\<close>, if it can move.\<close>

definition step_thread :: "nat \<Rightarrow> machine \<Rightarrow> machine option" where
  "step_thread i s =
     (if i < length (threads s) then
        let t = threads s ! i in
        case code t of
          [] \<Rightarrow> None
        | Lock l # cs \<Rightarrow>
            if owner s l = None then Some (set_thread i (t\<lparr>code := cs\<rparr>) (s\<lparr>owner := (owner s)(l \<mapsto> i)\<rparr>)) else None
        | Unlock l # cs \<Rightarrow>
            Some (set_thread i (t\<lparr>code := cs\<rparr>) (s\<lparr>owner := (owner s)(l := None)\<rparr>))
        | Load # cs \<Rightarrow> Some (set_thread i (t\<lparr>code := cs, reg := count s\<rparr>) s)
        | StoreInc # cs \<Rightarrow> Some (set_thread i (t\<lparr>code := cs\<rparr>) (s\<lparr>count := reg t + 1\<rparr>))
      else None)"

inductive tstep :: "machine \<Rightarrow> machine \<Rightarrow> bool" where
  Move: "step_thread i s = Some s' \<Longrightarrow> tstep s s'"

inductive_cases tstepE: "tstep s s'"

abbreviation reaches :: "machine \<Rightarrow> machine \<Rightarrow> bool" where
  "reaches \<equiv> steps tstep"

fun run :: "nat list \<Rightarrow> machine \<Rightarrow> machine option" where
  "run [] s = Some s"
| "run (i # is) s = (case step_thread i s of None \<Rightarrow> None | Some s' \<Rightarrow> run is s')"

definition finished :: "machine \<Rightarrow> bool" where
  "finished s \<longleftrightarrow> (\<forall>t \<in> set (threads s). code t = [])"

definition stuck :: "machine \<Rightarrow> bool" where
  "stuck s \<longleftrightarrow> \<not> finished s \<and> (\<forall>i. step_thread i s = None)"

definition start :: "instr list list \<Rightarrow> machine" where
  "start progs = \<lparr>owner = Map.empty, count = 0, threads = map (\<lambda>p. \<lparr>code = p, reg = 0\<rparr>) progs\<rparr>"

section \<open>The programs\<close>

definition mutex_routine :: "nat \<Rightarrow> instr list" where
  "mutex_routine n =
     [Lock 0, Load, Unlock 0] @ concat (replicate n [Lock 0, Load, StoreInc, Unlock 0]) @ [Lock 0, Load, Unlock 0]"

definition shared_routine :: "nat \<Rightarrow> instr list" where
  "shared_routine n = [Load] @ concat (replicate n [Load, StoreInc]) @ [Load]"

definition thread_1_routine :: "instr list" where
  "thread_1_routine = [Lock 1, Lock 2, Load, StoreInc, Unlock 2, Unlock 1]"

definition thread_2_routine :: "instr list" where
  "thread_2_routine = [Lock 2, Lock 1, Load, StoreInc, Unlock 1, Unlock 2]"

section \<open>Counting under one lock\<close>

text \<open>
  Where a thread stands: outside the critical section, inside, or inside with the counter loaded; and
  the code that respects the lock from there.
\<close>

datatype phase = Out | In | Loaded

fun locked_code :: "phase \<Rightarrow> instr list \<Rightarrow> bool" where
  "locked_code Out [] = True"
| "locked_code Out (Lock l # cs) = (l = 0 \<and> locked_code In cs)"
| "locked_code In (Load # cs) = locked_code Loaded cs"
| "locked_code In (Unlock l # cs) = (l = 0 \<and> locked_code Out cs)"
| "locked_code Loaded (Load # cs) = locked_code Loaded cs"
| "locked_code Loaded (StoreInc # cs) = locked_code In cs"
| "locked_code Loaded (Unlock l # cs) = (l = 0 \<and> locked_code Out cs)"
| "locked_code _ _ = False"

definition incs :: "instr list \<Rightarrow> nat" where
  "incs cs = length (filter (\<lambda>c. c = StoreInc) cs)"

definition left :: "machine \<Rightarrow> nat" where
  "left s = sum_list (map (\<lambda>t. incs (code t)) (threads s))"

definition inv_with :: "nat \<Rightarrow> (nat \<Rightarrow> phase) \<Rightarrow> machine \<Rightarrow> bool" where
  "inv_with tot ph s \<longleftrightarrow>
     (\<forall>i < length (threads s). locked_code (ph i) (code (threads s ! i)) \<and>
        (ph i \<noteq> Out \<longleftrightarrow> owner s 0 = Some i) \<and> (ph i = Loaded \<longrightarrow> reg (threads s ! i) = count s)) \<and>
     (\<forall>i. owner s 0 = Some i \<longrightarrow> i < length (threads s)) \<and>
     count s + of_nat (left s) = of_nat tot"

lemma incs_simps [simp]:
  "incs [] = 0" "incs (StoreInc # cs) = Suc (incs cs)" "incs (Load # cs) = incs cs"
  "incs (Lock l # cs) = incs cs" "incs (Unlock l # cs) = incs cs" "incs (cs @ ds) = incs cs + incs ds"
  by (simp_all add: incs_def)

lemma sum_list_update:
  fixes xs :: "nat list"
  shows "i < length xs \<Longrightarrow> sum_list (xs[i := x]) + xs ! i = sum_list xs + x"
  by (induction xs arbitrary: i) (auto split: nat.splits)

lemma left_set_thread:
  assumes "i < length (threads s)"
  shows "left (set_thread i t s) + incs (code (threads s ! i)) = left s + incs (code t)"
  using assms sum_list_update [of i "map (\<lambda>t. incs (code t)) (threads s)" "incs (code t)"]
  by (simp add: left_def set_thread_def map_update)

lemma left_cong [simp]:
  "left (s\<lparr>owner := o'\<rparr>) = left s" "left (s\<lparr>count := c\<rparr>) = left s"
  by (simp_all add: left_def)

lemma set_thread_simps [simp]:
  "owner (set_thread i t s) = owner s" "count (set_thread i t s) = count s"
  "length (threads (set_thread i t s)) = length (threads s)"
  "i < length (threads s) \<Longrightarrow> j < length (threads s) \<Longrightarrow>
     threads (set_thread i t s) ! j = (if j = i then t else threads s ! j)"
  by (simp_all add: set_thread_def)

lemma locked_code_cases:
  "locked_code p (Lock l # cs) \<longleftrightarrow> p = Out \<and> l = 0 \<and> locked_code In cs"
  "locked_code p (Unlock l # cs) \<longleftrightarrow> p \<noteq> Out \<and> l = 0 \<and> locked_code Out cs"
  "locked_code p (Load # cs) \<longleftrightarrow> p \<noteq> Out \<and> locked_code Loaded cs"
  "locked_code p (StoreInc # cs) \<longleftrightarrow> p = Loaded \<and> locked_code In cs"
  "locked_code p [] \<longleftrightarrow> p = Out"
  by (cases p; simp)+

lemma inv_with_step:
  assumes inv: "inv_with tot ph s" and st: "step_thread i s = Some s'"
  shows "\<exists>ph'. inv_with tot ph' s'"
proof -
  let ?t = "threads s ! i"
  have i: "i < length (threads s)" using st by (simp add: step_thread_def split: if_splits)
  have ph: "\<And>j. j < length (threads s) \<Longrightarrow> locked_code (ph j) (code (threads s ! j)) \<and>
      (ph j \<noteq> Out \<longleftrightarrow> owner s 0 = Some j) \<and> (ph j = Loaded \<longrightarrow> reg (threads s ! j) = count s)"
    and ow: "\<And>j. owner s 0 = Some j \<Longrightarrow> j < length (threads s)"
    and cnt: "count s + of_nat (left s) = of_nat tot"
    using inv by (auto simp: inv_with_def)
  obtain c cs where code: "code ?t = c # cs"
    using st i by (cases "code ?t") (auto simp: step_thread_def)
  have lc: "locked_code (ph i) (c # cs)" using ph [OF i] code by simp
  show ?thesis
  proof (cases c)
    case (Lock l)
    then have l: "l = 0" "ph i = Out" "locked_code In cs" using lc by (simp_all add: locked_code_cases)
    have o: "owner s 0 = None" and s': "s' = set_thread i (?t\<lparr>code := cs\<rparr>) (s\<lparr>owner := (owner s)(0 \<mapsto> i)\<rparr>)"
      using st i code Lock l by (auto simp: step_thread_def split: if_splits)
    have "left s' = left s"
      using left_set_thread [of i "s\<lparr>owner := (owner s)(0 \<mapsto> i)\<rparr>" "?t\<lparr>code := cs\<rparr>"] i code Lock s' by simp
    moreover have "ph j = Out \<and> locked_code Out (code (threads s ! j))" if "j < length (threads s)" for j
      using ph [OF that] o by auto
    ultimately have "inv_with tot (ph(i := In)) s'"
      using cnt o l i by (auto simp: inv_with_def s')
    then show ?thesis by (rule exI [of _ "ph(i := In)"])
  next
    case (Unlock l)
    then have l: "l = 0" "ph i \<noteq> Out" "locked_code Out cs" using lc by (simp_all add: locked_code_cases)
    have s': "s' = set_thread i (?t\<lparr>code := cs\<rparr>) (s\<lparr>owner := (owner s)(0 := None)\<rparr>)"
      using st i code Unlock l by (auto simp: step_thread_def)
    have o: "owner s 0 = Some i" using ph [OF i] l by simp
    have "left s' = left s"
      using left_set_thread [of i "s\<lparr>owner := (owner s)(0 := None)\<rparr>" "?t\<lparr>code := cs\<rparr>"] i code Unlock s' by simp
    then have "inv_with tot (ph(i := Out)) s'"
      using ph cnt o l i by (auto simp: inv_with_def s')
    then show ?thesis by (rule exI [of _ "ph(i := Out)"])
  next
    case Load
    then have l: "ph i \<noteq> Out" "locked_code Loaded cs" using lc by (simp_all add: locked_code_cases)
    have s': "s' = set_thread i (?t\<lparr>code := cs, reg := count s\<rparr>) s"
      using st i code Load by (auto simp: step_thread_def)
    have "left s' = left s"
      using left_set_thread [of i s "?t\<lparr>code := cs, reg := count s\<rparr>"] i code Load s' by simp
    then have "inv_with tot (ph(i := Loaded)) s'"
      using ph ow cnt l i by (auto simp: inv_with_def s')
    then show ?thesis by (rule exI [of _ "ph(i := Loaded)"])
  next
    case StoreInc
    then have l: "ph i = Loaded" "locked_code In cs" using lc by (simp_all add: locked_code_cases)
    have r: "reg ?t = count s" and o: "owner s 0 = Some i" using ph [OF i] l by simp_all
    have s': "s' = set_thread i (?t\<lparr>code := cs\<rparr>) (s\<lparr>count := count s + 1\<rparr>)"
      using st i code StoreInc r by (auto simp: step_thread_def)
    have lf: "Suc (left s') = left s"
      using left_set_thread [of i "s\<lparr>count := count s + 1\<rparr>" "?t\<lparr>code := cs\<rparr>"] i code StoreInc s' by simp
    have "count s' + of_nat (left s') = count s + of_nat (Suc (left s'))" by (simp add: s')
    also have "\<dots> = of_nat tot" using cnt lf by simp
    finally have c: "count s' + of_nat (left s') = of_nat tot" .
    have "ph j \<noteq> Loaded" if "j < length (threads s)" "j \<noteq> i" for j using ph [OF that(1)] o that(2) by auto
    then have "inv_with tot (ph(i := In)) s'"
      using ph ow c l i o by (auto simp: inv_with_def s')
    then show ?thesis by (rule exI [of _ "ph(i := In)"])
  qed
qed

definition locked_inv :: "nat \<Rightarrow> machine \<Rightarrow> bool" where
  "locked_inv tot s \<longleftrightarrow> (\<exists>ph. inv_with tot ph s)"

lemma locked_inv_tstep: "locked_inv tot s \<Longrightarrow> tstep s t \<Longrightarrow> locked_inv tot t"
  unfolding locked_inv_def by (elim exE tstepE) (rule inv_with_step)

lemma locked_inv_start:
  assumes "\<forall>p \<in> set progs. locked_code Out p"
  shows "locked_inv (sum_list (map incs progs)) (start progs)"
  unfolding locked_inv_def
  by (rule exI [of _ "\<lambda>_. Out"]) (use assms in \<open>auto simp: inv_with_def start_def left_def comp_def\<close>)

text \<open>A thread that is not done can move when it owns the lock or nobody does.\<close>

lemma locked_can_move:
  assumes inv: "inv_with tot ph s" and i: "i < length (threads s)" "code (threads s ! i) \<noteq> []"
    and o: "owner s 0 = None \<or> owner s 0 = Some i"
  shows "step_thread i s \<noteq> None"
proof -
  have lc: "locked_code (ph i) (code (threads s ! i))" and ph: "ph i \<noteq> Out \<longleftrightarrow> owner s 0 = Some i"
    using inv i by (auto simp: inv_with_def)
  obtain c cs where c: "code (threads s ! i) = c # cs" using i(2) by (cases "code (threads s ! i)") auto
  show ?thesis
    using i c lc ph o by (cases c) (auto simp: step_thread_def locked_code_cases Let_def)
qed

lemma locked_owner_unfinished:
  assumes inv: "inv_with tot ph s" and "owner s 0 = Some i"
  shows "i < length (threads s)" "ph i \<noteq> Out" "code (threads s ! i) \<noteq> []"
proof -
  show "i < length (threads s)" "ph i \<noteq> Out" using assms by (auto simp: inv_with_def)
  then show "code (threads s ! i) \<noteq> []" using inv by (auto simp: inv_with_def locked_code_cases)
qed

lemma locked_inv_not_stuck:
  assumes "locked_inv tot s"
  shows "\<not> stuck s"
proof
  assume st: "stuck s"
  obtain ph where inv: "inv_with tot ph s" using assms by (auto simp: locked_inv_def)
  have "\<exists>i. i < length (threads s) \<and> code (threads s ! i) \<noteq> [] \<and> (owner s 0 = None \<or> owner s 0 = Some i)"
  proof (cases "owner s 0")
    case None
    with st show ?thesis by (auto simp: stuck_def finished_def in_set_conv_nth)
  next
    case (Some i)
    with locked_owner_unfinished [OF inv Some] show ?thesis by blast
  qed
  with locked_can_move [OF inv] st show False by (auto simp: stuck_def)
qed

lemma locked_mutex_routine: "locked_code Out (mutex_routine n)"
proof -
  have "locked_code Out (concat (replicate n [Lock 0, Load, StoreInc, Unlock 0]) @ r) = locked_code Out r" for r
    by (induction n) simp_all
  then show ?thesis by (simp add: mutex_routine_def)
qed

lemma incs_mutex_routine: "incs (mutex_routine n) = n"
proof -
  have "incs (concat (replicate n [Lock 0, Load, StoreInc, Unlock 0])) = n" by (induction n) simp_all
  then show ?thesis by (simp add: mutex_routine_def)
qed

section \<open>Every run is finite\<close>

definition todo :: "machine \<Rightarrow> nat" where
  "todo s = sum_list (map (\<lambda>t. length (code t)) (threads s))"

lemma todo_step: "step_thread i s = Some s' \<Longrightarrow> todo s' + 1 = todo s"
proof -
  assume st: "step_thread i s = Some s'"
  then have i: "i < length (threads s)" by (simp add: step_thread_def split: if_splits)
  obtain t u where s': "s' = set_thread i t u" "threads u = threads s" "length (code (threads s ! i)) = length (code t) + 1"
    using st i by (auto simp: step_thread_def Let_def split: list.splits instr.splits if_splits)
  then show ?thesis
    using sum_list_update [of i "map (\<lambda>t. length (code t)) (threads s)" "length (code t)"] i
    by (simp add: todo_def set_thread_def map_update)
qed

lemma run_bounded: "run is s = Some t \<Longrightarrow> length is + todo t = todo s"
  by (induction "is" arbitrary: s) (auto split: option.splits dest: todo_step)

lemma run_append: "run (is @ js) s = (case run is s of None \<Rightarrow> None | Some t \<Rightarrow> run js t)"
  by (induction "is" arbitrary: s) (auto split: option.splits)

lemma run_reaches: "run is s = Some t \<Longrightarrow> reaches s t"
proof (induction "is" arbitrary: t rule: rev_induct)
  case Nil
  then show ?case by (simp add: steps.Refl)
next
  case (snoc i "is")
  then show ?case
    by (auto simp: run_append split: option.splits intro: steps.Snoc tstep.Move)
qed

interpretation mutex: step_progress tstep "locked_inv tot" todo finished for tot
proof unfold_locales
  fix s t
  show "locked_inv tot s \<Longrightarrow> tstep s t \<Longrightarrow> locked_inv tot t" by (rule locked_inv_tstep)
  show "tstep s t \<Longrightarrow> todo t < todo s" by (elim tstepE) (drule todo_step, simp)
next
  fix s
  assume "locked_inv tot s" "\<not> finished s"
  then show "\<exists>t. tstep s t" using locked_inv_not_stuck [of tot s] by (auto simp: stuck_def intro: tstep.Move)
qed

lemma mutex_start: "locked_inv (k * n) (start (replicate k (mutex_routine n)))"
  using locked_inv_start [of "replicate k (mutex_routine n)"]
  by (simp add: locked_mutex_routine incs_mutex_routine sum_list_replicate)

lemma finished_count: "locked_inv tot s \<Longrightarrow> finished s \<Longrightarrow> count s = of_nat tot"
proof -
  assume "locked_inv tot s" "finished s"
  then obtain ph where "inv_with tot ph s" by (auto simp: locked_inv_def)
  moreover have "left s = 0" using \<open>finished s\<close> by (simp add: left_def finished_def)
  ultimately show ?thesis by (simp add: inv_with_def)
qed

section \<open>Properties\<close>

text \<open>With the mutex the count is right: however the steps of any number of threads interleave, when
  all have finished the counter is the number of threads times the number of rounds (modulo the width
  of \<open>unsigned int\<close>).\<close>

lemma mutex_count:
  assumes "reaches (start (replicate k (mutex_routine n))) s" and "finished s"
  shows "count s = of_nat (k * n)"
  by (rule finished_count [OF mutex.inv_steps [OF assms(1) mutex_start] assms(2)])

lemma mutex_count_instance:
  "\<exists>s. reaches (start (replicate 2 (mutex_routine 1))) s \<and> finished s \<and> count s = 2"
proof -
  let ?s0 = "start (replicate 2 (mutex_routine 1))"
  let ?is = "[0, 0, 0, 1, 1, 1, 0, 0, 0, 0, 1, 1, 1, 1, 0, 0, 0, 1, 1, 1]"
  obtain s where s: "run ?is ?s0 = Some s" "finished s"
    by (simp add: start_def mutex_routine_def numeral_2_eq_2 step_thread_def set_thread_def finished_def Let_def)
  from mutex_count [OF run_reaches [OF s(1)] s(2)] run_reaches [OF s(1)] s(2) show ?thesis by auto
qed

text \<open>The threads of the mutex program never deadlock and always come to an end: from every state an
  interleaving can reach, all threads can finish, with the right count, and no run goes on forever.\<close>

lemma mutex_terminates:
  assumes "reaches (start (replicate k (mutex_routine n))) s"
  shows "(\<exists>t. reaches s t \<and> finished t \<and> count t = of_nat (k * n)) \<and>
    \<not> (\<exists>f. f 0 = s \<and> (\<forall>i. tstep (f i) (f (Suc i))))"
proof -
  have inv: "locked_inv (k * n) s" by (rule mutex.inv_steps [OF assms mutex_start])
  obtain t where t: "reaches s t" "finished t" using mutex.can_finish [OF inv] by blast
  have "count t = of_nat (k * n)" by (rule finished_count [OF mutex.inv_steps [OF t(1) inv] t(2)])
  moreover have "\<not> (\<exists>f. f 0 = s \<and> (\<forall>i. tstep (f i) (f (Suc i))))"
    using mutex.no_endless_run [of "k * n"] inv by blast
  ultimately show ?thesis using t by blast
qed

lemma mutex_terminates_instance:
  "\<exists>t. reaches (start (replicate 2 (mutex_routine 1))) t \<and> finished t \<and> count t = 2"
  using mutex_terminates [of 2 1 "start (replicate 2 (mutex_routine 1))"] by (auto simp: steps.Refl)

section \<open>Counting without a lock\<close>

definition two :: "u32 \<Rightarrow> thread \<Rightarrow> thread \<Rightarrow> machine" where
  "two c t u = \<lparr>owner = Map.empty, count = c, threads = [t, u]\<rparr>"

lemma step_two:
  "step_thread 0 (two c \<lparr>code = Load # cs, reg = v\<rparr> u) = Some (two c \<lparr>code = cs, reg = c\<rparr> u)"
  "step_thread 0 (two c \<lparr>code = StoreInc # cs, reg = v\<rparr> u) = Some (two (v + 1) \<lparr>code = cs, reg = v\<rparr> u)"
  "step_thread (Suc 0) (two c t \<lparr>code = Load # cs, reg = v\<rparr>) = Some (two c t \<lparr>code = cs, reg = c\<rparr>)"
  "step_thread (Suc 0) (two c t \<lparr>code = StoreInc # cs, reg = v\<rparr>) = Some (two (v + 1) t \<lparr>code = cs, reg = v\<rparr>)"
  by (simp_all add: step_thread_def two_def set_thread_def)

lemma run_rounds:
  "\<exists>w. run (replicate (2 * m) 0) (two c \<lparr>code = concat (replicate m [Load, StoreInc]) @ r, reg = v\<rparr> u) =
     Some (two (c + of_nat m) \<lparr>code = r, reg = w\<rparr> u)"
  "\<exists>w. run (replicate (2 * m) (Suc 0)) (two c t \<lparr>code = concat (replicate m [Load, StoreInc]) @ r, reg = v\<rparr>) =
     Some (two (c + of_nat m) t \<lparr>code = r, reg = w\<rparr>)"
proof (induction m arbitrary: c v)
  case (Suc m)
  case 1
  show ?case using Suc(1) [of "c + 1" c] by (simp add: step_two add.assoc)
  case 2
  show ?case using Suc(2) [of "c + 1" c] by (simp add: step_two add.assoc)
qed auto

text \<open>Without the mutex updates are lost: for every number of rounds there is a schedule of the two
  threads after which the counter holds the rounds of one thread only.\<close>

lemma shared_schedule:
  "\<exists>is s. run is (start [shared_routine (Suc n), shared_routine (Suc n)]) = Some s \<and> finished s \<and> count s = of_nat (Suc n)"
proof -
  let ?body = "\<lambda>m. concat (replicate m [Load, StoreInc])"
  let ?r = "\<lparr>code = shared_routine (Suc n), reg = 0\<rparr>"
  let ?t = "\<lparr>code = StoreInc # ?body n @ [Load], reg = 0\<rparr>"
  have 1: "run [0, 0] (two 0 ?r ?r) = Some (two 0 ?t ?r)"
    by (simp add: shared_routine_def step_two)
  obtain w where 2: "run (Suc 0 # replicate (2 * Suc n) (Suc 0) @ [Suc 0]) (two 0 ?t ?r) =
      Some (two (of_nat (Suc n)) ?t \<lparr>code = [], reg = w\<rparr>)"
    using run_rounds(2) [of "Suc n" 0 ?t "[Load]" 0] by (auto simp: shared_routine_def step_two run_append)
  obtain x where 3: "run (0 # replicate (2 * n) 0 @ [0]) (two (of_nat (Suc n)) ?t \<lparr>code = [], reg = w\<rparr>) =
      Some (two (1 + of_nat n) \<lparr>code = [], reg = x\<rparr> \<lparr>code = [], reg = w\<rparr>)"
    using run_rounds(1) [of n 1 "[Load]" 0 "\<lparr>code = [], reg = w\<rparr>"] by (auto simp: step_two run_append)
  let ?s = "two (1 + of_nat n) \<lparr>code = [], reg = x\<rparr> \<lparr>code = [], reg = w\<rparr>"
  have st: "start [shared_routine (Suc n), shared_routine (Suc n)] = two 0 ?r ?r" by (simp add: start_def two_def)
  have "run ([0, 0] @ (Suc 0 # replicate (2 * Suc n) (Suc 0) @ [Suc 0]) @ (0 # replicate (2 * n) 0 @ [0])) (two 0 ?r ?r) = Some ?s"
    unfolding run_append [of "[0, 0]"] 1 option.case
    unfolding run_append [of "Suc 0 # replicate (2 * Suc n) (Suc 0) @ [Suc 0]"] 2 option.case by (rule 3)
  then have "\<exists>is. run is (start [shared_routine (Suc n), shared_routine (Suc n)]) = Some ?s"
    unfolding st by blast
  moreover have "finished ?s" "count ?s = of_nat (Suc n)" by (simp_all add: finished_def two_def)
  ultimately show ?thesis by blast
qed

lemma shared_loses_updates:
  "\<exists>s. reaches (start [shared_routine (Suc n), shared_routine (Suc n)]) s \<and> finished s \<and> count s = of_nat (Suc n)"
  using shared_schedule [of n] run_reaches by blast

section \<open>Two locks in opposite orders\<close>

text \<open>Each thread owns its first lock and waits for the other.\<close>

definition blocked :: machine where
  "blocked = \<lparr>owner = [1 \<mapsto> 0, 2 \<mapsto> 1], count = 0,
     threads = [\<lparr>code = tl thread_1_routine, reg = 0\<rparr>, \<lparr>code = tl thread_2_routine, reg = 0\<rparr>]\<rparr>"

lemma stuck_blocked: "stuck blocked"
proof -
  have "step_thread i blocked = None" for i
  proof -
    consider "i = 0" | "i = 1" | "\<not> i < 2" by linarith
    then show ?thesis
      by cases (simp_all add: blocked_def step_thread_def thread_1_routine_def thread_2_routine_def Let_def)
  qed
  then show ?thesis by (simp add: stuck_def finished_def blocked_def thread_1_routine_def)
qed

text \<open>The two routines of the deadlock program can block each other: after each has taken its first
  lock neither can move, although there are schedules on which both finish and the count is 2.\<close>

lemma deadlock_reachable:
  "(\<exists>s. reaches (start [thread_1_routine, thread_2_routine]) s \<and> stuck s) \<and>
   (\<exists>s. reaches (start [thread_1_routine, thread_2_routine]) s \<and> finished s \<and> count s = 2)"
proof
  let ?s0 = "start [thread_1_routine, thread_2_routine]"
  have s: "run [0, Suc 0] ?s0 = Some blocked"
    by (simp add: blocked_def start_def thread_1_routine_def thread_2_routine_def step_thread_def set_thread_def Let_def)
  show "\<exists>s. reaches ?s0 s \<and> stuck s" using run_reaches [OF s] stuck_blocked by blast
  let ?is = "replicate 6 0 @ replicate 6 (Suc 0)"
  obtain u where "run ?is ?s0 = Some u" "finished u" "count u = 2"
    by (simp add: start_def thread_1_routine_def thread_2_routine_def step_thread_def set_thread_def
        finished_def Let_def numeral_eq_Suc)
  then show "\<exists>s. reaches ?s0 s \<and> finished s \<and> count s = 2" using run_reaches by blast
qed

section \<open>An unlocked delete in the Redis store\<close>

text \<open>
  \<open>db_del\<close> takes no lock. The pointer updates of the insertion of a new key in a bucket (the two
  assignments of \<open>install\<close>) and of the deletion of the first entry of the same bucket (\<open>undef\<close>): a
  node is a number, \<open>freed\<close> the nodes given back.
\<close>

record bucket =
  head :: "nat option"
  link :: "nat \<Rightarrow> nat option"
  cur :: "nat option"
  freed :: "nat list"

datatype micro = LinkNext nat | SetHead nat | ReadCur | UnlinkHead | FreeCur

fun micro_step :: "micro \<Rightarrow> bucket \<Rightarrow> bucket" where
  "micro_step (LinkNext p) b = b\<lparr>link := (link b)(p := head b)\<rparr>"
| "micro_step (SetHead p) b = b\<lparr>head := Some p\<rparr>"
| "micro_step ReadCur b = b\<lparr>cur := head b\<rparr>"
| "micro_step UnlinkHead b = (case cur b of None \<Rightarrow> b | Some c \<Rightarrow> b\<lparr>head := link b c\<rparr>)"
| "micro_step FreeCur b = (case cur b of None \<Rightarrow> b | Some c \<Rightarrow> b\<lparr>freed := c # freed b\<rparr>)"

definition install_steps :: "nat \<Rightarrow> micro list" where
  "install_steps p = [LinkNext p, SetHead p]"

definition undef_steps :: "micro list" where
  "undef_steps = [ReadCur, UnlinkHead, FreeCur]"

fun nodes :: "nat \<Rightarrow> (nat \<Rightarrow> nat option) \<Rightarrow> nat option \<Rightarrow> nat list" where
  "nodes 0 l h = []"
| "nodes (Suc k) l None = []"
| "nodes (Suc k) l (Some p) = p # nodes k l (l p)"

definition dangling :: "bucket \<Rightarrow> bool" where
  "dangling b \<longleftrightarrow> (\<exists>p \<in> set (nodes 3 (link b) (head b)). p \<in> set (freed b))"

definition one_entry :: bucket where
  "one_entry = \<lparr>head = Some 0, link = Map.empty, cur = None, freed = []\<rparr>"

text \<open>Although the header promises that all functions are thread-safe, a delete may interleave with an
  insertion into the same bucket so that the table keeps a freed entry; one after the other, in
  either order, the two never do that.\<close>

lemma unlocked_del_dangles:
  "(\<exists>zs \<in> shuffles (install_steps 1) undef_steps. dangling (fold micro_step zs one_entry)) \<and>
   \<not> dangling (fold micro_step (install_steps 1 @ undef_steps) one_entry) \<and>
   \<not> dangling (fold micro_step (undef_steps @ install_steps 1) one_entry)"
proof -
  let ?zs = "[LinkNext 1, ReadCur, UnlinkHead, FreeCur, SetHead 1]"
  have "?zs \<in> shuffles (install_steps 1) undef_steps"
    by (simp add: install_steps_def undef_steps_def)
  moreover have "dangling (fold micro_step ?zs one_entry)"
    by (simp add: dangling_def one_entry_def numeral_3_eq_3)
  moreover have "\<not> dangling (fold micro_step (install_steps 1 @ undef_steps) one_entry)"
    "\<not> dangling (fold micro_step (undef_steps @ install_steps 1) one_entry)"
    by (simp_all add: dangling_def one_entry_def install_steps_def undef_steps_def numeral_3_eq_3)
  ultimately show ?thesis by blast
qed

end
