(* ===== verification/Thread_Programs.thy ===== *)
theory Thread_Programs
  imports Threads CLib "HOL-Library.Multiset"
begin

text \<open>
  The programs of \<open>theories/c/thread_mutexes_concurrent\<close> that create threads and join or detach them
  (\<open>create_thread.c\<close>, \<open>create_thread_1.c\<close>, \<open>pthread_join.c\<close>, \<open>pthread_detach.c\<close>, \<open>passing_an_arg_to_thread.c\<close>), and
  the lines with which the main functions of \<open>mutex.c\<close>, \<open>threads_shared_memory.c\<close> and \<open>deadlock.c\<close> end (the
  programs themselves are in \<open>Counting_Programs\<close>).

  A program is the list of the actions of its main thread; a thread is the list of its own. When the main
  function returns the process ends, and with it every thread that is still alive. Every interleaving is a run of
  \<open>pstep\<close>. \<open>sleep\<close> orders nothing and is left out.
\<close>

section \<open>Processes with threads\<close>

text \<open>\<open>Say\<close> is a \<open>printf\<close>; \<open>Join\<close> waits for the end of a thread, \<open>Detach\<close> gives it up; \<open>Leave\<close> is the return from \<open>main\<close>.\<close>

datatype thread_action = Say string | Create nat "string list" | Join nat | Detach nat | Leave int

record process =
  main_code :: "thread_action list"
  alive :: "(nat \<times> string list) list"
  printed :: "string list"
  status :: "int option"

definition boot_process :: "thread_action list \<Rightarrow> process" where
  "boot_process cs = \<lparr>main_code = cs, alive = [], printed = [], status = None\<rparr>"

inductive pstep :: "process \<Rightarrow> process \<Rightarrow> bool" where
  Work: "status s = None \<Longrightarrow> alive s = as @ (i, x # xs) # bs \<Longrightarrow>
     pstep s (s\<lparr>alive := as @ (i, xs) # bs, printed := printed s @ [x]\<rparr>)"
| Main_Say: "status s = None \<Longrightarrow> main_code s = Say x # cs \<Longrightarrow> pstep s (s\<lparr>main_code := cs, printed := printed s @ [x]\<rparr>)"
| Main_Create: "status s = None \<Longrightarrow> main_code s = Create i xs # cs \<Longrightarrow>
     pstep s (s\<lparr>main_code := cs, alive := alive s @ [(i, xs)]\<rparr>)"
| Main_Join: "status s = None \<Longrightarrow> main_code s = Join i # cs \<Longrightarrow> alive s = as @ (i, []) # bs \<Longrightarrow>
     pstep s (s\<lparr>main_code := cs, alive := as @ bs\<rparr>)"
| Main_Detach: "status s = None \<Longrightarrow> main_code s = Detach i # cs \<Longrightarrow> pstep s (s\<lparr>main_code := cs\<rparr>)"
| Main_Leave: "status s = None \<Longrightarrow> main_code s = Leave k # cs \<Longrightarrow> pstep s (s\<lparr>main_code := [], status := Some k\<rparr>)"

inductive_cases pstepE: "pstep s t"

section \<open>The programs\<close>

text \<open>\<open>create_thread.c\<close>: what the thread returned is printed; without a thread the program ends with 1.\<close>

definition create_thread_main :: "bool \<Rightarrow> thread_action list" where
  "create_thread_main created =
     (if \<not> created then [Leave 1]
      else [Create 1 [''Hello from thread!'' @ [LF]], Say (''Before pthread_join()'' @ [LF]), Join 1,
            Say (''Thread finished '' @ int_str 1 @ [LF]), Leave 0])"

text \<open>\<open>create_thread_1.c\<close>: every thread gets a record of its own; the first failure ends the program.\<close>

definition worker_line :: "nat \<Rightarrow> string" where
  "worker_line i = ''Thread '' @ nat_str i @ '' says: Hello from the worker thread!'' @ [LF]"

fun create_workers :: "(nat \<Rightarrow> bool) \<Rightarrow> nat list \<Rightarrow> thread_action list \<Rightarrow> thread_action list" where
  "create_workers created [] rest = rest"
| "create_workers created (i # is) rest =
     (if created i then Create i [worker_line i] # create_workers created is rest else [Leave 1])"

definition create_thread_1_main :: "nat \<Rightarrow> (nat \<Rightarrow> bool) \<Rightarrow> thread_action list" where
  "create_thread_1_main n created =
     create_workers created [1..<n + 1] (map Join [1..<n + 1] @ [Leave 0])"

text \<open>\<open>pthread_join.c\<close>, with the ids of its threads as they are printed.\<close>

definition join_line :: "string \<Rightarrow> string \<Rightarrow> string" where
  "join_line what tid = ''Main: '' @ what @ '' thread ['' @ tid @ '']'' @ [LF]"

definition routine_line :: "string \<Rightarrow> string" where
  "routine_line tid = [CHR 0x1B] @ ''[1;33mThread ['' @ tid @ '']: The heaviest burden is to exist without living.'' @ [CHR 0x1B] @ ''[0m'' @ [LF]"

definition join_main :: "string \<Rightarrow> string \<Rightarrow> thread_action list" where
  "join_main tid1 tid2 =
     [Create 1 [routine_line tid1], Say (join_line ''Create first'' tid1),
      Create 2 [routine_line tid2], Say (join_line ''Created second'' tid2),
      Join 1, Say (join_line ''Joining first'' tid1), Join 2, Say (join_line ''Joining second'' tid2), Leave 0]"

definition detach_main :: "thread_action list" where
  "detach_main = [Create 1 [''Worker finished'' @ [LF]], Detach 1, Say (''Main continues...'' @ [LF]), Leave 0]"

definition passing_main :: "thread_action list" where
  "passing_main = [Create 1 [''Received: '' @ int_str 10 @ [LF]], Join 1, Leave 0]"

text \<open>The client of \<open>theories/socket\<close>: every thread sends a greeting and prints the answer it got (\<open>reply\<close>; what a
  thread does with its socket is \<open>dial_exercise\<close> of \<open>Sockets\<close>). That a thread could not be created is not noticed.\<close>

definition response_line :: "nat \<Rightarrow> string \<Rightarrow> string" where
  "response_line i r = ''[Thread '' @ nat_str i @ ''] Response: '' @ r @ [LF]"

definition client_main :: "nat \<Rightarrow> (nat \<Rightarrow> string) \<Rightarrow> thread_action list" where
  "client_main n reply =
     map (\<lambda>i. Create i [response_line i (reply i)]) [0..<n] @ map Join [0..<n] @ [Leave 0]"

text \<open>The last lines of the counting programs.\<close>

definition verdict :: "nat \<Rightarrow> u32 \<Rightarrow> string" where
  "verdict expected c =
     (if c \<noteq> of_nat expected
      then [CHR 0x1B] @ ''[31mMain: ERROR ! Total count is '' @ nat_str (unat c) @ [CHR 0x1B] @ ''[0m'' @ [LF]
      else [CHR 0x1B] @ ''[32mMain: OK. Total count is '' @ nat_str (unat c) @ [CHR 0x1B] @ ''[0m'' @ [LF])"

text \<open>\<open>deadlock.c\<close> does not switch the colour off.\<close>

definition deadlock_verdict :: "u32 \<Rightarrow> string" where
  "deadlock_verdict c =
     (if c = 2 then [CHR 0x1B] @ ''[32mMain: OK. Total count is '' @ int_str (sint c) @ [LF]
      else [CHR 0x1B] @ ''[31mMain: ERROR ! Total count is '' @ nat_str (unat c) @ [LF])"

section \<open>Programs that join their threads\<close>

text \<open>Every thread that is created is joined, once, before the program returns (\<open>ids\<close>: created and not yet joined).\<close>

fun joins :: "nat set \<Rightarrow> thread_action list \<Rightarrow> bool" where
  "joins ids (Say x # cs) = joins ids cs"
| "joins ids (Create i xs # cs) = (i \<notin> ids \<and> joins (insert i ids) cs)"
| "joins ids (Join i # cs) = (i \<in> ids \<and> joins (ids - {i}) cs)"
| "joins ids [Leave k] = (ids = {})"
| "joins ids cs = False"

text \<open>All that a program says, its threads included.\<close>

fun says :: "thread_action list \<Rightarrow> string list" where
  "says [] = []"
| "says (Say x # cs) = x # says cs"
| "says (Create i xs # cs) = xs @ says cs"
| "says (c # cs) = says cs"

definition joined_inv :: "string multiset \<Rightarrow> process \<Rightarrow> bool" where
  "joined_inv tot s \<longleftrightarrow>
     (case status s of
        None \<Rightarrow> distinct (map fst (alive s)) \<and> joins (fst ` set (alive s)) (main_code s) \<and>
          mset (printed s) + mset (concat (map snd (alive s))) + mset (says (main_code s)) = tot
      | Some k \<Rightarrow> main_code s = [] \<and> alive s = [] \<and> mset (printed s) = tot)"

definition work_left :: "process \<Rightarrow> nat" where
  "work_left s = length (main_code s) + length (says (main_code s)) + length (concat (map snd (alive s)))"

lemma joined_inv_boot: "joins {} cs \<Longrightarrow> joined_inv (mset (says cs)) (boot_process cs)"
  by (simp add: joined_inv_def boot_process_def)

lemma joined_inv_pstep: "joined_inv tot s \<Longrightarrow> pstep s t \<Longrightarrow> joined_inv tot t"
proof (erule pstepE, goal_cases)
  case (1 as i x xs bs)
  then show ?case by (auto simp: joined_inv_def)
next
  case (2 x cs)
  then show ?case by (auto simp: joined_inv_def)
next
  case (3 i xs cs)
  then show ?case by (auto simp: joined_inv_def)
next
  case (4 i cs as bs)
  then have "insert i (fst ` (set as \<union> set bs)) - {i} = fst ` (set as \<union> set bs)"
    by (auto simp: joined_inv_def)
  with 4 show ?case by (auto simp: joined_inv_def)
next
  case (5 i cs)
  then show ?case by (simp add: joined_inv_def)
next
  case (6 k cs)
  then show ?case by (cases cs) (auto simp: joined_inv_def)
qed

lemma pstep_less: "pstep s t \<Longrightarrow> work_left t < work_left s"
  by (erule pstepE) (simp_all add: work_left_def)

lemma pstep_not_blocked: "joined_inv tot s \<Longrightarrow> status s = None \<Longrightarrow> \<exists>t. pstep s t"
proof -
  assume inv: "joined_inv tot s" and st: "status s = None"
  then have j: "joins (fst ` set (alive s)) (main_code s)" by (simp add: joined_inv_def)
  show ?thesis
  proof (cases "main_code s")
    case Nil
    with j show ?thesis by simp
  next
    case (Cons c cs)
    show ?thesis
    proof (cases c)
      case (Join i)
      with Cons j obtain xs where "(i, xs) \<in> set (alive s)" by auto
      then obtain as bs where a: "alive s = as @ (i, xs) # bs" by (auto dest: split_list)
      show ?thesis
      proof (cases xs)
        case Nil
        with a Cons Join st show ?thesis by (auto intro: pstep.Main_Join)
      next
        case (Cons x ys)
        with a st show ?thesis by (auto intro: pstep.Work)
      qed
    qed (use Cons st in \<open>auto intro: pstep.intros\<close>)
  qed
qed

interpretation joined: step_progress pstep "joined_inv tot" work_left "\<lambda>s. status s \<noteq> None" for tot
  by unfold_locales (auto intro: joined_inv_pstep pstep_less dest: pstep_not_blocked)

text \<open>A program that joins its threads loses nothing they say, and always comes to its end.\<close>

lemma joined_programs:
  assumes "joins {} cs"
  shows "steps pstep (boot_process cs) s \<Longrightarrow> status s \<noteq> None \<Longrightarrow> mset (printed s) = mset (says cs)"
    and "steps pstep (boot_process cs) s \<Longrightarrow> \<exists>t. steps pstep s t \<and> status t \<noteq> None"
proof -
  have inv: "joined_inv (mset (says cs)) s" if "steps pstep (boot_process cs) s" for s
    by (rule joined.inv_steps [OF that joined_inv_boot [OF assms]])
  show "mset (printed s) = mset (says cs)" if "steps pstep (boot_process cs) s" "status s \<noteq> None"
    using inv [OF that(1)] that(2) by (auto simp: joined_inv_def)
  show "\<exists>t. steps pstep s t \<and> status t \<noteq> None" if "steps pstep (boot_process cs) s"
    using joined.can_finish [OF inv [OF that]] by blast
qed

lemma joins_append: "distinct is \<Longrightarrow> joins ids (map Join is @ [Leave k]) \<longleftrightarrow> ids = set is"
  by (induction "is" arbitrary: ids) auto

lemma create_workers_joins:
  assumes "\<forall>i \<in> set is. created i" and "distinct is" and "ids \<inter> set is = {}"
  shows "joins ids (create_workers created is rest) \<longleftrightarrow> joins (ids \<union> set is) rest"
  using assms by (induction "is" arbitrary: ids) auto

lemma create_workers_says:
  "\<forall>i \<in> set is. created i \<Longrightarrow> says (create_workers created is rest) = map worker_line is @ says rest"
  by (induction "is") auto

lemma says_joins: "says (map Join is @ [Leave k]) = []"
  by (induction "is") auto

text \<open>The hundred threads of \<open>create_thread_1.c\<close> (any number): when every thread could be created, then in every
  interleaving the program comes to its end, and by then each thread has said its own line exactly once.\<close>

lemma workers_all_heard:
  assumes "\<forall>i \<in> {1..n}. created i" and "steps pstep (boot_process (create_thread_1_main n created)) s"
  shows "(\<exists>t. steps pstep s t \<and> status t \<noteq> None) \<and>
    (status s \<noteq> None \<longrightarrow> mset (printed s) = mset (map worker_line [1..<n + 1]))"
proof -
  have "\<forall>i \<in> set [1..<n + 1]. created i" using assms(1) by auto
  then have "joins {} (create_thread_1_main n created)"
    and "says (create_thread_1_main n created) = map worker_line [1..<n + 1]"
    using joins_append [of "[1..<n + 1]" "{1..<n + 1}" 0]
    by (simp_all add: create_thread_1_main_def create_workers_joins create_workers_says says_joins del: upt_Suc upt_conv_Cons)
  with joined_programs [of "create_thread_1_main n created" s] assms(2) show ?thesis by simp
qed

lemma workers_all_heard_instance:
  "\<exists>s. steps pstep (boot_process (create_thread_1_main 2 (\<lambda>_. True))) s \<and> status s \<noteq> None \<and>
     mset (printed s) = {#worker_line 1, worker_line 2#}"
proof -
  let ?p = "boot_process (create_thread_1_main 2 (\<lambda>_. True))"
  from workers_all_heard [of 2 "\<lambda>_. True" ?p, OF _ steps.Refl] obtain s
    where s: "steps pstep ?p s" "status s \<noteq> None" by auto
  then have "mset (printed s) = {#worker_line 1, worker_line 2#}"
    using workers_all_heard [of 2 "\<lambda>_. True" s, OF _ s(1)] by (simp add: upt_rec numeral_2_eq_2)
  with s show ?thesis by blast
qed

text \<open>The other programs that join.\<close>

lemma small_programs_join:
  "joins {} (create_thread_main True)" "joins {} (join_main tid1 tid2)" "joins {} passing_main"
  by (simp_all add: create_thread_main_def join_main_def passing_main_def insert_Diff_if)

lemma create_thread_heard:
  assumes "steps pstep (boot_process (create_thread_main True)) s" and "status s \<noteq> None"
  shows "mset (printed s) = {#''Hello from thread!'' @ [LF], ''Before pthread_join()'' @ [LF], ''Thread finished '' @ int_str 1 @ [LF]#}"
  using joined_programs(1) [OF small_programs_join(1) assms] by (simp add: create_thread_main_def)

text \<open>The client waits for all answers: each is printed once, in some order.\<close>

lemma creates_join:
  "distinct is \<Longrightarrow> ids \<inter> set is = {} \<Longrightarrow> joins ids (map (\<lambda>i. Create i (f i)) is @ cs) \<longleftrightarrow> joins (ids \<union> set is) cs"
  by (induction "is" arbitrary: ids) auto

lemma creates_say: "says (map (\<lambda>i. Create i [f i]) is @ cs) = map f is @ says cs"
  by (induction "is") auto

lemma client_hears_all:
  assumes "steps pstep (boot_process (client_main n reply)) s"
  shows "\<exists>t. steps pstep s t \<and> status t \<noteq> None"
    and "status s \<noteq> None \<Longrightarrow> mset (printed s) = mset (map (\<lambda>i. response_line i (reply i)) [0..<n])"
proof -
  have "joins {} (client_main n reply)"
    using joins_append [of "[0..<n]" "{0..<n}" 0] by (simp add: client_main_def creates_join)
  note run = joined_programs [OF this, of s]
  show "\<exists>t. steps pstep s t \<and> status t \<noteq> None" by (rule run(2) [OF assms])
  show "mset (printed s) = mset (map (\<lambda>i. response_line i (reply i)) [0..<n])" if "status s \<noteq> None"
    using run(1) [OF assms that] by (simp add: client_main_def creates_say says_joins)
qed

text \<open>A detached thread may never be heard: the process ends with its main function.\<close>

lemma detached_may_be_lost:
  "\<exists>s. steps pstep (boot_process detach_main) s \<and> status s = Some 0 \<and> printed s = [''Main continues...'' @ [LF]]"
proof -
  obtain s0 where s0: "s0 = boot_process detach_main" by blast
  obtain s1 where s1: "s1 = s0\<lparr>main_code := tl detach_main, alive := [(1, [''Worker finished'' @ [LF]])]\<rparr>" by blast
  obtain s2 where s2: "s2 = s1\<lparr>main_code := tl (tl detach_main)\<rparr>" by blast
  obtain s3 where s3: "s3 = s2\<lparr>main_code := [Leave 0], printed := [''Main continues...'' @ [LF]]\<rparr>" by blast
  obtain s4 where s4: "s4 = s3\<lparr>main_code := [], status := Some 0\<rparr>" by blast
  have r1: "steps pstep s0 s1" unfolding s1
    by (rule steps_one) (use pstep.Main_Create [of s0] in \<open>simp add: s0 boot_process_def detach_main_def\<close>)
  have r2: "steps pstep s1 s2" unfolding s2
    by (rule steps_one) (use pstep.Main_Detach [of s1] in \<open>simp add: s0 s1 boot_process_def detach_main_def\<close>)
  have r3: "steps pstep s2 s3" unfolding s3
    by (rule steps_one) (use pstep.Main_Say [of s2] in \<open>simp add: s0 s1 s2 boot_process_def detach_main_def\<close>)
  have r4: "steps pstep s3 s4" unfolding s4
    by (rule steps_one) (use pstep.Main_Leave [of s3] in \<open>simp add: s0 s1 s2 s3 boot_process_def\<close>)
  from steps_trans [OF r4 steps_trans [OF r3 steps_trans [OF r2 r1]]] have "steps pstep s0 s4" .
  moreover have "status s4 = Some 0" "printed s4 = [''Main continues...'' @ [LF]]" by (simp_all add: s3 s4)
  ultimately show ?thesis using s0 by blast
qed

text \<open>What the counting programs say when their threads have finished.\<close>

lemma mutex_says_ok:
  assumes "reaches (start (replicate 2 (mutex_routine n))) s" and "finished s"
  shows "verdict (2 * n) (machine.count s) = [CHR 0x1B] @ ''[32mMain: OK. Total count is '' @ nat_str (unat (machine.count s)) @ [CHR 0x1B] @ ''[0m'' @ [LF]"
  using finished_count [OF mutex.inv_steps [OF assms(1) mutex_start] assms(2)] by (simp add: verdict_def)

end
