(* ===== verification/Shell_Parse.thy ===== *)
theory Shell_Parse
  imports CLib
begin

text \<open>
  How the shell (\<open>14. shell/ccsh.c\<close>) takes a command line apart: \<open>trim\<close> strips blanks, \<open>extract_segments\<close>
  splits at the bars of a pipeline and \<open>build_args\<close> splits a segment into words. Each collects bytes in
  an array on the stack and pointers in an array on the heap; the sizes of all four arrays (128 and 16,
  100 and 100) are kept, and a store outside is a fault.
\<close>

section \<open>Stripping blanks\<close>

definition blank :: "char \<Rightarrow> bool" where
  "blank c \<longleftrightarrow> c = SP \<or> c = LF"

text \<open>How far a loop moves its index over blanks; the second loop of \<open>trim\<close> runs over the bytes backwards.\<close>

fun skip_blanks :: "string \<Rightarrow> int" where
  "skip_blanks [] = 0"
| "skip_blanks (c # s) = (if blank c then 1 + skip_blanks s else 0)"

definition trim :: "string \<Rightarrow> string option" where
  "trim cmd =
     (let l = skip_blanks cmd;
          r = int (length cmd) - 1 - skip_blanks (rev cmd);
          len = r - l + 1
      in if len \<le> 0 then None else Some (take (nat len) (drop (nat l) cmd)))"

section \<open>Words\<close>

definition is_sep :: "char \<Rightarrow> bool" where
  "is_sep c \<longleftrightarrow> c = SP \<or> c = TAB \<or> c = LF"

text \<open>\<open>buf[idx++] = c\<close> in an array of \<open>cap\<close> bytes, and \<open>v[pos++] = p\<close> in one of \<open>cap\<close> pointers.\<close>

definition put :: "nat \<Rightarrow> 'a list \<Rightarrow> 'a \<Rightarrow> 'a list result" where
  "put cap b c = (if length b < cap then Inr (b @ [c]) else Inl OutOfBounds)"

fun args_loop :: "string \<Rightarrow> string \<Rightarrow> string list \<Rightarrow> string list result" where
  "args_loop [] b v =
     (if b \<noteq> [] then ebind (put 100 b NUL) (\<lambda>_. put 100 v b) else Inr v)"
| "args_loop (c # s) b v =
     (if is_sep c then ebind (put 100 b NUL) (\<lambda>_. ebind (put 100 v b) (args_loop s []))
      else ebind (put 100 b c) (\<lambda>b'. args_loop s b' v))"

text \<open>The pointers before the terminating null pointer, which also needs a place.\<close>

definition build_args :: "string \<Rightarrow> string list result" where
  "build_args cmd =
     ebind (args_loop cmd [] []) (\<lambda>v. if length v < 100 then Inr v else Inl OutOfBounds)"

definition is_cd_cmd :: "string list \<Rightarrow> bool result" where
  "is_cd_cmd args = (case args of [] \<Rightarrow> Inl NullDeref | a # _ \<Rightarrow> Inr (a = ''cd''))"

section \<open>Segments of a pipeline\<close>

abbreviation BAR :: char where "BAR \<equiv> CHR ''|''"

fun segs_loop :: "string \<Rightarrow> string \<Rightarrow> string option list \<Rightarrow> string option list result" where
  "segs_loop [] b v =
     (if b \<noteq> [] then ebind (put 128 b NUL) (\<lambda>_. put 16 v (trim b)) else Inr v)"
| "segs_loop (c # s) b v =
     (if c = BAR then ebind (put 128 b NUL) (\<lambda>_. ebind (put 16 v (trim b)) (segs_loop s []))
      else ebind (put 128 b c) (\<lambda>b'. segs_loop s b' v))"

definition extract_segments :: "string \<Rightarrow> string option list result" where
  "extract_segments cmd =
     ebind (segs_loop cmd [] []) (\<lambda>v. if length v < 16 then Inr v else Inl OutOfBounds)"

text \<open>The loop at the start of \<open>handle_cmd\<close> counts up to the first null pointer.\<close>

definition seg_list :: "string option list \<Rightarrow> string list" where
  "seg_list v = map the (takeWhile (\<lambda>x. x \<noteq> None) v)"

section \<open>Lemmas\<close>

lemma skip_blanks_takeWhile: "skip_blanks s = int (length (takeWhile blank s))"
  by (induction s) auto

definition strip :: "string \<Rightarrow> string" where
  "strip s = rev (dropWhile blank (rev (dropWhile blank s)))"

lemma dropWhile_hd: "s \<noteq> [] \<Longrightarrow> \<not> P (hd s) \<Longrightarrow> dropWhile P s = s"
  by (cases s) auto

lemma ex_dropWhile: "\<exists>c \<in> set s. \<not> P c \<Longrightarrow> dropWhile P s \<noteq> [] \<and> \<not> P (hd (dropWhile P s))"
  by (induction s) auto

lemma trim_strip: "trim s = (if \<forall>c \<in> set s. blank c then None else Some (strip s))"
proof (cases "\<forall>c \<in> set s. blank c")
  case True
  then have "skip_blanks s = int (length s)" "skip_blanks (rev s) = int (length s)"
    by (simp_all add: skip_blanks_takeWhile takeWhile_eq_all_conv [THEN iffD2])
  then show ?thesis using True by (simp add: trim_def Let_def)
next
  case False
  let ?l = "length (takeWhile blank s)" and ?t = "length (takeWhile blank (rev s))"
  have s: "s = takeWhile blank s @ dropWhile blank s" by simp
  have ex: "\<exists>c \<in> set (dropWhile blank s). \<not> blank c"
    using ex_dropWhile [of s blank] False by (metis list.set_sel(1))
  have t: "takeWhile blank (rev s) = takeWhile blank (rev (dropWhile blank s))"
    using ex takeWhile_append1 [of _ "rev (dropWhile blank s)" blank "rev (takeWhile blank s)"]
    by (metis rev_append s set_rev)
  have len: "length s = ?l + length (dropWhile blank s)" by (metis length_append s)
  have lt: "?t < length (dropWhile blank s)"
    unfolding t using ex by (metis length_rev length_takeWhile_le nat_less_le set_rev set_takeWhileD takeWhile_eq_take take_all_iff linorder_not_less)
  have d: "drop ?l s = dropWhile blank s" by (rule dropWhile_eq_drop [symmetric])
  have st: "strip s = take (length (dropWhile blank s) - ?t) (dropWhile blank s)"
    unfolding t strip_def by (subst (1) dropWhile_eq_drop) (simp only: rev_drop rev_rev_ident length_rev)
  have n: "int (length s) - 1 - int ?t - int ?l + 1 = int (length (dropWhile blank s) - ?t)"
    using len lt by simp
  have "\<not> length (dropWhile blank s) \<le> ?t" using lt by simp
  then show ?thesis
    using False by (simp only: trim_def skip_blanks_takeWhile Let_def n d st nat_int) simp
qed

text \<open>A text that neither starts nor ends with a blank.\<close>

definition trimmed :: "string \<Rightarrow> bool" where
  "trimmed s \<longleftrightarrow> s \<noteq> [] \<and> \<not> blank (hd s) \<and> \<not> blank (last s)"

lemma strip_trimmed: "trimmed s \<Longrightarrow> strip s = s"
  by (simp add: trimmed_def strip_def dropWhile_hd hd_rev)

lemma trim_trimmed [simp]: "trimmed s \<Longrightarrow> trim s = Some s"
  unfolding trim_strip by (auto simp: strip_trimmed) (auto simp: trimmed_def)

lemma trimmed_strip: "\<exists>c \<in> set s. \<not> blank c \<Longrightarrow> trimmed (strip s)"
proof -
  assume s: "\<exists>c \<in> set s. \<not> blank c"
  let ?d = "dropWhile blank s"
  have d: "?d \<noteq> []" "\<not> blank (hd ?d)" using ex_dropWhile [OF s] by auto
  then have ex: "\<exists>c \<in> set (rev ?d). \<not> blank c" by (metis list.set_sel(1) set_rev)
  have e: "dropWhile blank (rev ?d) \<noteq> []" "\<not> blank (hd (dropWhile blank (rev ?d)))"
    using ex_dropWhile [OF ex] by auto
  have "last (dropWhile blank (rev ?d)) = last (rev ?d)"
    using e(1) by (metis last_appendR takeWhile_dropWhile_id)
  then show ?thesis using d e by (simp add: trimmed_def strip_def hd_rev last_rev)
qed

lemma put_simps [simp]:
  "length b < cap \<Longrightarrow> put cap b c = Inr (b @ [c])"
  "cap \<le> length b \<Longrightarrow> put cap b c = Inl OutOfBounds"
  by (simp_all add: put_def)

definition word :: "string \<Rightarrow> bool" where
  "word w \<longleftrightarrow> w \<noteq> [] \<and> (\<forall>c \<in> set w. \<not> is_sep c) \<and> length w < 100"

fun unwords :: "string list \<Rightarrow> string" where
  "unwords [] = []"
| "unwords [w] = w"
| "unwords (w # ws) = w @ SP # unwords ws"

lemma args_loop_word:
  "\<forall>c \<in> set w. \<not> is_sep c \<Longrightarrow> length b + length w < 100 \<Longrightarrow> args_loop (w @ s) b v = args_loop s (b @ w) v"
  by (induction w arbitrary: b) simp_all

lemma args_loop_words:
  assumes "\<forall>w \<in> set ws. word w" and "length v + length ws < 100"
  shows "args_loop (unwords ws) [] v = Inr (v @ ws)"
  using assms
proof (induction ws arbitrary: v rule: unwords.induct)
  case (2 w)
  then have "args_loop (w @ []) [] v = args_loop [] w v"
    using args_loop_word [of w "[]" "[]" v] by (simp add: word_def)
  with 2 show ?case by (simp add: word_def)
next
  case (3 w x ws)
  then have "args_loop (w @ SP # unwords (x # ws)) [] v = args_loop (SP # unwords (x # ws)) w v"
    using args_loop_word [of w "[]"] by (simp add: word_def)
  with 3 show ?case by (simp add: word_def is_sep_def)
qed simp

lemma build_args_words:
  "\<forall>w \<in> set ws. word w \<Longrightarrow> length ws < 100 \<Longrightarrow> build_args (unwords ws) = Inr ws"
  by (simp add: build_args_def args_loop_words)

text \<open>Two blanks in a row make an empty argument.\<close>

lemma double_blank_empty_arg: "build_args ''ls  -l'' = Inr [''ls'', '''', ''-l'']"
  by (simp add: build_args_def is_sep_def)

fun unbars :: "string list \<Rightarrow> string" where
  "unbars [] = []"
| "unbars [w] = w"
| "unbars (w # ws) = w @ BAR # unbars ws"

definition segment :: "string \<Rightarrow> bool" where
  "segment w \<longleftrightarrow> w \<noteq> [] \<and> BAR \<notin> set w \<and> length w < 128"

lemma segs_loop_part:
  "BAR \<notin> set w \<Longrightarrow> length b + length w < 128 \<Longrightarrow> segs_loop (w @ s) b v = segs_loop s (b @ w) v"
  by (induction w arbitrary: b) auto

lemma segs_loop_parts:
  assumes "\<forall>w \<in> set ws. segment w" and "length v + length ws < 16"
  shows "segs_loop (unbars ws) [] v = Inr (v @ map trim ws)"
  using assms
proof (induction ws arbitrary: v rule: unbars.induct)
  case (2 w)
  then have "segs_loop (w @ []) [] v = segs_loop [] w v"
    using segs_loop_part [of w "[]" "[]" v] by (simp add: segment_def)
  with 2 show ?case by (simp add: segment_def)
next
  case (3 w x ws)
  then have "segs_loop (w @ BAR # unbars (x # ws)) [] v = segs_loop (BAR # unbars (x # ws)) w v"
    using segs_loop_part [of w "[]"] by (simp add: segment_def)
  with 3 show ?case by (simp add: segment_def)
qed simp

lemma extract_segments_parts:
  "\<forall>w \<in> set ws. segment w \<Longrightarrow> length ws < 16 \<Longrightarrow> extract_segments (unbars ws) = Inr (map trim ws)"
  by (simp add: extract_segments_def segs_loop_parts)

lemma seg_list_trimmed:
  "\<forall>w \<in> set ws. \<exists>c \<in> set w. \<not> blank c \<Longrightarrow> seg_list (map trim ws) = map strip ws"
  by (induction ws) (auto simp: seg_list_def trim_strip)

text \<open>A blank segment ends the pipeline: what follows it is never started.\<close>

lemma blank_segment_truncates:
  "\<forall>c \<in> set w. blank c \<Longrightarrow> seg_list (map trim (us @ w # ws)) = seg_list (map trim us)"
  by (induction us) (auto simp: seg_list_def trim_strip)

end
