(* ===== verification/Shell_Edit.thy ===== *)
theory Shell_Edit
  imports CLib
begin

text \<open>
  The line editor of the shell (\<open>14. shell/ccsh.c\<close>, \<open>enable_raw_mode\<close> to \<open>_fgets\<close>): bytes from the
  terminal, the edited line, the draft kept while the history is walked through, and the bytes written
  to the terminal.

  Of the array \<open>buf\<close> only the first \<open>len\<close> bytes are ever read before they are written, and of \<open>draft\<close>
  the first \<open>draft_len\<close>; these are the fields \<open>line\<close> and \<open>draft\<close>. The sizes of the arrays are kept as
  guards. The history is the list of the strings in use. A small terminal (\<open>terminal\<close>) gives
  the written bytes their meaning, so that what the user sees can be compared with what is edited.
\<close>

section \<open>Terminal modes\<close>

record tflags =
  echo :: bool
  icanon :: bool
  isig :: bool

record tty =
  flags :: tflags
  original :: tflags

definition disable_raw_mode :: "tty \<Rightarrow> tty" where
  "disable_raw_mode t = t\<lparr>flags := original t\<rparr>"

definition enable_raw_mode :: "tty \<Rightarrow> tty" where
  "enable_raw_mode t =
     t\<lparr>original := flags t, flags := (flags t)\<lparr>echo := False, icanon := False, isig := False\<rparr>\<rparr>"

section \<open>The editor\<close>

abbreviation ESC :: char where "ESC \<equiv> CHR 0x1B"
abbreviation DEL :: char where "DEL \<equiv> CHR 0x7F"
abbreviation BS :: char where "BS \<equiv> CHR 0x08"
abbreviation ETX :: char where "ETX \<equiv> CHR 0x03"

definition redraw_line :: "string \<Rightarrow> string" where
  "redraw_line buf = [CR] @ ''ccsh>'' @ [ESC] @ ''[K'' @ (if length buf > 0 then buf else [])"

text \<open>The item without its line feed, copied with a terminator into an array of \<open>sz\<close> bytes.\<close>

definition load_hist_into :: "nat \<Rightarrow> string \<Rightarrow> string result" where
  "load_hist_into sz item =
     (let n = (if item \<noteq> [] \<and> last item = LF then length item - 1 else length item)
      in if n < sz then Inr (take n item) else Inl OutOfBounds)"

record editor =
  line :: string
  draft :: string
  hpos :: nat
  out :: string

definition key_up :: "nat \<Rightarrow> string list \<Rightarrow> editor \<Rightarrow> editor result" where
  "key_up sz h e =
     (if 0 < hpos e then
        ebind (if hpos e = length h
               then (if length (line e) \<le> 1024 then Inr (e\<lparr>draft := line e\<rparr>) else Inl OutOfBounds)
               else Inr e)
          (\<lambda>e1. ebind (load_hist_into sz (h ! (hpos e - 1)))
            (\<lambda>l. Inr (e1\<lparr>line := l, hpos := hpos e - 1, out := out e1 @ redraw_line l\<rparr>)))
      else Inr e)"

definition key_down :: "nat \<Rightarrow> string list \<Rightarrow> editor \<Rightarrow> editor result" where
  "key_down sz h e =
     (if hpos e < length h then
        ebind (if hpos e + 1 = length h
               then (if length (draft e) < sz then Inr (draft e) else Inl OutOfBounds)
               else load_hist_into sz (h ! (hpos e + 1)))
          (\<lambda>l. Inr (e\<lparr>line := l, hpos := hpos e + 1, out := out e @ redraw_line l\<rparr>))
      else Inr e)"

definition arrow :: "nat \<Rightarrow> string list \<Rightarrow> char \<Rightarrow> editor \<Rightarrow> editor result" where
  "arrow sz h third e =
     (if third = CHR ''A'' then key_up sz h e
      else if third = CHR ''B'' then key_down sz h e
      else Inr e)"

text \<open>
  The loop of \<open>_fgets\<close> on the bytes still to come: the returned line (\<open>None\<close> is the null pointer at end
  of input), the bytes not read and the final editor. A \<open>read\<close> that returns nothing leaves its variable
  indeterminate. The byte that ends a full line is dropped.
\<close>

fun fgets_loop :: "nat \<Rightarrow> string list \<Rightarrow> mem \<Rightarrow> editor \<Rightarrow> (string option \<times> mem \<times> editor) result" where
  "fgets_loop sz h [] e = Inr (None, [], e)"
| "fgets_loop sz h (c # s) e =
     (if c = LF \<or> sz \<le> length (line e) then
        (if length (line e) < sz
         then Inr (Some (cstr (line e)), s, e\<lparr>out := out e @ [LF]\<rparr>)
         else Inl OutOfBounds)
      else if c = DEL then
        fgets_loop sz h s
          (if line e \<noteq> [] then e\<lparr>line := butlast (line e), out := out e @ [BS, SP, BS]\<rparr> else e)
      else if c = ETX then
        fgets_loop sz h s
          (e\<lparr>line := [], draft := [], hpos := length h, out := out e @ ''^C'' @ [LF] @ ''ccsh>''\<rparr>)
      else if c = ESC then
        (case s of
           [] \<Rightarrow> Inl Uninit
         | second # s' \<Rightarrow>
             if second = CHR ''['' then
               (case s' of
                  [] \<Rightarrow> Inl Uninit
                | third # s'' \<Rightarrow> ebind (arrow sz h third e) (fgets_loop sz h s''))
             else fgets_loop sz h (drop 1 s') e)
      else fgets_loop sz h s (e\<lparr>line := line e @ [c], out := out e @ [c]\<rparr>))"

definition fgets_editor :: "string list \<Rightarrow> editor" where
  "fgets_editor h = \<lparr>line = [], draft = [], hpos = length h, out = []\<rparr>"

definition fgets_raw :: "nat \<Rightarrow> string list \<Rightarrow> tty \<Rightarrow> mem \<Rightarrow> (string option \<times> mem \<times> string \<times> tty) result" where
  "fgets_raw sz h t inp =
     (let t' = enable_raw_mode t in
      ebind (fgets_loop sz h inp (fgets_editor h)) (\<lambda>(l, r, e). Inr (l, r, out e, disable_raw_mode t')))"

section \<open>The terminal\<close>

text \<open>The row with the cursor, and the column of the cursor.\<close>

record screen =
  row :: string
  col :: nat

fun terminal :: "string \<Rightarrow> screen \<Rightarrow> screen" where
  "terminal [] s = s"
| "terminal (c # r) s =
     (if c = CR then terminal r (s\<lparr>col := 0\<rparr>)
      else if c = LF then terminal r \<lparr>row = [], col = 0\<rparr>
      else if c = BS then terminal r (s\<lparr>col := col s - 1\<rparr>)
      else if c = ESC \<and> take 2 r = ''[K'' then terminal (drop 2 r) (s\<lparr>row := take (col s) (row s)\<rparr>)
      else terminal r (s\<lparr>row := take (col s) (row s) @ [c] @ drop (col s + 1) (row s), col := col s + 1\<rparr>))"

text \<open>The row is the prompt and the line, blank from there on, with the cursor behind the line.\<close>

definition displays :: "screen \<Rightarrow> string \<Rightarrow> bool" where
  "displays s l \<longleftrightarrow> (\<exists>n. row s = ''ccsh>'' @ l @ replicate n SP) \<and> col s = 5 + length l"

section \<open>Keys\<close>

datatype key = Type char | Rubout | Interrupt | Up | Down | Side bool

fun key_bytes :: "key \<Rightarrow> mem" where
  "key_bytes (Type c) = [c]"
| "key_bytes Rubout = [DEL]"
| "key_bytes Interrupt = [ETX]"
| "key_bytes Up = [ESC, CHR ''['', CHR ''A'']"
| "key_bytes Down = [ESC, CHR ''['', CHR ''B'']"
| "key_bytes (Side b) = [ESC, CHR ''['', if b then CHR ''C'' else CHR ''D'']"

definition keys :: "key list \<Rightarrow> mem" where
  "keys ks = concat (map key_bytes ks)"

text \<open>What a key means, without arrays and bytes: the line, the draft and the position in the history.\<close>

type_synonym edit = "string \<times> string \<times> nat"

fun press :: "string list \<Rightarrow> edit \<Rightarrow> key \<Rightarrow> edit" where
  "press h (l, d, p) (Type c) = (l @ [c], d, p)"
| "press h (l, d, p) Rubout = (butlast l, d, p)"
| "press h (l, d, p) Interrupt = ([], [], length h)"
| "press h (l, d, p) Up =
     (if p = 0 then (l, d, p) else (h ! (p - 1), if p = length h then l else d, p - 1))"
| "press h (l, d, p) Down =
     (if length h \<le> p then (l, d, p) else (if p + 1 = length h then d else h ! (p + 1), d, p + 1))"
| "press h (l, d, p) (Side b) = (l, d, p)"

definition pressed :: "string list \<Rightarrow> key list \<Rightarrow> edit" where
  "pressed h ks = foldl (press h) ([], [], length h) ks"

definition printable :: "char \<Rightarrow> bool" where
  "printable c \<longleftrightarrow> 32 \<le> code_of c \<and> code_of c \<le> 126"

fun key_ok :: "key \<Rightarrow> bool" where
  "key_ok (Type c) = printable c"
| "key_ok _ = True"

text \<open>A history as \<open>history_load\<close> makes it: printable lines below 1024 bytes, each with its line feed.\<close>

definition hist_ok :: "string list \<Rightarrow> bool" where
  "hist_ok h \<longleftrightarrow> (\<forall>l \<in> set h. list_all printable l \<and> length l < 1023)"

text \<open>The line stays below the size of the buffer while the keys are typed.\<close>

definition stays_short :: "string list \<Rightarrow> key list \<Rightarrow> bool" where
  "stays_short h ks \<longleftrightarrow> (\<forall>n \<le> length ks. length (fst (pressed h (take n ks))) < 1024)"

section \<open>The editor shows what it edits\<close>

lemma printable_chars:
  "printable c \<Longrightarrow> c \<noteq> LF \<and> c \<noteq> CR \<and> c \<noteq> BS \<and> c \<noteq> ESC \<and> c \<noteq> DEL \<and> c \<noteq> ETX \<and> c \<noteq> NUL"
  by (auto simp: printable_def)

lemma printable_cstr: "list_all printable l \<Longrightarrow> is_cstr l"
  by (auto simp: is_cstr_def list_all_iff dest: printable_chars)

lemma terminal_append:
  assumes "ESC \<notin> set a"
  shows "terminal (a @ b) s = terminal b (terminal a s)"
  using assms by (induction a arbitrary: s) (auto simp: Let_def)

lemma load_line: "length l < sz \<Longrightarrow> load_hist_into sz (l @ [LF]) = Inr l"
  by (simp add: load_hist_into_def Let_def)

text \<open>One key in the editor, without its bytes and guards.\<close>

fun editor_key :: "string list \<Rightarrow> editor \<Rightarrow> key \<Rightarrow> editor" where
  "editor_key h e (Type c) = e\<lparr>line := line e @ [c], out := out e @ [c]\<rparr>"
| "editor_key h e Rubout =
     (if line e \<noteq> [] then e\<lparr>line := butlast (line e), out := out e @ [BS, SP, BS]\<rparr> else e)"
| "editor_key h e Interrupt =
     e\<lparr>line := [], draft := [], hpos := length h, out := out e @ ''^C'' @ [LF] @ ''ccsh>''\<rparr>"
| "editor_key h e Up =
     (if hpos e = 0 then e
      else e\<lparr>draft := if hpos e = length h then line e else draft e, line := h ! (hpos e - 1),
             hpos := hpos e - 1, out := out e @ redraw_line (h ! (hpos e - 1))\<rparr>)"
| "editor_key h e Down =
     (if length h \<le> hpos e then e
      else let l = if hpos e + 1 = length h then draft e else h ! (hpos e + 1) in
           e\<lparr>line := l, hpos := hpos e + 1, out := out e @ redraw_line l\<rparr>)"
| "editor_key h e (Side b) = e"

definition edit_of :: "editor \<Rightarrow> edit" where
  "edit_of e = (line e, draft e, hpos e)"

lemma edit_of_key: "edit_of (editor_key h e k) = press h (edit_of e) k"
  by (cases k) (auto simp: edit_of_def Let_def)

text \<open>The invariant of the editor between two keys, \<open>s\<close> being the screen when the editor started.\<close>

definition editor_ok :: "string list \<Rightarrow> screen \<Rightarrow> editor \<Rightarrow> bool" where
  "editor_ok h s e \<longleftrightarrow> hpos e \<le> length h \<and> length (line e) < 1024 \<and> length (draft e) < 1024 \<and>
     list_all printable (line e) \<and> list_all printable (draft e) \<and>
     (\<forall>b. terminal (out e @ b) s = terminal b (terminal (out e) s)) \<and> displays (terminal (out e) s) (line e)"

lemma editor_ok_hist:
  "hist_ok h \<Longrightarrow> p < length h \<Longrightarrow> list_all printable (h ! p) \<and> length (h ! p) < 1023"
  by (simp add: hist_ok_def)

lemma fgets_loop_key:
  assumes "hist_ok h" and "editor_ok h s e" and "key_ok k"
  shows "fgets_loop 1024 (full_lines h) (key_bytes k @ r) e = fgets_loop 1024 (full_lines h) r (editor_key h e k)"
proof -
  have nth: "full_lines h ! p = h ! p @ [LF]" if "p < length h" for p
    using that by (simp add: full_lines_def)
  have len: "length (line e) < 1024" "length (draft e) < 1024" "hpos e \<le> length h"
    using assms(2) by (simp_all add: editor_ok_def)
  show ?thesis
  proof (cases k)
    case (Type c)
    then show ?thesis using printable_chars [of c] len assms(3) by simp
  next
    case Up
    show ?thesis
    proof (cases "hpos e = 0")
      case False
      then have "hpos e - 1 < length h" using len by simp
      then show ?thesis
        using Up False len nth [of "hpos e - 1"] editor_ok_hist [OF assms(1), of "hpos e - 1"]
        by (auto simp: arrow_def key_up_def load_line)
    qed (use Up len in \<open>simp add: arrow_def key_up_def\<close>)
  next
    case Down
    show ?thesis
    proof (cases "hpos e + 1 < length h")
      case True
      then show ?thesis
        using Down len nth [of "hpos e + 1"] editor_ok_hist [OF assms(1), of "hpos e + 1"]
        by (simp add: arrow_def key_down_def load_line Let_def)
    qed (use Down len in \<open>auto simp: arrow_def key_down_def Let_def\<close>)
  qed (use len in \<open>auto simp: arrow_def\<close>)
qed

lemma terminal_printable:
  "list_all printable l \<Longrightarrow> col s = length p \<Longrightarrow> row s = p @ replicate n SP \<Longrightarrow>
     \<exists>m. row (terminal l s) = p @ l @ replicate m SP \<and> col (terminal l s) = length p + length l"
proof (induction l arbitrary: p s n)
  case Nil
  then show ?case by auto
next
  case (Cons c l)
  let ?s = "s\<lparr>row := take (col s) (row s) @ [c] @ drop (col s + 1) (row s), col := col s + 1\<rparr>"
  have "terminal (c # l) s = terminal l ?s" using Cons.prems(1) printable_chars [of c] by simp
  moreover have "row ?s = (p @ [c]) @ replicate (n - 1) SP"
    using Cons.prems(2,3) by (simp add: drop_replicate)
  ultimately show ?case using Cons.IH [of ?s "p @ [c]" "n - 1"] Cons.prems(1,2) by auto
qed

lemma printable_no_ESC: "list_all printable l \<Longrightarrow> ESC \<notin> set l"
  by (auto simp: list_all_iff dest: printable_chars)

lemma prompt_printable: "list_all printable ''ccsh>''"
  by (simp add: printable_def)

lemma terminal_redraw:
  assumes "list_all printable l"
  shows "displays (terminal (redraw_line l) s) l"
    and "terminal (redraw_line l @ b) s = terminal b (terminal (redraw_line l) s)"
proof -
  let ?s1 = "terminal ''ccsh>'' (s\<lparr>col := 0\<rparr>)"
  let ?s2 = "?s1\<lparr>row := take (col ?s1) (row ?s1)\<rparr>"
  have p: "terminal (''ccsh>'' @ x) t = terminal x (terminal ''ccsh>'' t)" for x t
    by (rule terminal_append) simp
  have all: "terminal (redraw_line l @ x) s = terminal (l @ x) ?s2" for x
  proof -
    have "terminal (redraw_line l @ x) s = terminal (''ccsh>'' @ ESC # ''[K'' @ l @ x) (s\<lparr>col := 0\<rparr>)"
      by (simp add: redraw_line_def)
    then show ?thesis unfolding p by simp
  qed
  show "terminal (redraw_line l @ b) s = terminal b (terminal (redraw_line l) s)"
    using all [of b] all [of "[]"] terminal_append [OF printable_no_ESC [OF assms], of b ?s2] by simp
  have "row ?s2 = ''ccsh>''" "col ?s2 = 5" by simp_all
  then show "displays (terminal (redraw_line l) s) l"
    using terminal_printable [OF assms, of ?s2 "''ccsh>''" 0] all [of "[]"] by (simp add: displays_def)
qed

lemma displays_type:
  assumes "displays s l" and "printable c"
  shows "displays (terminal [c] s) (l @ [c])"
proof -
  obtain n where s: "row s = (''ccsh>'' @ l) @ replicate n SP" "col s = length (''ccsh>'' @ l)"
    using assms(1) by (auto simp: displays_def)
  show ?thesis
    using terminal_printable [OF _ s(2,1), of "[c]"] assms(2) by (auto simp: displays_def simp del: terminal.simps)
qed

lemma displays_rubout:
  assumes "displays s l" and "l \<noteq> []"
  shows "displays (terminal [BS, SP, BS] s) (butlast l)"
proof -
  obtain n where s: "row s = ''ccsh>'' @ l @ replicate n SP" "col s = 5 + length l"
    using assms(1) by (auto simp: displays_def)
  obtain b c where l: "l = b @ [c]" using assms(2) by (cases l rule: rev_cases) auto
  define p where "p = ''ccsh>'' @ b"
  have "row s = p @ c # replicate n SP" "col s = Suc (length p)" using s l by (simp_all add: p_def)
  then have "row (terminal [BS, SP, BS] s) = p @ replicate (Suc n) SP" by simp
  then have "row (terminal [BS, SP, BS] s) = ''ccsh>'' @ b @ replicate (Suc n) SP" by (simp add: p_def)
  moreover have "col (terminal [BS, SP, BS] s) = 5 + length b" using s l by simp
  ultimately show ?thesis
    unfolding displays_def using l by (intro conjI exI [of _ "Suc n"]) (simp_all del: terminal.simps)
qed

lemma displays_interrupt: "displays (terminal (''^C'' @ [LF] @ ''ccsh>'') s) []"
  by (simp add: displays_def)

lemma editor_ok_emit:
  assumes "editor_ok h s e" and "\<And>x t. terminal (b @ x) t = terminal x (terminal b t)"
    and "displays (terminal b (terminal (out e) s)) l"
    and "list_all printable l" and "list_all printable d" and "length l < 1024" and "length d < 1024"
    and "p \<le> length h"
  shows "editor_ok h s (e\<lparr>draft := d, line := l, hpos := p, out := out e @ b\<rparr>)"
  using assms unfolding editor_ok_def by (simp add: append_assoc)

lemma editor_ok_key:
  assumes h: "hist_ok h" and e: "editor_ok h s e" and k: "key_ok k" and len: "length (line (editor_key h e k)) < 1024"
  shows "editor_ok h s (editor_key h e k)"
proof -
  let ?t = "terminal (out e) s"
  have ok: "hpos e \<le> length h" "length (line e) < 1024" "length (draft e) < 1024"
    "list_all printable (line e)" "list_all printable (draft e)" "displays ?t (line e)"
    using e by (simp_all add: editor_ok_def)
  show ?thesis
  proof (cases k)
    case (Type c)
    have "editor_ok h s (e\<lparr>draft := draft e, line := line e @ [c], hpos := hpos e, out := out e @ [c]\<rparr>)"
      by (rule editor_ok_emit [OF e terminal_append])
         (use ok k Type len displays_type [OF ok(6), of c] printable_chars [of c] in auto)
    then show ?thesis using Type by simp
  next
    case Rubout
    show ?thesis
    proof (cases "line e = []")
      case False
      have "list_all printable (butlast (line e))" using ok(4) by (auto simp: list_all_iff dest: in_set_butlastD)
      then have "editor_ok h s (e\<lparr>draft := draft e, line := butlast (line e), hpos := hpos e, out := out e @ [BS, SP, BS]\<rparr>)"
        using ok displays_rubout [OF ok(6) False]
        by (intro editor_ok_emit [OF e terminal_append]) (simp_all del: terminal.simps)
      then show ?thesis using Rubout False by simp
    qed (use e Rubout in simp)
  next
    case Interrupt
    have "editor_ok h s (e\<lparr>draft := [], line := [], hpos := length h, out := out e @ ''^C'' @ [LF] @ ''ccsh>''\<rparr>)"
      using ok displays_interrupt by (intro editor_ok_emit [OF e terminal_append]) (simp_all del: terminal.simps)
    then show ?thesis using Interrupt by (cases e) simp
  next
    case Up
    show ?thesis
    proof (cases "hpos e = 0")
      case False
      let ?l = "h ! (hpos e - 1)"
      have l: "list_all printable ?l" "length ?l < 1023"
        using editor_ok_hist [OF h, of "hpos e - 1"] False ok(1) by auto
      have "editor_ok h s (e\<lparr>draft := if hpos e = length h then line e else draft e, line := ?l,
          hpos := hpos e - 1, out := out e @ redraw_line ?l\<rparr>)"
        using ok l terminal_redraw [OF l(1)] by (intro editor_ok_emit [OF e]) auto
      then show ?thesis using Up False by (cases "hpos e = length h") simp_all
    qed (use e Up in simp)
  next
    case Down
    show ?thesis
    proof (cases "length h \<le> hpos e")
      case False
      let ?l = "if hpos e + 1 = length h then draft e else h ! (hpos e + 1)"
      have l: "list_all printable ?l" "length ?l < 1024"
        using editor_ok_hist [OF h, of "hpos e + 1"] False ok by auto
      have "editor_ok h s (e\<lparr>draft := draft e, line := ?l, hpos := hpos e + 1, out := out e @ redraw_line ?l\<rparr>)"
        using ok l False terminal_redraw [OF l(1)] by (intro editor_ok_emit [OF e]) auto
      then show ?thesis using Down False by (simp add: Let_def)
    qed (use e Down in simp)
  next
    case (Side b)
    then show ?thesis using e by simp
  qed
qed

definition after_keys :: "string list \<Rightarrow> key list \<Rightarrow> editor" where
  "after_keys h ks = foldl (editor_key h) (fgets_editor h) ks"

lemma edit_of_after: "edit_of (after_keys h ks) = pressed h ks"
proof -
  have "edit_of (foldl (editor_key h) e ks) = foldl (press h) (edit_of e) ks" for e
    by (induction ks arbitrary: e) (simp_all add: edit_of_key)
  then show ?thesis by (simp add: after_keys_def pressed_def fgets_editor_def edit_of_def)
qed

lemma stays_short_snoc: "stays_short h (ks @ [k]) \<Longrightarrow> stays_short h ks \<and> length (fst (pressed h (ks @ [k]))) < 1024"
proof -
  assume s: "stays_short h (ks @ [k])"
  have "length (fst (pressed h (take n ks))) < 1024" if "n \<le> length ks" for n
    using s that by (auto simp: stays_short_def dest: spec [of _ n])
  moreover have "length (fst (pressed h (ks @ [k]))) < 1024"
    using s by (auto simp: stays_short_def dest: spec [of _ "Suc (length ks)"])
  ultimately show ?thesis by (simp add: stays_short_def)
qed

lemma line_after: "line (after_keys h ks) = fst (pressed h ks)"
  using edit_of_after [of h ks] by (metis edit_of_def fst_conv)

lemma fgets_loop_keys:
  assumes "hist_ok h" and "list_all key_ok ks" and "stays_short h ks" and "displays s []"
  shows "editor_ok h s (after_keys h ks) \<and>
    (\<forall>r. fgets_loop 1024 (full_lines h) (keys ks @ r) (fgets_editor h) = fgets_loop 1024 (full_lines h) r (after_keys h ks))"
  using assms(2,3)
proof (induction ks rule: rev_induct)
  case Nil
  then show ?case using assms(4) by (simp add: after_keys_def fgets_editor_def editor_ok_def keys_def)
next
  case (snoc k ks)
  have short: "stays_short h ks" "length (fst (pressed h (ks @ [k]))) < 1024"
    using stays_short_snoc [OF snoc.prems(2)] by auto
  have a: "after_keys h (ks @ [k]) = editor_key h (after_keys h ks) k" by (simp add: after_keys_def)
  have ok: "editor_ok h s (after_keys h ks)"
    and run: "fgets_loop 1024 (full_lines h) (keys ks @ r) (fgets_editor h) = fgets_loop 1024 (full_lines h) r (after_keys h ks)" for r
    using snoc short by auto
  have k: "key_ok k" using snoc.prems(1) by simp
  have "editor_ok h s (after_keys h (ks @ [k]))"
    using editor_ok_key [OF assms(1) ok k] short(2) line_after [of h "ks @ [k]"] by (simp add: a)
  moreover have "keys (ks @ [k]) @ r = keys ks @ key_bytes k @ r" for r by (simp add: keys_def)
  ultimately show ?case using run fgets_loop_key [OF assms(1) ok k] by (simp add: a)
qed

lemma fgets_editor_full [simp]: "fgets_editor (full_lines h) = fgets_editor h"
  by (simp add: fgets_editor_def)

lemma list_all_after:
  assumes "editor_ok h s (after_keys h ks)"
  shows "cstr (fst (pressed h ks)) = fst (pressed h ks)" "length (fst (pressed h ks)) < 1024"
  using assms by (simp_all add: editor_ok_def line_after printable_cstr)

lemma tty_restored: "flags (disable_raw_mode (enable_raw_mode t)) = flags t"
  by (simp add: disable_raw_mode_def enable_raw_mode_def)

lemma fgets_raw_keys:
  assumes "hist_ok h" and "list_all key_ok ks" and "stays_short h ks"
  shows "fgets_raw 1024 (full_lines h) t (keys ks @ LF # r) =
    Inr (Some (fst (pressed h ks)), r, out (after_keys h ks) @ [LF], disable_raw_mode (enable_raw_mode t))"
proof -
  have start: "displays \<lparr>row = ''ccsh>'', col = 5\<rparr> []" by (simp add: displays_def)
  note run = fgets_loop_keys [OF assms start]
  then have "length (line (after_keys h ks)) < 1024" "cstr (line (after_keys h ks)) = line (after_keys h ks)"
    by (simp_all add: editor_ok_def printable_cstr)
  then show ?thesis using run by (simp add: fgets_raw_def Let_def line_after)
qed



lemma pressed_type: "foldl (press h) (l, d, p) (map Type w) = (l @ w, d, p)"
  by (induction w arbitrary: l) simp_all

text \<open>The line of a position and what a walk through the history does to it.\<close>

definition slot :: "string list \<Rightarrow> string \<Rightarrow> nat \<Rightarrow> string" where
  "slot h d p = (h @ [d]) ! p"

lemma slot_simps [simp]: "slot h d (length h) = d" "p < length h \<Longrightarrow> slot h d p = h ! p"
  by (simp_all add: slot_def nth_append)

lemma walk_up:
  "k \<le> length h \<Longrightarrow>
     foldl (press h) (l, d, length h) (replicate k Up) =
       (slot h l (length h - k), if k = 0 then d else l, length h - k)"
proof (induction k)
  case (Suc k)
  have "replicate (Suc k) Up = replicate k Up @ [Up]" by (simp add: replicate_append_same)
  then show ?case using Suc by (simp add: Suc_diff_le del: replicate_Suc)
qed simp

lemma press_down_slot: "p < length h \<Longrightarrow> press h (slot h d p, d, p) Down = (slot h d (Suc p), d, Suc p)"
  by auto

lemma walk_down_part:
  "p + n \<le> length h \<Longrightarrow>
     foldl (press h) (slot h d p, d, p) (replicate n Down) = (slot h d (p + n), d, p + n)"
proof (induction n arbitrary: p)
  case (Suc n)
  then have "p < length h" by simp
  then show ?case using Suc by (simp add: press_down_slot del: press.simps slot_simps)
qed simp

lemma walk_down:
  "k \<le> length h \<Longrightarrow>
     foldl (press h) (slot h d (length h - k), d, length h - k) (replicate k Down) = (d, d, length h)"
  using walk_down_part [of "length h - k" k h d] by simp

lemma pressed_walk:
  assumes "k \<le> length h"
  shows "pressed h (map Type l @ replicate k Up) = (slot h l (length h - k), if k = 0 then [] else l, length h - k)"
    and "fst (pressed h (map Type l @ replicate k Up @ replicate k Down)) = l"
proof -
  show up: "pressed h (map Type l @ replicate k Up) = (slot h l (length h - k), if k = 0 then [] else l, length h - k)"
    using assms by (simp add: pressed_def pressed_type walk_up)
  show "fst (pressed h (map Type l @ replicate k Up @ replicate k Down)) = l"
    using assms walk_down [of k h l] by (cases k) (simp_all add: pressed_def pressed_type walk_up del: replicate_Suc)
qed

lemma stays_short_append:
  assumes "stays_short h ks" and "\<forall>n \<le> length js. length (fst (pressed h (ks @ take n js))) < 1024"
  shows "stays_short h (ks @ js)"
proof -
  have "length (fst (pressed h (take n (ks @ js)))) < 1024" if "n \<le> length (ks @ js)" for n
  proof (cases "n \<le> length ks")
    case False
    then show ?thesis using assms(2) that by (auto simp: take_append dest: spec [of _ "n - length ks"])
  qed (use assms(1) in \<open>simp add: stays_short_def\<close>)
  then show ?thesis by (simp add: stays_short_def)
qed

lemma pressed_type_take: "pressed h (take n (map Type l)) = (take n l, [], length h)"
  by (simp add: pressed_def take_map pressed_type)

lemma stays_short_type: "length l < 1024 \<Longrightarrow> stays_short h (map Type l)"
  unfolding stays_short_def pressed_type_take by simp

lemma slot_short: "hist_ok h \<Longrightarrow> length l < 1024 \<Longrightarrow> p \<le> length h \<Longrightarrow> length (slot h l p) < 1024"
  using editor_ok_hist [of h p] by (cases "p = length h") auto

lemma stays_short_walk:
  assumes h: "hist_ok h" and l: "length l < 1024" and k: "k \<le> length h"
  shows "stays_short h (map Type l @ replicate k Up)"
    and "stays_short h (map Type l @ replicate k Up @ replicate k Down)"
proof -
  show up: "stays_short h (map Type l @ replicate k Up)"
  proof (rule stays_short_append [OF stays_short_type [OF l]], intro allI impI)
    fix n assume "n \<le> length (replicate k Up)"
    then have n: "n \<le> k" by simp
    then show "length (fst (pressed h (map Type l @ take n (replicate k Up)))) < 1024"
      using pressed_walk(1) [of n h l] k slot_short [OF h l] by (simp add: min_absorb1)
  qed
  have "stays_short h ((map Type l @ replicate k Up) @ replicate k Down)"
  proof (rule stays_short_append [OF up], intro allI impI)
    fix n assume "n \<le> length (replicate k Down)"
    then have n: "n \<le> k" by simp
    show "length (fst (pressed h ((map Type l @ replicate k Up) @ take n (replicate k Down)))) < 1024"
    proof (cases "k = 0")
      case False
      have "pressed h ((map Type l @ replicate k Up) @ take n (replicate k Down)) =
          foldl (press h) (pressed h (map Type l @ replicate k Up)) (replicate n Down)"
        using n by (simp add: pressed_def min_absorb1)
      then show ?thesis
        using pressed_walk(1) [OF k, of l] walk_down_part [of "length h - k" n h l] n k False slot_short [OF h l, of "length h - k + n"]
        by simp
    qed (use n l stays_short_type [OF l, of h] in \<open>simp add: pressed_def pressed_type\<close>)
  qed
  then show "stays_short h (map Type l @ replicate k Up @ replicate k Down)" by simp
qed

text \<open>C36: With \<open>k\<close> presses of the up arrow return hands out the \<open>k\<close>-th most recent command, and as many
  presses of the down arrow bring back the line typed before.\<close>

theorem history_recall:
  assumes "hist_ok h" and "list_all printable l" and "length l < 1024" and "0 < k" and "k \<le> length h"
  shows "(\<exists>o' t'. fgets_raw 1024 (full_lines h) t (keys (map Type l @ replicate k Up) @ LF # r) =
      Inr (Some (h ! (length h - k)), r, o', t')) \<and>
    (\<exists>o' t'. fgets_raw 1024 (full_lines h) t (keys (map Type l @ replicate k Up @ replicate k Down) @ LF # r) =
      Inr (Some l, r, o', t'))"
proof
  have ok: "list_all key_ok (map Type l @ replicate k Up)" "list_all key_ok (map Type l @ replicate k Up @ replicate k Down)"
    using assms(2) by (auto simp: list_all_iff)
  note short = stays_short_walk [OF assms(1,3,5)]
  show "\<exists>o' t'. fgets_raw 1024 (full_lines h) t (keys (map Type l @ replicate k Up) @ LF # r) =
      Inr (Some (h ! (length h - k)), r, o', t')"
    using fgets_raw_keys [OF assms(1) ok(1) short(1), of t r] pressed_walk(1) [OF assms(5), of l] assms(4,5) by auto
  show "\<exists>o' t'. fgets_raw 1024 (full_lines h) t (keys (map Type l @ replicate k Up @ replicate k Down) @ LF # r) =
      Inr (Some l, r, o', t')"
    using fgets_raw_keys [OF assms(1) ok(2) short(2), of t r] pressed_walk(2) [OF assms(5), of l] by auto
qed

theorem history_recall_witness:
  "\<exists>o' t'. fgets_raw 1024 [''ls'' @ [LF], ''pwd'' @ [LF]] \<lparr>flags = \<lparr>echo = True, icanon = True, isig = True\<rparr>,
        original = \<lparr>echo = True, icanon = True, isig = True\<rparr>\<rparr>
      (keys [Type (CHR ''x''), Up, Up] @ [LF]) = Inr (Some ''ls'', [], o', t')"
  using history_recall [of "[''ls'', ''pwd'']" "''x''" 2
      "\<lparr>flags = \<lparr>echo = True, icanon = True, isig = True\<rparr>, original = \<lparr>echo = True, icanon = True, isig = True\<rparr>\<rparr>" "[]"]
  by (simp add: hist_ok_def printable_def numeral_2_eq_2)

lemma fgets_loop_typed:
  "list_all printable l \<Longrightarrow> length (line e) + length l \<le> 1024 \<Longrightarrow>
     \<exists>e'. length (line e') = length (line e) + length l \<and> fgets_loop 1024 h (l @ r) e = fgets_loop 1024 h r e'"
proof (induction l arbitrary: e)
  case (Cons c l)
  let ?e = "e\<lparr>line := line e @ [c], out := out e @ [c]\<rparr>"
  have "fgets_loop 1024 h ((c # l) @ r) e = fgets_loop 1024 h (l @ r) ?e"
    using Cons.prems printable_chars [of c] by simp
  then show ?case using Cons.IH [of ?e] Cons.prems by auto
qed auto

text \<open>The test for a full line comes too late: after exactly 1024 printable characters the next byte,
  whatever it is, makes the editor store its terminator one byte behind the buffer.\<close>

lemma full_line_overflows:
  assumes "list_all printable l" and "length l = 1024"
  shows "fgets_raw 1024 h t (l @ c # r) = Inl OutOfBounds"
proof -
  obtain e' where "length (line e') = 1024" "fgets_loop 1024 h (l @ c # r) (fgets_editor h) = fgets_loop 1024 h (c # r) e'"
    using fgets_loop_typed [OF assms(1), of "fgets_editor h" h "c # r"] assms(2) by (auto simp: fgets_editor_def)
  then show ?thesis by (simp add: fgets_raw_def)
qed

lemma full_line_overflows_instance:
  "fgets_raw 1024 [] \<lparr>flags = \<lparr>echo = True, icanon = True, isig = True\<rparr>,
        original = \<lparr>echo = True, icanon = True, isig = True\<rparr>\<rparr> (replicate 1024 (CHR ''x'') @ [LF]) = Inl OutOfBounds"
  by (rule full_line_overflows) (simp_all add: list_all_iff printable_def)

end
