(* ===== verification/Shell.thy ===== *)
theory Shell
  imports Shell_Parse Shell_Edit
begin

text \<open>
  The shell (\<open>14. shell/ccsh.c\<close> and \<open>custom_cmd/cd.c\<close>): its history file, the built-in \<open>cd\<close>, the file
  descriptors of a pipeline, and the loop that reads and runs command lines.

  Parameters: \<open>dirs\<close>, what \<open>chdir\<close> makes of a working directory and a path; \<open>fds\<close>, how many descriptors
  the shell can open beside those it starts with; and the numbers \<open>pipe\<close> gives out. A program that is
  executed is only recorded: \<open>spawned\<close> holds, for each command line, what each child does. \<open>tout\<close> is
  what the shell itself writes to the terminal.
\<close>

section \<open>State\<close>

definition MAX_HISTORY :: nat where "MAX_HISTORY = 1000"

datatype action = Listing string | Chdir "string option" | Exec "string list"

record shell =
  history :: "string list"
  hfile :: "mem option"
  leaked :: nat
  cwd :: string
  env :: "string \<Rightarrow> string option"
  spawned :: "action result list list"
  tout :: string

section \<open>History\<close>

text \<open>The stream opened by \<open>history_load\<close> is never closed: \<open>leaked\<close> counts them.\<close>

definition history_load :: "nat \<Rightarrow> shell \<Rightarrow> shell result" where
  "history_load fds s =
     (case (if leaked s < fds then hfile s else None) of
        None \<Rightarrow> Inr (s\<lparr>history := []\<rparr>)
      | Some f \<Rightarrow>
          let ls = fgets_all 1024 f in
          if length ls \<le> MAX_HISTORY
          then Inr (s\<lparr>history := map cstr ls, leaked := leaked s + 1\<rparr>)
          else Inl OutOfBounds)"

definition history_add :: "nat \<Rightarrow> string \<Rightarrow> shell \<Rightarrow> shell result" where
  "history_add fds cmd s =
     history_load fds
       (if leaked s < fds
        then s\<lparr>hfile := Some ((case hfile s of None \<Rightarrow> [] | Some f \<Rightarrow> f) @ cmd @ [LF])\<rparr>
        else s)"

definition int_str5 :: "int \<Rightarrow> string" where
  "int_str5 i = replicate (5 - length (int_str i)) SP @ int_str i"

fun history_listing :: "int \<Rightarrow> string list \<Rightarrow> string" where
  "history_listing seq_no [] = []"
| "history_listing seq_no (h # hs) = int_str5 seq_no @ [TAB] @ h @ history_listing (seq_no + 1) hs"

section \<open>Changing the directory\<close>

definition trim_spaces_newlines :: "string \<Rightarrow> string option" where
  "trim_spaces_newlines cmd =
     (let l = skip_blanks cmd;
          r = int (length cmd) - 1 - skip_blanks (rev cmd);
          len = r - l + 1
      in if len \<le> 0 then None else Some (take (nat len) (drop (nat l) cmd)))"

text \<open>The returned number and the shell; \<open>getcwd\<close> needs room for the terminator in its 1000 bytes.\<close>

definition cd :: "(string \<Rightarrow> string \<Rightarrow> string option) \<Rightarrow> string option \<Rightarrow> shell \<Rightarrow> (int \<times> shell) result" where
  "cd dirs tdir s =
     (case (if tdir = None \<or> tdir = Some ''~'' then env s ''HOME'' else tdir) of
        None \<Rightarrow> Inl NullDeref
      | Some d \<Rightarrow>
          let target = (if d = ''-'' then env s ''OLDPWD'' else Some d) in
          if \<not> length (cwd s) < 1000 then Inr (1, s)
          else (case (case target of None \<Rightarrow> None | Some p \<Rightarrow> dirs (cwd s) p) of
              None \<Rightarrow> Inr (1, s)
            | Some w \<Rightarrow>
                let env1 = (env s)(''OLDPWD'' \<mapsto> cwd s) in
                Inr (0, s\<lparr>cwd := w, env := if length w < 1000 then env1(''PWD'' \<mapsto> w) else env1\<rparr>)))"

definition exec_cd :: "(string \<Rightarrow> string \<Rightarrow> string option) \<Rightarrow> string option \<Rightarrow> shell \<Rightarrow> shell result" where
  "exec_cd dirs path s =
     (case path of
        None \<Rightarrow> Inl NullDeref
      | Some p \<Rightarrow> ebind (cd dirs (trim_spaces_newlines p) s) (\<lambda>(_, s'). Inr s'))"

section \<open>One command of a pipeline\<close>

definition arg1 :: "string list \<Rightarrow> string option" where
  "arg1 args = (if 1 < length args then Some (args ! 1) else None)"

definition execute_cmd :: "string list \<Rightarrow> string \<Rightarrow> action result" where
  "execute_cmd h cmd =
     ebind (build_args cmd) (\<lambda>args.
       case args of
         [] \<Rightarrow> Inl NullDeref
       | a # _ \<Rightarrow>
           if caseeq a ''history'' then Inr (Listing (history_listing 1 h))
           else ebind (is_cd_cmd args) (\<lambda>b.
             if b then Inr (Chdir (arg1 args)) else Inr (Exec args)))"

section \<open>File descriptors of a pipeline\<close>

datatype fdobj = Tty | PipeR nat | PipeW nat | Stream

type_synonym fdtable = "nat \<Rightarrow> fdobj option"

definition dup2 :: "nat \<Rightarrow> nat \<Rightarrow> fdtable \<Rightarrow> fdtable" where
  "dup2 old new t = (case t old of None \<Rightarrow> t | Some x \<Rightarrow> t(new \<mapsto> x))"

fun open_pipes :: "nat \<Rightarrow> (nat \<times> nat) list \<Rightarrow> fdtable \<Rightarrow> fdtable" where
  "open_pipes j [] t = t"
| "open_pipes j ((r, w) # pf) t = open_pipes (j + 1) pf (t(r \<mapsto> PipeR j, w \<mapsto> PipeW j))"

fun close_pipes :: "(nat \<times> nat) list \<Rightarrow> fdtable \<Rightarrow> fdtable" where
  "close_pipes [] t = t"
| "close_pipes ((r, w) # pf) t = close_pipes pf (t(r := None, w := None))"

text \<open>The table child \<open>i\<close> runs its command with, and the table the shell waits with.\<close>

definition child_fds :: "(nat \<times> nat) list \<Rightarrow> fdtable \<Rightarrow> nat \<Rightarrow> fdtable" where
  "child_fds pf t i =
     (let sc = length pf;
          t1 = (if 0 < i then dup2 (fst (pf ! (i - 1))) 0 t else t);
          t2 = (if i < sc - 1 then dup2 (snd (pf ! i)) 1 t1 else t1)
      in close_pipes pf t2)"

definition pipeline_fds :: "(nat \<times> nat) list \<Rightarrow> fdtable \<Rightarrow> fdtable list \<times> fdtable" where
  "pipeline_fds pf t =
     (let t' = open_pipes 0 pf t in (map (child_fds pf t') [0..<length pf], close_pipes pf t'))"

text \<open>
  What the children do. A fault in a child ends that child only. An array of no elements, for a command
  line without a segment, is not allowed.
\<close>

definition handle_cmd :: "string option list \<Rightarrow> shell \<Rightarrow> shell result" where
  "handle_cmd v s =
     (let segs = seg_list v in
      if segs = [] then Inl OutOfBounds
      else Inr (s\<lparr>spawned := spawned s @ [map (execute_cmd (history s)) segs]\<rparr>))"

section \<open>The shell\<close>

text \<open>One turn of the loop, and whether it ends the shell.\<close>

definition run_line :: "nat \<Rightarrow> (string \<Rightarrow> string \<Rightarrow> string option) \<Rightarrow> string \<Rightarrow> shell \<Rightarrow> (bool \<times> shell) result" where
  "run_line fds dirs buf s =
     (case trim buf of
        None \<Rightarrow> Inr (False, s)
      | Some cmd \<Rightarrow>
          ebind (history_add fds cmd s) (\<lambda>s1.
            if caseeq cmd ''exit'' then Inr (True, s1)
            else ebind (build_args cmd) (\<lambda>args. ebind (is_cd_cmd args) (\<lambda>b.
              if b then ebind (exec_cd dirs (arg1 args) s1) (\<lambda>s2. Inr (False, s2))
              else ebind (extract_segments cmd) (\<lambda>v.
                ebind (handle_cmd v s1) (\<lambda>s2. Inr (False, s2)))))))"

abbreviation prompt :: string where "prompt \<equiv> LF # ''ccsh>''"

definition say :: "string \<Rightarrow> shell \<Rightarrow> shell" where
  "say w s = s\<lparr>tout := tout s @ w\<rparr>"

lemma fgets_loop_shorter: "fgets_loop sz h inp e = Inr (Some l, r, e') \<Longrightarrow> length r < length inp"
  by (induction sz h inp e rule: fgets_loop.induct)
     (auto simp: result_inv split: if_splits list.splits, fastforce+)

lemma fgets_raw_shorter: "fgets_raw sz h t inp = Inr (Some l, r, x) \<Longrightarrow> length r < length inp"
  by (auto simp: fgets_raw_def result_inv Let_def dest: fgets_loop_shorter)

function process_input ::
  "nat \<Rightarrow> (string \<Rightarrow> string \<Rightarrow> string option) \<Rightarrow> tty \<Rightarrow> mem \<Rightarrow> shell \<Rightarrow> (shell \<times> tty) result" where
  "process_input fds dirs t inp s =
     ebind (fgets_raw 1024 (history s) t inp) (\<lambda>(l, r, w, t').
       case l of
         None \<Rightarrow> Inr (say w s, t')
       | Some buf \<Rightarrow>
           ebind (run_line fds dirs buf (say w s)) (\<lambda>(quit, s').
             if quit then Inr (s', t') else process_input fds dirs t' r (say prompt s')))"
  by pat_completeness auto

termination
  by (relation "measure (\<lambda>(fds, dirs, t, inp, s). length inp)") (auto dest: fgets_raw_shorter)

declare process_input.simps [simp del]

definition shell_main ::
  "nat \<Rightarrow> (string \<Rightarrow> string \<Rightarrow> string option) \<Rightarrow> tty \<Rightarrow> mem \<Rightarrow> shell \<Rightarrow> (shell \<times> tty) result" where
  "shell_main fds dirs t inp s =
     ebind (history_load fds s) (\<lambda>s'. process_input fds dirs t inp (say prompt s'))"

section \<open>Pipelines are wired exactly\<close>

definition ends :: "(nat \<times> nat) list \<Rightarrow> nat list" where
  "ends pf = map fst pf @ map snd pf"

text \<open>What \<open>pipe\<close> promises: new numbers, each given out once. The shell starts with the three standard
  descriptors and with no pipe open.\<close>

definition pipes_fresh :: "(nat \<times> nat) list \<Rightarrow> fdtable \<Rightarrow> bool" where
  "pipes_fresh pf t \<longleftrightarrow> distinct (ends pf) \<and> (\<forall>n \<in> set (ends pf). t n = None)"

definition std_fds :: "fdtable \<Rightarrow> bool" where
  "std_fds t \<longleftrightarrow> t 0 = Some Tty \<and> t 1 = Some Tty \<and> (\<forall>n x. t n = Some x \<longrightarrow> x = Tty \<or> x = Stream)"

lemma close_pipes_eq: "close_pipes pf t n = (if n \<in> set (ends pf) then None else t n)"
proof (induction pf arbitrary: t)
  case (Cons p pf)
  then show ?case by (cases p) (simp add: ends_def)
qed (simp add: ends_def)

lemma open_pipes_other: "n \<notin> set (ends pf) \<Longrightarrow> open_pipes j pf t n = t n"
proof (induction pf arbitrary: j t)
  case (Cons p pf)
  then show ?case by (cases p) (simp add: ends_def)
qed (simp add: ends_def)

lemma open_pipes_ends:
  "distinct (ends pf) \<Longrightarrow> i < length pf \<Longrightarrow>
     open_pipes j pf t (fst (pf ! i)) = Some (PipeR (j + i)) \<and> open_pipes j pf t (snd (pf ! i)) = Some (PipeW (j + i))"
proof (induction pf arbitrary: i j t)
  case (Cons p pf)
  obtain r w where p: "p = (r, w)" by fastforce
  have d: "distinct (ends pf)" "r \<notin> set (ends pf)" "w \<notin> set (ends pf)" "r \<noteq> w"
    using Cons.prems(1) p by (auto simp: ends_def)
  show ?case
  proof (cases i)
    case 0
    then show ?thesis using d p by (simp add: open_pipes_other)
  next
    case (Suc k)
    then show ?thesis using Cons.IH [OF d(1), of k "j + 1"] Cons.prems(2) p by simp
  qed
qed simp

lemma child_table:
  assumes pf: "pipes_fresh pf t" and t: "t 0 = Some x" "t 1 = Some y" and i: "i < length pf"
  shows "child_fds pf (open_pipes 0 pf t) i =
    t(0 \<mapsto> if 0 < i then PipeR (i - 1) else x, 1 \<mapsto> if i < length pf - 1 then PipeW i else y)"
proof
  fix n
  let ?o = "open_pipes 0 pf t"
  have d: "distinct (ends pf)" and none: "\<And>n. n \<in> set (ends pf) \<Longrightarrow> t n = None"
    using pf by (auto simp: pipes_fresh_def)
  have std: "0 \<notin> set (ends pf)" "1 \<notin> set (ends pf)" using none t by auto
  have "snd (pf ! i) \<noteq> 0" using std i by (auto simp: ends_def)
  moreover have "?o (fst (pf ! (i - 1))) = Some (PipeR (i - 1))" "?o (snd (pf ! i)) = Some (PipeW i)"
    using open_pipes_ends [OF d, of "i - 1" 0 t] open_pipes_ends [OF d, of i 0 t] i by auto
  ultimately show "child_fds pf ?o i n =
      (t(0 \<mapsto> if 0 < i then PipeR (i - 1) else x, 1 \<mapsto> if i < length pf - 1 then PipeW i else y)) n"
    using std t none [of n] open_pipes_other [of n pf 0 t]
    by (auto simp: child_fds_def Let_def dup2_def close_pipes_eq open_pipes_other)
qed

lemma parent_table: "pipes_fresh pf t \<Longrightarrow> close_pipes pf (open_pipes 0 pf t) = t"
  by (rule ext) (auto simp: close_pipes_eq open_pipes_other pipes_fresh_def)

text \<open>C24: In a pipeline of \<open>n\<close> commands the first reads the terminal, the last writes to it, command \<open>i\<close>
  writes to the pipe command \<open>i + 1\<close> reads; no process but these two holds an end of that pipe (the
  shell holds none), so that each reader sees its end of file.\<close>

theorem pipeline_wired:
  assumes "pipes_fresh pf t" and "std_fds t" and "pipeline_fds pf t = (children, parent)"
  shows "length children = length pf \<and> parent = t \<and>
    (\<forall>i < length pf.
       (children ! i) 0 = Some (if i = 0 then Tty else PipeR (i - 1)) \<and>
       (children ! i) 1 = Some (if i = length pf - 1 then Tty else PipeW i) \<and>
       (\<forall>n j. (children ! i) n = Some (PipeR j) \<longrightarrow> n = 0 \<and> i = j + 1) \<and>
       (\<forall>n j. (children ! i) n = Some (PipeW j) \<longrightarrow> n = 1 \<and> i = j))"
proof -
  have p: "parent = t" and c: "children = map (child_fds pf (open_pipes 0 pf t)) [0..<length pf]"
    using assms(3) parent_table [OF assms(1)] by (auto simp: pipeline_fds_def Let_def)
  have t: "t 0 = Some Tty" "t 1 = Some Tty" "\<And>n j. t n \<noteq> Some (PipeR j)" "\<And>n j. t n \<noteq> Some (PipeW j)"
    using assms(2) by (auto simp: std_fds_def)
  have "(children ! i) = t(0 \<mapsto> if 0 < i then PipeR (i - 1) else Tty, 1 \<mapsto> if i < length pf - 1 then PipeW i else Tty)"
    if "i < length pf" for i
    using child_table [OF assms(1) t(1,2) that] that by (simp add: c)
  then show ?thesis using t by (auto simp: p c split: if_splits)
qed

theorem pipeline_wired_witness:
  "\<exists>a b c. pipeline_fds [(3, 4), (5, 6), (7, 8)] [0 \<mapsto> Tty, 1 \<mapsto> Tty, 2 \<mapsto> Tty] =
       ([a, b, c], [0 \<mapsto> Tty, 1 \<mapsto> Tty, 2 \<mapsto> Tty]) \<and>
     b 0 = Some (PipeR 0) \<and> b 1 = Some (PipeW 1) \<and> c 0 = Some (PipeR 1) \<and> c 1 = Some Tty"
proof -
  let ?t = "[0 \<mapsto> Tty, 1 \<mapsto> Tty, 2 \<mapsto> Tty] :: fdtable" and ?pf = "[(3, 4), (5, 6), (7, 8)] :: (nat \<times> nat) list"
  obtain cs p where r: "pipeline_fds ?pf ?t = (cs, p)" by fastforce
  have "pipes_fresh ?pf ?t" "std_fds ?t" by (simp_all add: pipes_fresh_def ends_def std_fds_def)
  note w = pipeline_wired [OF this r]
  then obtain a b c where cs: "cs = [a, b, c]" by (auto simp: length_Suc_conv numeral_3_eq_3)
  have e: "(cs ! 1) 0 = Some (PipeR 0)" "(cs ! 1) 1 = Some (PipeW 1)" "(cs ! 2) 0 = Some (PipeR 1)" "(cs ! 2) 1 = Some Tty"
    using w [THEN conjunct2, THEN conjunct2, THEN spec, of 1] w [THEN conjunct2, THEN conjunct2, THEN spec, of 2] by simp_all
  have "pipeline_fds ?pf ?t = ([a, b, c], ?t)" using r cs w [THEN conjunct2, THEN conjunct1] by (simp only:)
  moreover have "b 0 = Some (PipeR 0)" "b 1 = Some (PipeW 1)" "c 0 = Some (PipeR 1)" "c 1 = Some Tty"
    using e by (simp_all add: cs)
  ultimately show ?thesis by blast
qed

section \<open>A session\<close>

text \<open>A command line is a list of segments, each a list of words, written with one blank between words and
  around bars.\<close>

fun barred :: "string list list \<Rightarrow> string list" where
  "barred [] = []"
| "barred [s] = s"
| "barred (s # ss) = s @ [[BAR]] @ barred ss"

definition text_line :: "string list list \<Rightarrow> string" where
  "text_line p = unwords (barred p)"

definition plain_word :: "string \<Rightarrow> bool" where
  "plain_word w \<longleftrightarrow> word w \<and> list_all printable w \<and> BAR \<notin> set w"

definition plain_segment :: "string list \<Rightarrow> bool" where
  "plain_segment s \<longleftrightarrow> s \<noteq> [] \<and> list_all plain_word s \<and> length s < 100 \<and> length (unwords s) < 126 \<and>
     \<not> caseeq (hd s) ''history'' \<and> hd s \<noteq> ''cd''"

definition plain_pipeline :: "string list list \<Rightarrow> bool" where
  "plain_pipeline p \<longleftrightarrow> p \<noteq> [] \<and> length p < 16 \<and> list_all plain_segment p \<and>
     length (barred p) < 100 \<and> length (text_line p) < 1023 \<and> \<not> caseeq (text_line p) ''exit''"

fun pads :: "bool \<Rightarrow> string list \<Rightarrow> string list" where
  "pads f [] = []"
| "pads f [w] = [if f then w else SP # w]"
| "pads f (w # x # ws) = ((if f then w else SP # w) @ [SP]) # pads False (x # ws)"

lemma unwords_append: "a \<noteq> [] \<Longrightarrow> b \<noteq> [] \<Longrightarrow> unwords (a @ b) = unwords a @ SP # unwords b"
proof (induction a rule: unwords.induct)
  case (2 w)
  then show ?case by (cases b) simp_all
qed simp_all

lemma barred_nonempty: "p \<noteq> [] \<Longrightarrow> list_all plain_segment p \<Longrightarrow> barred p \<noteq> []"
  by (cases p rule: barred.cases) (simp_all add: plain_segment_def)

lemma unwords_barred:
  "list_all plain_segment p \<Longrightarrow> p \<noteq> [] \<Longrightarrow>
     (if f then [] else [SP]) @ unwords (barred p) = unbars (pads f (map unwords p))"
proof (induction p arbitrary: f rule: barred.induct)
  case (3 s t ss)
  have ne: "s \<noteq> []" "barred (t # ss) \<noteq> []"
    using 3(2) barred_nonempty [of "t # ss"] by (simp_all add: plain_segment_def [of s])
  have "unwords (barred (s # t # ss)) = unwords s @ SP # BAR # SP # unwords (barred (t # ss))"
    using ne by (cases "barred (t # ss)") (simp_all add: unwords_append)
  moreover have "unbars (pads False (map unwords (t # ss))) = SP # unwords (barred (t # ss))"
    using 3(1) [of False] 3(2) by simp
  moreover have "unbars (x # pads False (map unwords (t # ss))) = x @ BAR # unbars (pads False (map unwords (t # ss)))" for x
    by (cases ss) simp_all
  ultimately show ?case by simp
qed simp_all

lemma plain_word_chars: "plain_word w \<Longrightarrow> w \<noteq> [] \<and> (\<forall>c \<in> set w. \<not> blank c \<and> c \<noteq> BAR \<and> printable c)"
  by (auto simp: plain_word_def word_def is_sep_def blank_def list_all_iff)

lemma set_unwords: "c \<in> set (unwords ws) \<Longrightarrow> c = SP \<or> (\<exists>w \<in> set ws. c \<in> set w)"
  by (induction ws rule: unwords.induct) auto

lemma unwords_nonempty: "ws \<noteq> [] \<Longrightarrow> list_all plain_word ws \<Longrightarrow> unwords ws \<noteq> []"
  by (cases ws rule: unwords.cases) (auto dest: plain_word_chars)

lemma trimmed_unwords: "ws \<noteq> [] \<Longrightarrow> list_all plain_word ws \<Longrightarrow> trimmed (unwords ws)"
proof (induction ws rule: unwords.induct)
  case (2 w)
  then show ?case using plain_word_chars [of w] by (simp add: trimmed_def)
next
  case (3 w x ws)
  then have "trimmed (unwords (x # ws))" "w \<noteq> []" "\<not> blank (hd w)" using plain_word_chars [of w] by auto
  then show ?case by (simp add: trimmed_def hd_append)
qed simp

lemma strip_pad: "trimmed w \<Longrightarrow> strip (SP # w) = w \<and> strip (w @ [SP]) = w \<and> strip (SP # w @ [SP]) = w"
proof -
  assume w: "trimmed w"
  then have d: "dropWhile blank w = w" "dropWhile blank (w @ [SP]) = w @ [SP]" "dropWhile blank (rev w) = rev w"
    by (simp_all add: trimmed_def dropWhile_hd hd_rev)
  then show ?thesis by (simp add: strip_def blank_def)
qed

lemma pads_strip:
  "list_all trimmed ws \<Longrightarrow> map strip (pads f ws) = ws"
  by (induction f ws rule: pads.induct) (simp_all add: strip_pad strip_trimmed)

lemma pads_bounds:
  "\<forall>w \<in> set ws. w \<noteq> [] \<and> BAR \<notin> set w \<and> length w < 126 \<Longrightarrow> list_all segment (pads f ws)"
  by (induction f ws rule: pads.induct) (auto simp: segment_def)

lemma pads_nonblank: "list_all trimmed ws \<Longrightarrow> \<forall>w \<in> set (pads f ws). \<exists>c \<in> set w. \<not> blank c"
  by (induction f ws rule: pads.induct) (auto simp: trimmed_def)

lemma length_pads: "length (pads f ws) = length ws"
  by (induction f ws rule: pads.induct) simp_all

lemma plain_segment_text:
  assumes "plain_segment s"
  shows "trimmed (unwords s)" "unwords s \<noteq> []" "BAR \<notin> set (unwords s)" "length (unwords s) < 126"
proof -
  have s: "s \<noteq> []" "list_all plain_word s" using assms by (auto simp: plain_segment_def)
  show "trimmed (unwords s)" by (rule trimmed_unwords [OF s])
  show "unwords s \<noteq> []" by (rule unwords_nonempty [OF s])
  show "BAR \<notin> set (unwords s)"
    using s(2) set_unwords [of BAR s] plain_word_chars by (auto simp: list_all_iff)
  show "length (unwords s) < 126" using assms by (simp add: plain_segment_def)
qed

lemma segments_of_line:
  assumes "plain_pipeline p"
  shows "\<exists>v. extract_segments (text_line p) = Inr v \<and> seg_list v = map unwords p"
proof -
  have p: "p \<noteq> []" "length p < 16" "list_all plain_segment p" using assms by (auto simp: plain_pipeline_def)
  let ?ws = "pads True (map unwords p)"
  have t: "list_all trimmed (map unwords p)" using p(3) plain_segment_text by (auto simp: list_all_iff)
  have "text_line p = unbars ?ws" using unwords_barred [OF p(3,1), of True] by (simp add: text_line_def)
  moreover have "list_all segment ?ws" using p(3) plain_segment_text by (intro pads_bounds) (auto simp: list_all_iff)
  ultimately have "extract_segments (text_line p) = Inr (map trim ?ws)"
    using extract_segments_parts [of ?ws] p(2) by (simp add: list_all_iff length_pads)
  moreover have "seg_list (map trim ?ws) = map unwords p"
    using seg_list_trimmed [OF pads_nonblank [OF t]] pads_strip [OF t] by simp
  ultimately show ?thesis by blast
qed

lemma execute_plain:
  assumes "plain_segment s"
  shows "execute_cmd h (unwords s) = Inr (Exec s)"
proof -
  have s: "s \<noteq> []" "\<forall>w \<in> set s. word w" "length s < 100" "\<not> caseeq (hd s) ''history''" "hd s \<noteq> ''cd''"
    using assms by (auto simp: plain_segment_def plain_word_def list_all_iff)
  have "build_args (unwords s) = Inr s" by (rule build_args_words [OF s(2,3)])
  then show ?thesis using s by (cases s) (simp_all add: execute_cmd_def is_cd_cmd_def)
qed

lemma barred_words: "list_all plain_segment p \<Longrightarrow> \<forall>w \<in> set (barred p). word w \<and> list_all printable w \<and> w \<noteq> []"
proof (induction p rule: barred.induct)
  case (3 s t ss)
  then show ?case
    by (auto simp: plain_segment_def [of s] plain_word_def list_all_iff word_def is_sep_def printable_def)
qed (auto simp: plain_segment_def plain_word_def list_all_iff word_def)

lemma hd_barred: "list_all plain_segment p \<Longrightarrow> p \<noteq> [] \<Longrightarrow> hd (barred p) \<noteq> ''cd''"
  by (cases p rule: barred.cases) (auto simp: plain_segment_def)

lemma line_args:
  assumes "plain_pipeline p"
  shows "\<exists>args. build_args (text_line p) = Inr args \<and> is_cd_cmd args = Inr False"
proof -
  have p: "p \<noteq> []" "list_all plain_segment p" "length (barred p) < 100" using assms by (auto simp: plain_pipeline_def)
  have "build_args (text_line p) = Inr (barred p)"
    unfolding text_line_def by (rule build_args_words) (use barred_words [OF p(2)] p(3) in auto)
  moreover have "is_cd_cmd (barred p) = Inr False"
    using hd_barred [OF p(2,1)] barred_nonempty [OF p(1,2)] by (cases "barred p") (auto simp: is_cd_cmd_def)
  ultimately show ?thesis by blast
qed

lemma line_text:
  assumes "plain_pipeline p"
  shows "list_all printable (text_line p)" "trimmed (text_line p)" "length (text_line p) < 1023"
    "\<not> caseeq (text_line p) ''exit''"
proof -
  have p: "p \<noteq> []" "list_all plain_segment p" using assms by (auto simp: plain_pipeline_def)
  show "list_all printable (text_line p)"
    using barred_words [OF p(2)] set_unwords [of _ "barred p"]
    by (fastforce simp: text_line_def list_all_iff printable_def)
  have "trimmed (unwords ws)" if "ws \<noteq> []" "\<forall>w \<in> set ws. w \<noteq> [] \<and> word w" for ws
    using that
  proof (induction ws rule: unwords.induct)
    case (2 w)
    then show ?case by (cases w; cases w rule: rev_cases) (auto simp: trimmed_def word_def is_sep_def blank_def)
  next
    case (3 w x ws)
    then have "trimmed (unwords (x # ws))" "\<not> blank (hd w)" "w \<noteq> []"
      by (auto simp: word_def is_sep_def blank_def)
    then show ?case by (simp add: trimmed_def hd_append)
  qed simp
  then show "trimmed (text_line p)"
    using barred_words [OF p(2)] barred_nonempty [OF p] by (simp add: text_line_def)
  show "length (text_line p) < 1023" "\<not> caseeq (text_line p) ''exit''" using assms by (simp_all add: plain_pipeline_def)
qed

lemma hist_ok_plain_lines: "hist_ok h \<Longrightarrow> plain_lines 1024 h"
  by (auto simp: hist_ok_def plain_lines_def list_all_iff dest: printable_chars)

lemma history_load_text:
  assumes "hfile s = Some (text_of h)" and "hist_ok h" and "length h \<le> MAX_HISTORY" and "leaked s < fds"
  shows "history_load fds s = Inr (s\<lparr>history := full_lines h, leaked := leaked s + 1\<rparr>)"
  using assms hist_ok_plain_lines [OF assms(2)]
  by (simp add: history_load_def fgets_all_text cstr_lines)

lemma history_add_text:
  assumes "hfile s = Some (text_of h)" and "hist_ok (h @ [c])" and "length h < MAX_HISTORY" and "leaked s < fds"
  shows "history_add fds c s =
    Inr (s\<lparr>hfile := Some (text_of (h @ [c])), history := full_lines (h @ [c]), leaked := leaked s + 1\<rparr>)"
  using assms history_load_text [of "s\<lparr>hfile := Some (text_of (h @ [c]))\<rparr>" "h @ [c]" fds]
  by (simp add: history_add_def text_of_def)

lemma run_plain:
  assumes p: "plain_pipeline p" and "hfile s = Some (text_of h)" and "hist_ok h"
    and "length h < MAX_HISTORY" and "leaked s < fds"
  shows "\<exists>s'. run_line fds dirs (text_line p) s = Inr (False, s') \<and>
    history s' = full_lines (h @ [text_line p]) \<and> hfile s' = Some (text_of (h @ [text_line p])) \<and>
    leaked s' = leaked s + 1 \<and> spawned s' = spawned s @ [map (\<lambda>w. Inr (Exec w)) p]"
proof -
  note c = line_text [OF p]
  have "hist_ok (h @ [text_line p])" using assms(3) c by (simp add: hist_ok_def)
  note add = history_add_text [OF assms(2) this assms(4,5)]
  obtain args where a: "build_args (text_line p) = Inr args" "is_cd_cmd args = Inr False" using line_args [OF p] by blast
  obtain v where v: "extract_segments (text_line p) = Inr v" "seg_list v = map unwords p" using segments_of_line [OF p] by blast
  have "map (execute_cmd x) (map unwords p) = map (\<lambda>w. Inr (Exec w)) p" for x
    using p by (auto simp: plain_pipeline_def list_all_iff execute_plain)
  moreover have "p \<noteq> []" using p by (simp add: plain_pipeline_def)
  ultimately show ?thesis
    using c a v add by (simp add: run_line_def handle_cmd_def)
qed

lemma keys_type: "keys (map Type l) = l"
  by (simp add: keys_def comp_def)

lemma fgets_raw_typed:
  assumes "hist_ok h" and "list_all printable l" and "length l < 1024"
  shows "\<exists>w. fgets_raw 1024 (full_lines h) t (l @ LF # r) =
    Inr (Some l, r, w, disable_raw_mode (enable_raw_mode t))"
proof -
  have "list_all key_ok (map Type l)" using assms(2) by (simp add: list_all_iff)
  from fgets_raw_keys [OF assms(1) this stays_short_type [OF assms(3)], of t r] show ?thesis
    using pressed_walk(1) [of 0 h l] by (simp add: keys_type)
qed

lemma say_simps [simp]:
  "history (say w s) = history s" "hfile (say w s) = hfile s" "leaked (say w s) = leaked s" "spawned (say w s) = spawned s"
  by (simp_all add: say_def)

lemma process_plain:
  assumes "history s = full_lines h" and "hfile s = Some (text_of h)" and "hist_ok h"
    and "list_all plain_pipeline ps" and "length h + length ps \<le> MAX_HISTORY" and "leaked s + length ps \<le> fds"
  shows "\<exists>s' t'. process_input fds dirs t (text_of (map text_line ps)) s = Inr (s', t') \<and>
    history s' = full_lines (h @ map text_line ps) \<and> hfile s' = Some (text_of (h @ map text_line ps)) \<and>
    spawned s' = spawned s @ map (map (\<lambda>w. Inr (Exec w))) ps \<and> flags t' = flags t"
  using assms
proof (induction ps arbitrary: h s t)
  case Nil
  then show ?case
    by (subst process_input.simps)
       (simp add: text_of_def fgets_raw_def fgets_editor_def Let_def tty_restored)
next
  case (Cons p ps)
  have p: "plain_pipeline p" using Cons.prems(4) by simp
  note c = line_text [OF p]
  have tl: "text_of (map text_line (p # ps)) = text_line p @ LF # text_of (map text_line ps)" by (simp add: text_of_def)
  obtain w where get: "fgets_raw 1024 (full_lines h) t (text_of (map text_line (p # ps))) =
      Inr (Some (text_line p), text_of (map text_line ps), w, disable_raw_mode (enable_raw_mode t))"
    unfolding tl using fgets_raw_typed [OF Cons.prems(3) c(1)] c(3) by fastforce
  obtain s1 where s1: "run_line fds dirs (text_line p) (say w s) = Inr (False, s1)"
    "history s1 = full_lines (h @ [text_line p])" "hfile s1 = Some (text_of (h @ [text_line p]))"
    "leaked s1 = leaked s + 1" "spawned s1 = spawned s @ [map (\<lambda>w. Inr (Exec w)) p]"
    using run_plain [OF p, of "say w s" h fds dirs] Cons.prems by auto
  have ok: "hist_ok (h @ [text_line p])" using Cons.prems(3) c by (simp add: hist_ok_def)
  show ?case
    using Cons.IH [of "say prompt s1" "h @ [text_line p]" "disable_raw_mode (enable_raw_mode t)"] s1 ok Cons.prems get
    by (subst process_input.simps) (simp add: tty_restored)
qed



text \<open>\<open>cd -\<close> undoes \<open>cd d\<close>: when \<open>d\<close> leads to a directory and the absolute path of the current one
  leads back to it, the working directory is the old one again and \<open>PWD\<close> and \<open>OLDPWD\<close> have changed
  places.\<close>

lemma cd_back:
  assumes "trimmed d" and "d \<noteq> ''~''" and "d \<noteq> ''-''"
    and "dirs (cwd s) d = Some w" and "dirs w (cwd s) = Some (cwd s)"
    and "length (cwd s) < 1000" and "length w < 1000"
  shows "\<exists>s1 s2. exec_cd dirs (Some d) s = Inr s1 \<and> cwd s1 = w \<and> env s1 ''PWD'' = Some w \<and>
    exec_cd dirs (Some ''-'') s1 = Inr s2 \<and> cwd s2 = cwd s \<and> env s2 ''PWD'' = Some (cwd s) \<and> env s2 ''OLDPWD'' = Some w"
proof -
  have same: "trim_spaces_newlines x = trim x" for x by (simp add: trim_spaces_newlines_def trim_def)
  have t: "trim_spaces_newlines d = Some d" "trim_spaces_newlines ''-'' = Some ''-''"
    using assms(1) by (simp_all add: same trimmed_def blank_def)
  let ?s1 = "s\<lparr>cwd := w, env := (env s)(''OLDPWD'' \<mapsto> cwd s, ''PWD'' \<mapsto> w)\<rparr>"
  have "exec_cd dirs (Some d) s = Inr ?s1"
    using assms t by (simp add: exec_cd_def cd_def Let_def)
  moreover have "exec_cd dirs (Some ''-'') ?s1 = Inr (?s1\<lparr>cwd := cwd s, env := (env ?s1)(''OLDPWD'' \<mapsto> w, ''PWD'' \<mapsto> cwd s)\<rparr>)"
    using assms t by (simp add: exec_cd_def cd_def Let_def)
  ultimately show ?thesis by fastforce
qed

lemma cd_back_instance:
  "\<exists>s1 s2. exec_cd (\<lambda>c p. if p = ''src'' then Some ''/home/src'' else Some p) (Some ''src'')
      \<lparr>history = [], hfile = None, leaked = 0, cwd = ''/home'', env = (\<lambda>_. None), spawned = [], tout = []\<rparr> = Inr s1 \<and>
    cwd s1 = ''/home/src'' \<and>
    exec_cd (\<lambda>c p. if p = ''src'' then Some ''/home/src'' else Some p) (Some ''-'') s1 = Inr s2 \<and> cwd s2 = ''/home''"
  using cd_back [of "''src''" "\<lambda>c p. if p = ''src'' then Some ''/home/src'' else Some p"
      "\<lparr>history = [], hfile = None, leaked = 0, cwd = ''/home'', env = (\<lambda>_. None), spawned = [], tout = []\<rparr>" "''/home/src''"]
  by (auto simp: trimmed_def blank_def)

section \<open>Where the shell fails\<close>

text \<open>\<open>cd\<close> alone: the null pointer behind the last argument is passed to \<open>strlen\<close>, although \<open>cd\<close> itself
  takes it for the home directory.\<close>

lemma cd_alone_faults:
  assumes "history_add fds ''cd'' s = Inr s1"
  shows "run_line fds dirs ''cd'' s = Inl NullDeref"
proof -
  have "trim ''cd'' = Some ''cd''" by (rule trim_trimmed) (simp add: trimmed_def blank_def)
  moreover have "build_args ''cd'' = Inr [''cd'']" by (simp add: build_args_def is_sep_def)
  moreover have "\<not> caseeq ''cd'' ''exit''" by (simp add: caseeq_def)
  ultimately show ?thesis using assms by (simp add: run_line_def is_cd_cmd_def arg1_def exec_cd_def)
qed

text \<open>When the descriptors have run out commands are no longer recorded and the history is lost.\<close>

lemma history_lost: "leaked s = fds \<Longrightarrow> history_add fds c s = Inr (s\<lparr>history := []\<rparr>)"
  by (simp add: history_add_def history_load_def)

text \<open>The thousand-and-first line of the history file is stored behind the array.\<close>

lemma history_overflows:
  assumes "hfile s = Some (text_of h)" and "hist_ok h" and "MAX_HISTORY < length h" and "leaked s < fds"
  shows "history_load fds s = Inl OutOfBounds"
  using assms hist_ok_plain_lines [OF assms(2)] by (simp add: history_load_def fgets_all_text)

end
