(* ===== verification/Shell_History.thy ===== *)
theory Shell_History
  imports Shell
begin

text \<open>
  The history functions of the shell on the file system: where the history file is (\<open>get_h_path\<close>), how it is
  opened (\<open>get_hfd\<close>), extended and removed. \<open>Shell\<close> keeps the contents of the one file as its field
  \<open>hfile\<close>; here it is shown that the functions on the files do the same, and touch no other file.
\<close>

section \<open>The functions on the files\<close>

type_synonym files = "string \<rightharpoonup> mem"

text \<open>\<open>getenv\<close> may have no \<open>HOME\<close>; printing the null pointer is undefined. The path is cut to 99 bytes.\<close>

definition get_h_path :: "(string \<Rightarrow> string option) \<Rightarrow> string result" where
  "get_h_path vars =
     (case vars ''HOME'' of
        None \<Rightarrow> Inl NullDeref
      | Some home \<Rightarrow> Inr (snprintf 100 (home @ ''/'' @ ''.ccsh_history'')))"

text \<open>Without a free descriptor \<open>open\<close> answers -1, here \<open>None\<close>, which nobody checks.\<close>

definition get_hfd :: "nat \<Rightarrow> files \<Rightarrow> shell \<Rightarrow> (files \<times> string option) result" where
  "get_hfd fds fs s =
     ebind (get_h_path (env s)) (\<lambda>h_path.
       if leaked s < fds
       then Inr (if fs h_path = None then fs(h_path \<mapsto> []) else fs, Some h_path)
       else Inr (fs, None))"

definition write_hfd :: "string option \<Rightarrow> string \<Rightarrow> files \<Rightarrow> files" where
  "write_hfd hfd t fs =
     (case hfd of
        None \<Rightarrow> fs
      | Some p \<Rightarrow> fs(p := map_option (\<lambda>f. f @ t) (fs p)))"

definition load_from_files :: "nat \<Rightarrow> files \<Rightarrow> shell \<Rightarrow> shell result" where
  "load_from_files fds fs s =
     ebind (get_h_path (env s)) (\<lambda>h_path. history_load fds (s\<lparr>hfile := fs h_path\<rparr>))"

definition add_to_files :: "nat \<Rightarrow> string \<Rightarrow> files \<times> shell \<Rightarrow> (files \<times> shell) result" where
  "add_to_files fds cmd = (\<lambda>(fs, s).
     ebind (get_hfd fds fs s) (\<lambda>(fs1, hfd).
       let fs2 = write_hfd hfd [LF] (write_hfd hfd cmd fs1)
       in ebind (load_from_files fds fs2 s) (\<lambda>s'. Inr (fs2, s'))))"

definition unlink_ccsh_history :: "files \<times> shell \<Rightarrow> (files \<times> shell) result" where
  "unlink_ccsh_history = (\<lambda>(fs, s).
     ebind (get_h_path (env s)) (\<lambda>h_path. Inr (fs(h_path := None), s)))"

section \<open>They implement the history of the shell\<close>

text \<open>The state of \<open>Shell\<close> is the view of the files through the path.\<close>

definition viewed :: "files \<Rightarrow> shell \<Rightarrow> shell result" where
  "viewed fs s = map_sum id (\<lambda>p. s\<lparr>hfile := fs p\<rparr>) (get_h_path (env s))"

lemma load_from_files_refines: "load_from_files fds fs s = ebind (viewed fs s) (history_load fds)"
  by (cases "get_h_path (env s)") (simp_all add: load_from_files_def viewed_def)

lemma history_load_keeps: "history_load fds s = Inr s' \<Longrightarrow> hfile s' = hfile s \<and> env s' = env s"
  by (auto simp: history_load_def Let_def split: option.splits if_splits)

lemma add_to_files_refines:
  assumes "get_h_path (env s) = Inr p"
  shows "add_to_files fds cmd (fs, s) =
    map_sum id (\<lambda>s'. (fs(p := hfile s'), s')) (history_add fds cmd (s\<lparr>hfile := fs p\<rparr>))"
proof -
  define s1 where "s1 = (if leaked s < fds
    then s\<lparr>hfile := Some ((case fs p of None \<Rightarrow> [] | Some f \<Rightarrow> f) @ cmd @ [LF])\<rparr> else s\<lparr>hfile := fs p\<rparr>)"
  have "add_to_files fds cmd (fs, s) =
      ebind (history_load fds s1) (\<lambda>s'. Inr (fs(p := hfile s1), s'))"
    using assms by (cases "fs p")
      (simp_all add: add_to_files_def get_hfd_def write_hfd_def load_from_files_def s1_def Let_def fun_upd_idem)
  moreover have "history_add fds cmd (s\<lparr>hfile := fs p\<rparr>) = history_load fds s1"
    by (simp add: history_add_def s1_def)
  ultimately show ?thesis
    using history_load_keeps [of fds s1] by (cases "history_load fds s1") auto
qed

text \<open>Removing the file empties the history that is loaded next, whatever was added before.\<close>

lemma unlink_then_load:
  assumes "get_h_path (env s) = Inr p" and "leaked s < fds"
  shows "ebind (unlink_ccsh_history (fs, s)) (\<lambda>(fs', s'). load_from_files fds fs' s') =
    Inr (s\<lparr>hfile := None, history := []\<rparr>)"
  using assms by (simp add: unlink_ccsh_history_def load_from_files_def history_load_def)

section \<open>The path\<close>

lemma get_h_path_short:
  assumes "vars ''HOME'' = Some home" and "length home \<le> 85"
  shows "get_h_path vars = Inr (home @ ''/.ccsh_history'')"
  using assms by (simp add: get_h_path_def snprintf_def)

text \<open>A home directory of 99 bytes or more leaves no room for the name of the file: the path is a prefix of the directory.\<close>

lemma get_h_path_cut:
  assumes "vars ''HOME'' = Some home" and "99 \<le> length home"
  shows "get_h_path vars = Inr (take 99 home)"
  using assms by (simp add: get_h_path_def snprintf_def)

lemma no_home_faults: "vars ''HOME'' = None \<Longrightarrow> faults (get_h_path vars)"
  by (simp add: get_h_path_def)

end
