(* ===== verification/Shell_Programs.thy ===== *)
theory Shell_Programs
  imports Grep
begin

text \<open>
  The \<open>ls\<close> of the shell (\<open>14. shell/custom_cmd/ls.c\<close>). The path of a subdirectory is printed into a block
  of \<open>sizeof(100)\<close> = 4 bytes with the limit \<open>sizeof(nw_path)\<close> = 8, so that it overruns the block for every
  path of more than three bytes. \<open>opendir\<close> gives the entries of a directory, as in \<open>Grep\<close>; because longer
  paths fault, the recursion from \<open>.\<close> never goes deeper than two calls, and three units of fuel are
  enough (\<open>ls_returns\<close>).
\<close>

fun ls_entries :: "(string \<Rightarrow> string result option) \<Rightarrow> string \<Rightarrow> (string \<times> bool) list \<Rightarrow> string result option" where
  "ls_entries rec path [] = Some (Inr [])"
| "ls_entries rec path ((name, is_dir) # es) =
     (if is_dots name then ls_entries rec path es
      else
        case (if \<not> is_dir then Some (Inr (name @ [TAB]))
              else
                let nw_path = snprintf 8 (path @ ''/'' @ name)
                in if length nw_path + 1 > 4 then Some (Inl OutOfBounds) else rec nw_path) of
          None \<Rightarrow> None
        | Some (Inl e) \<Rightarrow> Some (Inl e)
        | Some (Inr out) \<Rightarrow> map_option (\<lambda>r. ebind r (\<lambda>outs. Inr (out @ outs))) (ls_entries rec path es))"

fun ls :: "nat \<Rightarrow> opendir \<Rightarrow> string \<Rightarrow> string result option" where
  "ls 0 opendir path = None"
| "ls (Suc fuel) opendir path =
     (case opendir path of
        None \<Rightarrow> Some (Inr [])
      | Some es \<Rightarrow> ls_entries (ls fuel opendir) path es)"

definition ls_main :: "opendir \<Rightarrow> string result option" where
  "ls_main opendir = map_option (\<lambda>r. ebind r (\<lambda>out. Inr (out @ [LF]))) (ls 3 opendir ''.'')"

text \<open>A directory entry has a name.\<close>

definition named :: "opendir \<Rightarrow> bool" where
  "named opendir \<longleftrightarrow> (\<forall>p es. opendir p = Some es \<longrightarrow> list_all (\<lambda>(n, _). n \<noteq> []) es)"

lemma ls_entries_returns:
  "list_all (\<lambda>(n, _). n \<noteq> []) es \<Longrightarrow> (\<And>p. length path + 2 \<le> length p \<Longrightarrow> length p \<le> 3 \<Longrightarrow> rec p \<noteq> None) \<Longrightarrow>
     ls_entries rec path es \<noteq> None"
proof (induction es)
  case (Cons e es)
  obtain n d where e: "e = (n, d)" "n \<noteq> []" using Cons.prems(1) by (cases e) auto
  have IH: "ls_entries rec path es \<noteq> None" using Cons by simp
  have "rec (snprintf 8 (path @ ''/'' @ n)) \<noteq> None" if "length (snprintf 8 (path @ ''/'' @ n)) + 1 \<le> 4"
    by (rule Cons.prems(2)) (use that e(2) in \<open>cases n; auto simp: snprintf_def\<close>)+
  then show ?case using IH by (auto simp: e(1) Let_def split: option.splits sum.splits)
qed simp

lemma ls_returns:
  assumes "named opendir" and "path \<noteq> []"
  shows "ls 3 opendir path \<noteq> None"
proof -
  have n: "opendir p = Some es \<Longrightarrow> list_all (\<lambda>(n, _). n \<noteq> []) es" for p es using assms(1) by (simp add: named_def)
  have two: "ls (Suc 0) opendir p \<noteq> None" if "2 \<le> length p" for p
    using ls_entries_returns [OF n, of p _ p "ls 0 opendir"] that by (auto split: option.split)
  have "ls (Suc (Suc 0)) opendir p \<noteq> None" if "1 \<le> length p" for p
    using ls_entries_returns [OF n, of p _ p "ls (Suc 0) opendir"] two that by (auto split: option.split)
  then show ?thesis
    using ls_entries_returns [OF n, of path _ path "ls (Suc (Suc 0)) opendir"] assms(2)
    by (auto simp: numeral_3_eq_3 split: option.split)
qed

text \<open>A directory without subdirectories is listed in order.\<close>

lemma ls_flat:
  assumes "opendir ''.'' = Some es" and "list_all (\<lambda>(n, d). d \<longrightarrow> is_dots n) es"
  shows "ls_main opendir = Some (Inr (concat (map (\<lambda>(n, _). n @ [TAB]) (filter (\<lambda>(n, _). \<not> is_dots n) es)) @ [LF]))"
proof -
  have "ls_entries rec path es = Some (Inr (concat (map (\<lambda>(n, _). n @ [TAB]) (filter (\<lambda>(n, _). \<not> is_dots n) es))))" for rec path
    using assms(2) by (induction es) (auto split: prod.splits)
  then show ?thesis by (simp add: ls_main_def numeral_3_eq_3 assms(1))
qed

text \<open>A subdirectory whose name has two bytes or more overruns the block.\<close>

lemma ls_overruns:
  "2 \<le> length n \<Longrightarrow> \<not> is_dots n \<Longrightarrow> opendir ''.'' = Some ((n, True) # es) \<Longrightarrow> ls_main opendir = Some (Inl OutOfBounds)"
  by (simp add: ls_main_def numeral_3_eq_3 snprintf_def)

section \<open>pwd\<close>

text \<open>\<open>custom_cmd/pwd.c\<close>: the directory goes to the output without a line feed; \<open>getcwd\<close> fails when the name and its
  terminator do not fit. A failed call ends the program with 1, its message goes to \<open>stderr\<close>.\<close>

definition getcwd :: "nat \<Rightarrow> string option \<Rightarrow> string option" where
  "getcwd sz cwd = (case cwd of None \<Rightarrow> None | Some d \<Rightarrow> if length d < sz then Some d else None)"

definition pwd_main :: "string option \<Rightarrow> string \<times> int" where
  "pwd_main cwd = (case getcwd 1000 cwd of None \<Rightarrow> ([], 1) | Some d \<Rightarrow> (d, 0))"

lemma pwd_prints: "length d < 1000 \<Longrightarrow> pwd_main (Some d) = (d, 0)"
  by (simp add: pwd_main_def getcwd_def)

lemma pwd_fails: "1000 \<le> length d \<Longrightarrow> pwd_main (Some d) = ([], 1)"
  by (simp add: pwd_main_def getcwd_def)

end
