(* ===== verification/Descriptors.thy ===== *)
theory Descriptors
  imports CLib
begin

text \<open>
  The programs about file descriptors (\<open>theories/c/file_descriptor\<close>, \<open>theories/c/pipe/basic_redirection.c\<close>)
  over the tables \<open>table_layout.c\<close> draws: a process has a table of descriptors, each entry refers to an
  open file, which has the offset, and an open file refers to the file with the bytes.

  The system calls follow POSIX for what the programs use of them: the lowest free descriptor is given
  out, \<open>dup\<close> shares the open file, \<open>open\<close> makes a new one. A file is named by its path, the terminal
  has no input, and reads and writes are complete. \<open>printf\<close> yields text, which is written to
  descriptor 1 when the process exits.
\<close>

section \<open>The tables\<close>

datatype device = Terminal | File string

record ofile =
  dev :: device
  pos :: nat

record os =
  disk :: "string \<rightharpoonup> mem"
  opened :: "nat \<Rightarrow> ofile"
  n_opened :: nat
  fdt :: "nat option list"
  screen :: mem

definition boot :: "(string \<rightharpoonup> mem) \<Rightarrow> os" where
  "boot d = \<lparr>disk = d, opened = (\<lambda>_. \<lparr>dev = Terminal, pos = 0\<rparr>), n_opened = 1, fdt = [Some 0, Some 0, Some 0], screen = []\<rparr>"

definition free_fd :: "nat option list \<Rightarrow> nat" where
  "free_fd t = length (takeWhile (\<lambda>x. x \<noteq> None) t)"

definition set_fd :: "nat \<Rightarrow> nat option \<Rightarrow> nat option list \<Rightarrow> nat option list" where
  "set_fd n x t = (if n < length t then t[n := x] else t @ replicate (n - length t) None @ [x])"

definition fd_ref :: "int \<Rightarrow> os \<Rightarrow> nat option" where
  "fd_ref fd s = (if 0 \<le> fd \<and> nat fd < length (fdt s) then fdt s ! nat fd else None)"

section \<open>System calls\<close>

definition sys_open :: "string \<Rightarrow> bool \<Rightarrow> bool \<Rightarrow> os \<Rightarrow> int \<times> os" where
  "sys_open p creat trunc s =
     (if disk s p = None \<and> \<not> creat then (-1, s)
      else
        let data = (case disk s p of None \<Rightarrow> [] | Some d \<Rightarrow> if trunc then [] else d);
            n = free_fd (fdt s)
        in (int n, s\<lparr>disk := (disk s)(p \<mapsto> data), opened := (opened s)(n_opened s := \<lparr>dev = File p, pos = 0\<rparr>),
                     n_opened := n_opened s + 1,
                     fdt := set_fd n (Some (n_opened s)) (fdt s)\<rparr>))"

definition sys_read :: "int \<Rightarrow> nat \<Rightarrow> os \<Rightarrow> int \<times> mem \<times> os" where
  "sys_read fd n s =
     (case fd_ref fd s of
        None \<Rightarrow> (-1, [], s)
      | Some d \<Rightarrow>
          (case dev (opened s d) of
             Terminal \<Rightarrow> (0, [], s)
           | File p \<Rightarrow>
               (case disk s p of
                  None \<Rightarrow> (-1, [], s)
                | Some data \<Rightarrow>
                    let f = opened s d; bs = take n (drop (pos f) data)
                    in (int (length bs), bs, s\<lparr>opened := (opened s)(d := f\<lparr>pos := pos f + length bs\<rparr>)\<rparr>))))"

definition overwrite :: "nat \<Rightarrow> mem \<Rightarrow> mem \<Rightarrow> mem" where
  "overwrite at bs data = take at (data @ replicate (at - length data) NUL) @ bs @ drop (at + length bs) data"

definition sys_write :: "int \<Rightarrow> mem \<Rightarrow> os \<Rightarrow> int \<times> os" where
  "sys_write fd bs s =
     (case fd_ref fd s of
        None \<Rightarrow> (-1, s)
      | Some d \<Rightarrow>
          (case dev (opened s d) of
             Terminal \<Rightarrow> (int (length bs), s\<lparr>screen := screen s @ bs\<rparr>)
           | File p \<Rightarrow>
               (case disk s p of
                  None \<Rightarrow> (-1, s)
                | Some data \<Rightarrow>
                    let f = opened s d
                    in (int (length bs), s\<lparr>disk := (disk s)(p \<mapsto> overwrite (pos f) bs data),
                          opened := (opened s)(d := f\<lparr>pos := pos f + length bs\<rparr>)\<rparr>))))"

datatype whence = SeekSet | SeekCur | SeekEnd

definition sys_lseek :: "int \<Rightarrow> int \<Rightarrow> whence \<Rightarrow> os \<Rightarrow> int \<times> os" where
  "sys_lseek fd off w s =
     (case fd_ref fd s of
        None \<Rightarrow> (-1, s)
      | Some d \<Rightarrow>
          (case dev (opened s d) of
             Terminal \<Rightarrow> (-1, s)
           | File p \<Rightarrow>
               let f = opened s d;
                   base = (case w of SeekSet \<Rightarrow> 0 | SeekCur \<Rightarrow> int (pos f)
                             | SeekEnd \<Rightarrow> (case disk s p of None \<Rightarrow> 0 | Some data \<Rightarrow> int (length data)))
               in if base + off < 0 then (-1, s)
                  else (base + off, s\<lparr>opened := (opened s)(d := f\<lparr>pos := nat (base + off)\<rparr>)\<rparr>)))"

definition sys_dup :: "int \<Rightarrow> os \<Rightarrow> int \<times> os" where
  "sys_dup fd s =
     (case fd_ref fd s of
        None \<Rightarrow> (-1, s)
      | Some d \<Rightarrow> let n = free_fd (fdt s) in (int n, s\<lparr>fdt := set_fd n (Some d) (fdt s)\<rparr>))"

definition sys_dup2 :: "int \<Rightarrow> nat \<Rightarrow> os \<Rightarrow> int \<times> os" where
  "sys_dup2 fd n s =
     (case fd_ref fd s of
        None \<Rightarrow> (-1, s)
      | Some d \<Rightarrow> (int n, s\<lparr>fdt := set_fd n (Some d) (fdt s)\<rparr>))"

definition sys_close :: "int \<Rightarrow> os \<Rightarrow> int \<times> os" where
  "sys_close fd s =
     (case fd_ref fd s of
        None \<Rightarrow> (-1, s)
      | Some _ \<Rightarrow> (0, s\<lparr>fdt := (fdt s)[nat fd := None]\<rparr>))"

section \<open>The programs\<close>

text \<open>A program yields its exit status (\<open>None\<close> when it goes on for ever), the text it printed and the state.\<close>

type_synonym outcome = "int option \<times> string \<times> os"

abbreviation cyan :: string where "cyan \<equiv> CHR 0x1B # ''[36m''"
abbreviation plain :: string where "plain \<equiv> CHR 0x1B # ''[0m''"

definition read_and_print_100 :: "string \<Rightarrow> int \<Rightarrow> os \<Rightarrow> string \<times> os" where
  "read_and_print_100 nl fd s =
     (let (nb_read, buf, s') = sys_read fd 100 s in
      if nb_read = -1 then (''Read error!'' @ [LF], s')
      else (cyan @ ''fd '' @ int_str fd @ '' : ['' @ plain @ cstr buf @ cyan @ '']'' @ plain @ nl, s'))"

definition lseek_main :: "os \<Rightarrow> outcome" where
  "lseek_main s =
     (let (fd, s) = sys_open ''../../data/cat.txt'' False False s in
      if fd = -1 then (Some 1, [], s)
      else
        let (a, s) = read_and_print_100 [LF] fd s;
            (_, s) = sys_lseek fd 0 SeekSet s;
            (b, s) = read_and_print_100 [LF] fd s;
            (_, s) = sys_lseek fd 4 SeekSet s;
            (c, s) = read_and_print_100 [LF] fd s;
            (_, s) = sys_lseek fd 1 SeekCur s;
            (d, s) = read_and_print_100 [LF] fd s;
            (_, s) = sys_lseek fd 0 SeekEnd s;
            (e, s) = read_and_print_100 [LF] fd s;
            (_, s) = sys_close fd s
        in (Some 0, a @ b @ c @ d @ e, s))"

definition resetting_main :: "int \<Rightarrow> os \<Rightarrow> outcome" where
  "resetting_main pid s =
     (let t = int_str pid @ [LF, LF];
          (fd1, s) = sys_open ''../../data/cat.txt'' False False s;
          (fd2, s) = sys_open ''../../data/cat.txt'' False False s
      in if fd1 = -1 \<or> fd2 = -1 then (Some 1, t, s)
         else
           let (a, s) = read_and_print_100 [LF, LF] fd1 s;
               (b, s) = read_and_print_100 [LF, LF] fd1 s;
               (c, s) = read_and_print_100 [LF, LF] fd2 s;
               (_, s) = sys_close fd1 s;
               (_, s) = sys_close fd2 s
           in (Some 0, t @ a @ b @ c, s))"

definition contains_line :: "int \<Rightarrow> mem \<Rightarrow> string" where
  "contains_line fd buf = ''fd '' @ int_str fd @ '' contains : '' @ cstr buf @ [LF]"

definition dup_main :: "int \<Rightarrow> os \<Rightarrow> outcome" where
  "dup_main pid s =
     (let t = ''My PID is '' @ int_str pid @ [LF];
          (fd, s) = sys_open ''../../data/alpha.txt'' False False s
      in if fd = -1 then (Some 1, t, s)
         else
           let (fd_copy, s) = sys_dup fd s in
           if fd_copy = 0 then (Some 1, t, s)
           else
             let (nb_read, buf, s) = sys_read fd 10 s in
             if nb_read = -1 then (Some 1, t, s)
             else
               let t = t @ contains_line fd buf; (nb_read, buf, s) = sys_read fd_copy 10 s in
               if nb_read = -1 then (Some 0, t, s)
               else let (_, s) = sys_dup2 fd 0 s in (None, t @ contains_line fd_copy buf, s))"

text \<open>The descriptors are used unchecked.\<close>

definition table_layout_main :: "int \<Rightarrow> os \<Rightarrow> outcome" where
  "table_layout_main pid s =
     (let (fd1, s) = sys_open ''../../data/data.txt'' False False s;
          (fd2, s) = sys_dup fd1 s;
          (fd3, s) = sys_open ''../../data/data.txt'' False False s;
          (_, _, s) = sys_read fd1 1 s;
          (p1, s) = sys_lseek fd1 0 SeekCur s;
          (p3, s) = sys_lseek fd3 0 SeekCur s
      in (Some 0, ''PID = '' @ int_str pid @ [LF] @ ''FD  = '' @ int_str fd1 @ [LF] @ ''FD2 = '' @ int_str fd2 @ [LF] @
            ''FD3 = '' @ int_str fd3 @ [LF] @ int_str p1 @ [LF] @ int_str p3 @ [LF], s))"

text \<open>\<open>open_write_close.c\<close> and \<open>basic_redirection.c\<close>; the latter has its text written at its exit.\<close>

definition write_main :: "os \<Rightarrow> outcome" where
  "write_main s =
     (let (fd, s) = sys_open ''../../data/data.txt'' True True s in
      if fd = -1 then (Some 1, [], s)
      else
        let (_, s) = sys_write fd (''Hello World!'' @ [LF]) s; (_, s) = sys_close fd s
        in (Some 0, [], s))"

text \<open>\<open>file_descriptor.c\<close>: the descriptor is never closed, and a file of this name that was there before is deleted.\<close>

definition sys_unlink :: "string \<Rightarrow> os \<Rightarrow> int \<times> os" where
  "sys_unlink p s = (if disk s p = None then (-1, s) else (0, s\<lparr>disk := (disk s)(p := None)\<rparr>))"

definition file_descriptor_main :: "os \<Rightarrow> outcome" where
  "file_descriptor_main s =
     (let (fd, s) = sys_open ''../../data/data1.txt'' True False s in
      if fd = -1 then (Some 1, [], s)
      else let (_, s) = sys_unlink ''../../data/data1.txt'' s in (Some 0, [], s))"

lemma file_descriptor_deletes:
  "case file_descriptor_main s of (st, p, s') \<Rightarrow> st = Some 0 \<and> disk s' = (disk s)(''../../data/data1.txt'' := None) \<and>
     fd_ref (int (free_fd (fdt s))) s' = Some (n_opened s)"
proof -
  have "free_fd (fdt s) \<le> length (fdt s)" unfolding free_fd_def by (rule length_takeWhile_le)
  then show ?thesis
    by (auto simp: file_descriptor_main_def sys_open_def sys_unlink_def Let_def fd_ref_def set_fd_def nth_append)
qed

definition redirect_main :: "os \<Rightarrow> os" where
  "redirect_main s =
     (let (fd, s) = sys_open ''output.txt'' True True s;
          (_, s) = sys_dup2 fd 1 s;
          (_, s) = sys_close fd s
      in snd (sys_write 1 (''This text goes directly into the file!'' @ [LF]) s))"

section \<open>The reading loop\<close>

text \<open>What is left to read behind a descriptor.\<close>

definition unread :: "int \<Rightarrow> os \<Rightarrow> nat" where
  "unread fd s =
     (case fd_ref fd s of
        None \<Rightarrow> 0
      | Some d \<Rightarrow>
          (case dev (opened s d) of
             Terminal \<Rightarrow> 0
           | File p \<Rightarrow> (case disk s p of None \<Rightarrow> 0 | Some data \<Rightarrow> length data - pos (opened s d))))"

lemma seek_here: "snd (sys_lseek fd 0 SeekCur s) = s"
proof -
  show ?thesis by (simp add: sys_lseek_def Let_def split: option.splits device.splits)
qed

lemma read_shrinks:
  assumes "sys_read fd n s = (k, bs, s')" and "0 < n" and "k \<noteq> 0" and "k \<noteq> -1"
  shows "unread fd s' < unread fd s"
proof -
  obtain d p data where r: "fd_ref fd s = Some d" "dev (opened s d) = File p" "disk s p = Some data"
    using assms by (auto simp: sys_read_def split: option.splits device.splits)
  then show ?thesis using assms by (auto simp: sys_read_def unread_def fd_ref_def Let_def split: if_splits)
qed

definition position_line :: "int \<Rightarrow> string" where
  "position_line p = ''Current position :'' @ int_str p @ [LF]"

definition block_line :: "nat \<Rightarrow> mem \<Rightarrow> string" where
  "block_line count buf = cyan @ nat_str count @ '' : ['' @ plain @ cstr buf @ cyan @ '']'' @ plain @ [LF]"

lemma seek_here_eq: "sys_lseek fd 0 SeekCur s = (p, s1) \<Longrightarrow> s1 = s"
  using seek_here [of fd s] by simp

lemma read_zero:
  "sys_read fd n s = (0, bs, s') \<Longrightarrow> unread fd s' = unread fd s"
  by (auto simp: sys_read_def unread_def fd_ref_def Let_def split: option.splits device.splits if_splits)

text \<open>Whether the loop came to the end of the file, the text and the state.\<close>

function read_loop :: "int \<Rightarrow> int \<Rightarrow> nat \<Rightarrow> os \<Rightarrow> bool \<times> string \<times> os" where
  "read_loop fd nb_read count s =
     (if nb_read = 0 then (True, [], s)
      else
        let (p, s1) = sys_lseek fd 0 SeekCur s; (n, buf, s2) = sys_read fd 100 s1 in
        if n = -1 then (False, position_line p @ ''Read error!'' @ [LF], s2)
        else
          let (done, t, s3) = read_loop fd n (count + 1) s2
          in (done, position_line p @ block_line count buf @ t, s3))"
  by pat_completeness auto

termination
proof (relation "measures [\<lambda>(fd, nb, c, s). unread fd s, \<lambda>(fd, nb, c, s). if nb = 0 then 0 else 1]")
  fix fd nb :: int and count s x p s1 y n z buf s2
  assume a: "nb \<noteq> 0" "x = sys_lseek fd 0 SeekCur s" "(p, s1) = x" "y = sys_read fd 100 s1" "(n, z) = y" "(buf, s2) = z" "n \<noteq> -1"
  have s1: "s1 = s" using a seek_here_eq [of fd s p s1] by simp
  show "((fd, n, count + 1, s2), fd, nb, count, s)
      \<in> measures [\<lambda>(fd, nb, c, s). unread fd s, \<lambda>(fd, nb, c, s). if nb = 0 then 0 else 1]"
    using a s1 read_zero [of fd 100 s buf s2] read_shrinks [of fd 100 s n buf s2] by (cases "n = 0") auto
qed simp

declare read_loop.simps [simp del]

definition read_main :: "os \<Rightarrow> outcome" where
  "read_main s =
     (let (fd, s) = sys_open ''../../data/cat.txt'' False False s in
      if fd = -1 then (Some 1, [], s)
      else
        let (done, t, s) = read_loop fd (-1) 0 s in
        if done then (Some 0, t, snd (sys_close fd s)) else (Some 1, t, s))"

section \<open>Properties\<close>

definition at_pos :: "nat \<Rightarrow> nat \<Rightarrow> os \<Rightarrow> os" where
  "at_pos d q s = s\<lparr>opened := (opened s)(d := (opened s d)\<lparr>pos := q\<rparr>)\<rparr>"

definition refers :: "int \<Rightarrow> nat \<Rightarrow> mem \<Rightarrow> os \<Rightarrow> bool" where
  "refers fd d data s \<longleftrightarrow> fd_ref fd s = Some d \<and> (\<exists>p. dev (opened s d) = File p \<and> disk s p = Some data)"

lemma fd_ref_simps [simp]:
  "fd_ref fd (s\<lparr>opened := x\<rparr>) = fd_ref fd s"
  "fd_ref fd (s\<lparr>opened := x, n_opened := n\<rparr>) = fd_ref fd s"
  by (simp_all add: fd_ref_def)

lemma refers_at_pos [simp]: "refers fd d data (at_pos e q s) = refers fd d data s"
  by (auto simp: refers_def at_pos_def)

lemma at_pos_twice [simp]: "at_pos d q (at_pos d r s) = at_pos d q s"
  by (simp add: at_pos_def)

lemma read_at:
  "refers fd d data s \<Longrightarrow> sys_read fd n (at_pos d q s) =
     (int (length (take n (drop q data))), take n (drop q data), at_pos d (q + length (take n (drop q data))) s)"
  by (auto simp: refers_def sys_read_def at_pos_def Let_def)

lemma seek_cur_at: "refers fd d data s \<Longrightarrow> 0 \<le> int q + k \<Longrightarrow>
   sys_lseek fd k SeekCur (at_pos d q s) = (int q + k, at_pos d (nat (int q + k)) s)"
  by (auto simp: refers_def sys_lseek_def at_pos_def Let_def)

lemma seek_set_at: "refers fd d data s \<Longrightarrow> 0 \<le> k \<Longrightarrow> sys_lseek fd k SeekSet (at_pos d q s) = (k, at_pos d (nat k) s)"
  by (auto simp: refers_def sys_lseek_def at_pos_def Let_def)

lemma seek_end_at: "refers fd d data s \<Longrightarrow>
   sys_lseek fd 0 SeekEnd (at_pos d q s) = (int (length data), at_pos d (length data) s)"
  by (auto simp: refers_def sys_lseek_def at_pos_def Let_def)

definition printed_block :: "mem \<Rightarrow> nat \<Rightarrow> string" where
  "printed_block data k =
     position_line (int (min (100 * k) (length data))) @ block_line k (take 100 (drop (100 * k) data))"

lemma read_loop_prints:
  assumes "refers fd d data s" and "N = (length data + 99) div 100" and "k \<le> N" and "nb \<noteq> 0"
  shows "read_loop fd nb k (at_pos d (min (100 * k) (length data)) s) =
    (True, concat (map (printed_block data) [k..<N + 1]), at_pos d (length data) s)"
  using assms(3,4)
proof (induction "N - k" arbitrary: k nb)
  case 0
  then have k: "k = N" by simp
  then have m: "min (100 * k) (length data) = length data" "length data \<le> 100 * k" using assms(2) by auto
  have "read_loop fd 0 (k + 1) (at_pos d (length data) s) = (True, [], at_pos d (length data) s)"
    by (simp add: read_loop.simps)
  then show ?case
    using 0 m by (subst read_loop.simps)
      (simp add: k read_at [OF assms(1)] seek_cur_at [OF assms(1)] printed_block_def Let_def)
next
  case (Suc n)
  then have k: "k < N" "100 * k < length data" using assms(2) by auto
  let ?b = "take 100 (drop (100 * k) data)"
  have b: "?b \<noteq> []" "100 * k + length ?b = min (100 * (k + 1)) (length data)" using k by auto
  have "read_loop fd (int (length ?b)) (k + 1) (at_pos d (100 * k + length ?b) s) =
      (True, concat (map (printed_block data) [k + 1..<N + 1]), at_pos d (length data) s)"
    unfolding b(2) using Suc.hyps(2) k b(1) by (intro Suc.hyps(1)) simp_all
  moreover have "[k..<N + 1] = k # [k + 1..<N + 1]" using k by (simp add: upt_conv_Cons)
  ultimately show ?case
    using Suc.prems k b(1) by (subst read_loop.simps)
      (simp add: read_at [OF assms(1)] seek_cur_at [OF assms(1)] printed_block_def Let_def nat_mult_distrib
        del: upt_Suc length_take length_drop)
qed

lemma fd_ref_set:
  "fd_ref (int n) (s\<lparr>fdt := set_fd n x t\<rparr>) = x"
  "0 \<le> fd \<Longrightarrow> nat fd < length t \<Longrightarrow> nat fd \<noteq> n \<Longrightarrow> fd_ref fd (s\<lparr>fdt := set_fd n x t\<rparr>) = t ! nat fd"
  by (auto simp: fd_ref_def set_fd_def nth_append)

text \<open>A new open file starts at its own offset 0 and leaves the others alone.\<close>

definition with_open :: "string \<Rightarrow> os \<Rightarrow> os" where
  "with_open p s = s\<lparr>opened := (opened s)(n_opened s := \<lparr>dev = File p, pos = 0\<rparr>),
     n_opened := n_opened s + 1, fdt := set_fd (free_fd (fdt s)) (Some (n_opened s)) (fdt s)\<rparr>"

lemma with_open_simps [simp]:
  "disk (with_open p s) = disk s" "n_opened (with_open p s) = n_opened s + 1"
  "fdt (with_open p s) = set_fd (free_fd (fdt s)) (Some (n_opened s)) (fdt s)"
  by (simp_all add: with_open_def)

lemma at_pos_simps [simp]: "disk (at_pos d q s) = disk s" "n_opened (at_pos d q s) = n_opened s" "fdt (at_pos d q s) = fdt s"
  by (simp_all add: at_pos_def)

lemma open_fresh:
  assumes "disk s p = Some data"
  shows "sys_open p False False s = (int (free_fd (fdt s)), at_pos (n_opened s) 0 (with_open p s))"
    and "refers (int (free_fd (fdt s))) (n_opened s) data (with_open p s)"
  using assms by (auto simp: sys_open_def at_pos_def with_open_def refers_def fd_ref_def set_fd_def nth_append Let_def fun_upd_idem)

lemma open_keeps:
  "refers fd e x s \<Longrightarrow> e < n_opened s \<Longrightarrow> nat fd \<noteq> free_fd (fdt s) \<Longrightarrow> refers fd e x (with_open p s)"
  by (auto simp: refers_def with_open_def fd_ref_def set_fd_def nth_append split: if_splits)

lemma at_pos_with_open: "e < n_opened s \<Longrightarrow> with_open p (at_pos e q s) = at_pos e q (with_open p s)"
  by (simp add: at_pos_def with_open_def fun_upd_twist)

lemma at_pos_commute: "d \<noteq> e \<Longrightarrow> at_pos d q (at_pos e r s) = at_pos e r (at_pos d q s)"
  by (simp add: at_pos_def fun_upd_twist)

lemma print_at:
  "refers fd d data s \<Longrightarrow> read_and_print_100 nl fd (at_pos d q s) =
     (cyan @ ''fd '' @ int_str fd @ '' : ['' @ plain @ cstr (take 100 (drop q data)) @ cyan @ '']'' @ plain @ nl,
      at_pos d (q + length (take 100 (drop q data))) s)"
  by (simp add: read_and_print_100_def read_at Let_def)

lemma print_under:
  "refers fd d data s \<Longrightarrow> d \<noteq> e \<Longrightarrow> read_and_print_100 nl fd (at_pos e r (at_pos d q s)) =
     (cyan @ ''fd '' @ int_str fd @ '' : ['' @ plain @ cstr (take 100 (drop q data)) @ cyan @ '']'' @ plain @ nl,
      at_pos e r (at_pos d (q + length (take 100 (drop q data))) s))"
  by (simp add: print_at at_pos_commute [of e d])

lemma boot_simps [simp]: "disk (boot f) = f" "fdt (boot f) = [Some 0, Some 0, Some 0]" "n_opened (boot f) = 1"
  by (simp_all add: boot_def)

lemma free_boot [simp]: "free_fd [Some 0, Some 0, Some 0] = 3"
  by (simp add: free_fd_def)

lemma open_boot:
  assumes "f p = Some data"
  shows "sys_open p False False (boot f) = (3, at_pos 1 0 (with_open p (boot f)))"
    and "refers 3 1 data (with_open p (boot f))"
  using open_fresh [of "boot f" p data] assms by simp_all

text \<open>The reading program prints its file in blocks of at most 100 bytes, each under its offset, with an
  empty block at the end; the blocks together are the file.\<close>

lemma read_prints_file:
  assumes "f ''../../data/cat.txt'' = Some data" and "read_main (boot f) = (status, t, s)"
  shows "status = Some 0 \<and>
    t = concat (map (printed_block data) [0..<(length data + 99) div 100 + 1]) \<and>
    concat (map (\<lambda>k. take 100 (drop (100 * k) data)) [0..<(length data + 99) div 100 + 1]) = data"
proof -
  obtain s1 where s1: "sys_open ''../../data/cat.txt'' False False (boot f) = (3, at_pos 1 0 s1)" "refers 3 1 data s1"
    using open_boot [of f, OF assms(1)] by blast
  have blocks: "concat (map (\<lambda>k. take 100 (drop (100 * k) xs)) [0..<n + 1]) = take (100 * (n + 1)) xs" for n and xs :: mem
  proof (induction n)
    case (Suc n)
    then show ?case using take_add [of "100 * (n + 1)" 100 xs] by simp
  qed simp
  have "concat (map (\<lambda>k. take 100 (drop (100 * k) data)) [0..<(length data + 99) div 100 + 1]) = data"
    unfolding blocks by simp
  then show ?thesis
    using assms(2) read_loop_prints [OF s1(2) refl, of 0 "-1"]
    by (auto simp: read_main_def s1(1) Let_def simp del: upt_Suc)
qed

lemma read_prints_file_instance:
  "fst (read_main (boot [''../../data/cat.txt'' \<mapsto> ''meow''])) = Some 0"
proof -
  obtain r t s where m: "read_main (boot [''../../data/cat.txt'' \<mapsto> ''meow'']) = (r, t, s)"
    by (cases "read_main (boot [''../../data/cat.txt'' \<mapsto> ''meow''])") simp
  have "r = Some 0" by (rule read_prints_file [OF _ m, THEN conjunct1]) simp
  then show ?thesis by (simp add: m)
qed

text \<open>What one call of \<open>read_and_print_100\<close> prints.\<close>

definition shown :: "string \<Rightarrow> int \<Rightarrow> string \<Rightarrow> string" where
  "shown nl fd x = cyan @ ''fd '' @ int_str fd @ '' : ['' @ plain @ x @ cyan @ '']'' @ plain @ nl"

lemma cstr_take_drop: "is_cstr a \<Longrightarrow> cstr (take n (drop m a)) = take n (drop m a)"
  unfolding is_cstr_def cstr_def takeWhile_eq_all_conv by (metis in_set_dropD in_set_takeD)

lemma drop_min: "drop (min n (length xs)) xs = drop n xs" "drop (min (length xs) n) xs = drop n xs"
  by (simp_all add: min_def)

lemma open_dup:
  assumes "f p = Some a"
  shows "\<exists>s t. sys_open p False False (boot f) = (3, at_pos 1 0 s) \<and> sys_dup 3 (at_pos 1 0 s) = (4, at_pos 1 0 t) \<and>
    refers 3 1 a t \<and> refers 4 1 a t"
proof (intro exI conjI)
  let ?s = "with_open p (boot f)"
  let ?t = "?s\<lparr>fdt := set_fd 4 (Some 1) (fdt ?s)\<rparr>"
  note o = open_boot [of f, OF assms]
  show "sys_open p False False (boot f) = (3, at_pos 1 0 ?s)" by (rule o(1))
  show "sys_dup 3 (at_pos 1 0 ?s) = (4, at_pos 1 0 ?t)" "refers 3 1 a ?t" "refers 4 1 a ?t"
    using o(2) by (auto simp: sys_dup_def refers_def at_pos_def fd_ref_def with_open_def set_fd_def free_fd_def)
qed

lemma open_twice:
  assumes "f p = Some c"
  shows "\<exists>s t. sys_open p False False (boot f) = (3, at_pos 1 0 s) \<and>
    sys_open p False False (at_pos 1 0 s) = (4, at_pos 2 0 (at_pos 1 0 t)) \<and> refers 3 1 c t \<and> refers 4 2 c t"
proof (intro exI conjI)
  let ?s = "with_open p (boot f)"
  let ?t = "with_open p ?s"
  note o = open_boot [of f, OF assms]
  have four: "free_fd (set_fd 3 (Some (Suc 0)) [Some 0, Some 0, Some 0]) = 4" by (simp add: free_fd_def set_fd_def)
  note q = open_fresh [of "at_pos 1 0 ?s" p c]
  show "sys_open p False False (boot f) = (3, at_pos 1 0 ?s)" by (rule o(1))
  show "sys_open p False False (at_pos 1 0 ?s) = (4, at_pos 2 0 (at_pos 1 0 ?t))"
    using q(1) assms by (simp add: four at_pos_with_open numeral_2_eq_2)
  show "refers 4 2 c ?t" using q(2) assms by (simp add: four at_pos_with_open numeral_2_eq_2)
  show "refers 3 1 c ?t" using open_keeps [OF o(2)] by (simp add: four)
qed

text \<open>The offset belongs to the open file: the copy made by \<open>dup\<close> reads on where the first descriptor
  stopped, and a second \<open>open\<close> of the same file starts at its beginning.\<close>

lemma offset_of_open_file:
  assumes "f ''../../data/alpha.txt'' = Some a" and "f ''../../data/cat.txt'' = Some c" and "is_cstr a" and "is_cstr c"
  shows "fst (snd (dup_main pid (boot f))) = ''My PID is '' @ int_str pid @ [LF] @
      ''fd 3 contains : '' @ take 10 a @ [LF] @ ''fd 4 contains : '' @ take 10 (drop 10 a) @ [LF] \<and>
    fst (snd (resetting_main pid (boot f))) = int_str pid @ [LF, LF] @
      shown [LF, LF] 3 (take 100 c) @ shown [LF, LF] 3 (take 100 (drop 100 c)) @ shown [LF, LF] 4 (take 100 c)"
proof
  have digits: "int_str 3 = ''3''" "int_str 4 = ''4''" by code_simp+
  obtain s t where o: "sys_open ''../../data/alpha.txt'' False False (boot f) = (3, at_pos 1 0 s)" "sys_dup 3 (at_pos 1 0 s) = (4, at_pos 1 0 t)"
    "refers 3 1 a t" "refers 4 1 a t"
    using open_dup [of f, OF assms(1)] by blast
  show "fst (snd (dup_main pid (boot f))) = ''My PID is '' @ int_str pid @ [LF] @
      ''fd 3 contains : '' @ take 10 a @ [LF] @ ''fd 4 contains : '' @ take 10 (drop 10 a) @ [LF]"
    using assms(3)
    by (simp add: dup_main_def o(1,2) read_at [OF o(3)] read_at [OF o(4)] contains_line_def split_beta Let_def
        cstr_take_drop [of a _ 0, simplified] cstr_take_drop drop_min digits del: One_nat_def)
  obtain s t where o: "sys_open ''../../data/cat.txt'' False False (boot f) = (3, at_pos 1 0 s)" 
    "sys_open ''../../data/cat.txt'' False False (at_pos 1 0 s) = (4, at_pos 2 0 (at_pos 1 0 t))" "refers 3 1 c t" "refers 4 2 c t"
    using open_twice [of f, OF assms(2)] by blast
  show "fst (snd (resetting_main pid (boot f))) = int_str pid @ [LF, LF] @
      shown [LF, LF] 3 (take 100 c) @ shown [LF, LF] 3 (take 100 (drop 100 c)) @ shown [LF, LF] 4 (take 100 c)"
    using assms(4)
    by (simp add: resetting_main_def o(1,2) at_pos_commute [of 2 1] print_at [of 3 1 c] print_under [of 4 2 c] o(3,4) split_beta Let_def
        cstr_take_drop [of c _ 0, simplified] cstr_take_drop drop_min shown_def del: One_nat_def)
qed

lemma offset_of_open_file_instance:
  "fst (snd (dup_main 7 (boot [''../../data/alpha.txt'' \<mapsto> ''abcdefghijklmno'', ''../../data/cat.txt'' \<mapsto> ''meow'']))) =
     ''My PID is 7'' @ [LF] @ ''fd 3 contains : abcdefghij'' @ [LF] @ ''fd 4 contains : klmno'' @ [LF]"
proof -
  have pid: "int_str 7 = ''7''" by code_simp
  let ?f = "[''../../data/alpha.txt'' \<mapsto> ''abcdefghijklmno'', ''../../data/cat.txt'' \<mapsto> ''meow''] :: string \<rightharpoonup> mem"
  have "fst (snd (dup_main 7 (boot ?f))) = ''My PID is '' @ int_str 7 @ [LF] @
      ''fd 3 contains : '' @ take 10 ''abcdefghijklmno'' @ [LF] @ ''fd 4 contains : '' @ take 10 (drop 10 ''abcdefghijklmno'') @ [LF]"
    by (rule offset_of_open_file [where c = "''meow''", THEN conjunct1]) (simp_all add: is_cstr_def)
  then show ?thesis by (simp add: pid)
qed

text \<open>Positions are absolute, relative or from the end, and a position behind the end reads nothing.\<close>

lemma lseek_shows:
  assumes "f ''../../data/cat.txt'' = Some c" and "is_cstr c"
  shows "fst (snd (lseek_main (boot f))) = shown [LF] 3 (take 100 c) @ shown [LF] 3 (take 100 c) @
    shown [LF] 3 (take 100 (drop 4 c)) @ shown [LF] 3 (take 100 (drop 105 c)) @ shown [LF] 3 []"
proof -
  obtain s where o: "sys_open ''../../data/cat.txt'' False False (boot f) = (3, at_pos 1 0 s)" "refers 3 1 c s"
    using open_boot [of f, OF assms(1)] by blast
  have p: "take 100 (drop (nat (5 + int (length (take 100 (drop 4 c))))) c) = take 100 (drop 105 c)"
    by (cases "104 \<le> length c") (auto simp: nat_add_distrib)
  show ?thesis
    using assms(2)
    by (simp add: lseek_main_def o(1) Let_def print_at [OF o(2)] seek_cur_at [OF o(2)] seek_end_at [OF o(2)]
        seek_set_at [OF o(2)] split_beta shown_def cstr_take_drop [of c _ 0, simplified] cstr_take_drop p
        del: One_nat_def length_take length_drop)
qed

text \<open>Text printed after \<open>dup2\<close> goes to the file, and the terminal sees nothing of it.\<close>

lemma redirected:
  "disk (redirect_main (boot f)) ''output.txt'' = Some (''This text goes directly into the file!'' @ [LF]) \<and>
   screen (redirect_main (boot f)) = []"
  by (simp add: redirect_main_def boot_def sys_open_def sys_dup2_def sys_close_def sys_write_def fd_ref_def set_fd_def
      free_fd_def overwrite_def Let_def split: option.split)

lemma written:
  "fst (write_main (boot f)) = Some 0 \<and>
   disk (snd (snd (write_main (boot f)))) ''../../data/data.txt'' = Some (''Hello World!'' @ [LF])"
  by (simp add: write_main_def boot_def sys_open_def sys_close_def sys_write_def fd_ref_def set_fd_def
      free_fd_def overwrite_def Let_def split: option.split)

text \<open>When \<open>dup\<close> fails it returns -1, which the test \<open>!fd_copy\<close> does not see: it sees only descriptor 0.\<close>

lemma dup_failure_unseen: "fd_ref fd s = None \<Longrightarrow> fst (sys_dup fd s) \<noteq> 0"
  by (simp add: sys_dup_def)

end
