(* ===== verification/Pipe_Programs.thy ===== *)
theory Pipe_Programs
  imports Shell
begin

text \<open>
  Two programs about pipes. \<open>theories/c/pipe/pipe.c\<close>: a parent sends a text to its child through a pipe; the
  two processes are lists of actions over the shared pipe and terminal, run in any interleaving.
  \<open>theories/c/pipe/pipleline_like_shell.c\<close>: the three commands of a fixed pipeline, whose descriptors are
  compared with those the shell gives to a pipeline of three commands.

  A pipe holds 65536 bytes and takes a short write as a whole; a reader meets the end of file when
  nobody holds the write end; a write without a reader ends the process.
\<close>

section \<open>Parent and child\<close>

datatype action_p = Say string | Send string | CloseRead | CloseWrite | Copy | Await

record proc =
  code :: "action_p list"
  rd :: bool
  wr :: bool

record world =
  child :: proc
  parent :: proc
  in_pipe :: mem
  printed :: "(bool \<times> string) list"

abbreviation NL :: string where "NL \<equiv> [LF]"

definition secret :: string where
  "secret = CHR 0x1B # ''[33mI am your father mwahahaha!'' @ CHR 0x1B # ''[0m''"

definition child_code :: "action_p list" where
  "child_code = [CloseWrite, Say (''Child: What is the secret in this pipe?'' @ NL), Say (''Child: '' @ NL), Copy,
     Say (CHR 0x22 # NL), Say (''Child: Wow! I must go see my father.'' @ NL), CloseRead]"

definition parent_code :: "action_p list" where
  "parent_code = [CloseRead, Say (''Parent: I'' @ CHR 0x27 # ''m writing a secret in this pipe...'' @ NL), Send secret, CloseWrite, Await,
     Say (''Parent: Hellow child!'' @ NL)]"

text \<open>The state behind \<open>pipe\<close> and \<open>fork\<close>: both processes hold both ends.\<close>

definition forked :: world where
  "forked = \<lparr>child = \<lparr>code = child_code, rd = True, wr = True\<rparr>, parent = \<lparr>code = parent_code, rd = True, wr = True\<rparr>,
     in_pipe = [], printed = []\<rparr>"

text \<open>
  The next action of a process, given the other one and the content of the pipe: the process and the
  content afterwards and what goes to the terminal; \<open>None\<close> when it has to wait. Reading one byte and
  writing it are two actions.
\<close>

definition act :: "proc \<Rightarrow> mem \<Rightarrow> proc \<Rightarrow> (proc \<times> mem \<times> string) option" where
  "act other q p =
     (case code p of
        [] \<Rightarrow> None
      | a # k \<Rightarrow>
          let next = p\<lparr>code := k\<rparr> in
          (case a of
             Say s \<Rightarrow> Some (next, q, s)
           | Send s \<Rightarrow>
               if \<not> wr p then Some (next, q, [])
               else if \<not> rd p \<and> \<not> rd other then Some (\<lparr>code = [], rd = False, wr = False\<rparr>, q, [])
               else if length q + length s \<le> 65536 then Some (next, q @ s, [])
               else None
           | CloseRead \<Rightarrow> Some (next\<lparr>rd := False\<rparr>, q, [])
           | CloseWrite \<Rightarrow> Some (next\<lparr>wr := False\<rparr>, q, [])
           | Copy \<Rightarrow>
               if \<not> rd p then Some (next, q, [])
               else (case q of
                  c # r \<Rightarrow> Some (p\<lparr>code := Say [c] # Copy # k\<rparr>, r, [])
                | [] \<Rightarrow> if wr p \<or> wr other then None else Some (next, q, []))
           | Await \<Rightarrow> if code other = [] then Some (next, q, []) else None))"

inductive pipe_step :: "world \<Rightarrow> world \<Rightarrow> bool" where
  Child: "act (parent w) (in_pipe w) (child w) = Some (p, q, s) \<Longrightarrow>
    pipe_step w (w\<lparr>child := p, in_pipe := q, printed := printed w @ [(True, s)]\<rparr>)"
| Parent: "act (child w) (in_pipe w) (parent w) = Some (p, q, s) \<Longrightarrow>
    pipe_step w (w\<lparr>parent := p, in_pipe := q, printed := printed w @ [(False, s)]\<rparr>)"

inductive_cases pipe_stepE: "pipe_step w w'"

definition exited :: "world \<Rightarrow> bool" where
  "exited w \<longleftrightarrow> code (child w) = [] \<and> code (parent w) = []"

section \<open>Every run ends\<close>

fun weight :: "action_p \<Rightarrow> nat" where
  "weight (Send s) = 1 + 2 * length s"
| "weight _ = 1"

definition todo :: "world \<Rightarrow> nat" where
  "todo w = sum_list (map weight (code (child w))) + sum_list (map weight (code (parent w))) + 2 * length (in_pipe w)"

lemma act_less:
  "act other q p = Some (p', q', s) \<Longrightarrow>
     sum_list (map weight (code p')) + 2 * length q' < sum_list (map weight (code p)) + 2 * length q"
  by (auto simp: act_def Let_def split: list.splits action_p.splits if_splits)

lemma pipe_todo_step: "pipe_step w w' \<Longrightarrow> todo w' < todo w"
  by (erule pipe_stepE) (auto simp: todo_def dest!: act_less)

section \<open>What has been said\<close>

definition said :: "bool \<Rightarrow> world \<Rightarrow> string" where
  "said b w = concat (map snd (filter (\<lambda>x. fst x = b) (printed w)))"

definition pending :: "char option \<Rightarrow> action_p list" where
  "pending x = (case x of None \<Rightarrow> [] | Some c \<Rightarrow> [Say [c]])"

fun texts :: "string \<Rightarrow> action_p list \<Rightarrow> string" where
  "texts got [] = []"
| "texts got (Say s # k) = s @ texts got k"
| "texts got (Copy # k) = got @ texts got k"
| "texts got (_ # k) = texts got k"

text \<open>
  The parent is before its action \<open>i\<close>, the child before its action \<open>j\<close>, and at the copying loop it may
  hold a byte \<open>x\<close> that it has read; \<open>got\<close> is what it has copied.
\<close>

definition at_points :: "nat \<Rightarrow> nat \<Rightarrow> char option \<Rightarrow> string \<Rightarrow> world \<Rightarrow> bool" where
  "at_points i j x got w \<longleftrightarrow> i \<le> 6 \<and> j \<le> 7 \<and>
     parent w = \<lparr>code = drop i parent_code, rd = i < 1, wr = i < 4\<rparr> \<and>
     child w = \<lparr>code = pending x @ drop j child_code, rd = j < 7, wr = j < 1\<rparr> \<and>
     (x \<noteq> None \<longrightarrow> j = 3) \<and> (j < 3 \<longrightarrow> got = []) \<and> (3 < j \<longrightarrow> 4 \<le> i \<and> in_pipe w = []) \<and> (4 < i \<longrightarrow> j = 7) \<and>
     got @ (case x of None \<Rightarrow> [] | Some c \<Rightarrow> [c]) @ in_pipe w = (if i < 3 then [] else secret) \<and>
     said True w = texts got (take j child_code) @ (if j = 3 then got else []) \<and>
     said False w = texts [] (take i parent_code) \<and>
     (i = 6 \<longrightarrow> printed w \<noteq> [] \<and> last (printed w) = (False, ''Parent: Hellow child!'' @ NL))"

definition pipe_inv :: "world \<Rightarrow> bool" where
  "pipe_inv w \<longleftrightarrow> (\<exists>i j x got. at_points i j x got w)"

lemma said_snoc [simp]:
  "said b (w\<lparr>parent := p, in_pipe := q, printed := printed w @ [(b', s)]\<rparr>) = said b w @ (if b = b' then s else [])"
  "said b (w\<lparr>child := p, in_pipe := q, printed := printed w @ [(b', s)]\<rparr>) = said b w @ (if b = b' then s else [])"
  by (auto simp: said_def)

lemma nat_le_6: "(i :: nat) \<le> 6 \<longleftrightarrow> i = 0 \<or> i = 1 \<or> i = 2 \<or> i = 3 \<or> i = 4 \<or> i = 5 \<or> i = 6" by auto

lemma nat_le_7: "(i :: nat) \<le> 7 \<longleftrightarrow> i \<le> 6 \<or> i = 7" by auto

lemma secret_short: "length secret \<le> 65536" by (simp add: secret_def)

lemma parent_step:
  assumes inv: "at_points i j x got w" and act: "act (child w) (in_pipe w) (parent w) = Some (p, q, s)"
  shows "at_points (i + 1) j x got (w\<lparr>parent := p, in_pipe := q, printed := printed w @ [(False, s)]\<rparr>)"
proof -
  have "i \<le> 6" using inv by (simp add: at_points_def)
  then consider "i = 0" | "i = 1" | "i = 2" | "i = 3" | "i = 4" | "i = 5" | "i = 6" unfolding nat_le_6 by blast
  then show ?thesis
  proof cases
    case 3
    then show ?thesis using inv act secret_short
      by (auto simp: at_points_def act_def parent_code_def split: if_splits option.splits)
  next
    case 5
    then show ?thesis using inv act
      by (auto simp: at_points_def act_def parent_code_def child_code_def nat_le_7 nat_le_6 split: if_splits)
  qed (use inv act in \<open>auto simp: at_points_def act_def parent_code_def\<close>)
qed

lemma child_straight:
  assumes inv: "at_points i j x got w" and act: "act (parent w) (in_pipe w) (child w) = Some (p, q, s)"
    and x: "x = None" and j: "j \<in> {0, 1, 2, 4, 5, 6, 7}"
  shows "at_points i (j + 1) None got (w\<lparr>child := p, in_pipe := q, printed := printed w @ [(True, s)]\<rparr>)"
proof -
  have ch: "child w = \<lparr>code = drop j child_code, rd = j < 7, wr = j < 1\<rparr>" using inv x by (simp add: at_points_def pending_def)
  from j consider "j = 0" | "j = 1" | "j = 2" | "j = 4" | "j = 5" | "j = 6" | "j = 7" by blast
  then show ?thesis
  proof cases
    case 7
    then show ?thesis using act ch by (simp add: act_def child_code_def)
  qed (use inv act ch x in \<open>simp add: at_points_def act_def child_code_def pending_def\<close>)+
qed

lemma child_step:
  assumes inv: "at_points i j x got w" and act: "act (parent w) (in_pipe w) (child w) = Some (p, q, s)"
  shows "\<exists>j' x' got'. at_points i j' x' got' (w\<lparr>child := p, in_pipe := q, printed := printed w @ [(True, s)]\<rparr>)"
proof -
  have "j \<le> 7" using inv by (simp add: at_points_def)
  then have "j = 3 \<or> j \<in> {0, 1, 2, 4, 5, 6, 7}" unfolding nat_le_7 nat_le_6 by blast
  then consider "x \<noteq> None" | "x = None" "j = 3" | "x = None" "j \<in> {0, 1, 2, 4, 5, 6, 7}" by blast
  then show ?thesis
  proof cases
    case 1
    then obtain c where "x = Some c" by blast
    then have "at_points i 3 None (got @ [c]) (w\<lparr>child := p, in_pipe := q, printed := printed w @ [(True, s)]\<rparr>)"
      using inv act by (auto simp: at_points_def act_def child_code_def pending_def)
    then show ?thesis by blast
  next
    case 2
    show ?thesis
    proof (cases "in_pipe w")
      case Nil
      then have "at_points i 4 None got (w\<lparr>child := p, in_pipe := q, printed := printed w @ [(True, s)]\<rparr>)"
        using inv act 2 by (auto simp: at_points_def act_def child_code_def pending_def split: if_splits)
      then show ?thesis by blast
    next
      case (Cons c r)
      then have "at_points i 3 (Some c) got (w\<lparr>child := p, in_pipe := q, printed := printed w @ [(True, s)]\<rparr>)"
        using inv act 2 by (auto simp: at_points_def act_def child_code_def pending_def split: if_splits)
      then show ?thesis by blast
    qed
  next
    case 3
    then have "at_points i (j + 1) None got (w\<lparr>child := p, in_pipe := q, printed := printed w @ [(True, s)]\<rparr>)"
      using child_straight [OF inv act] by blast
    then show ?thesis by blast
  qed
qed

lemma pipe_inv_step: "pipe_inv w \<Longrightarrow> pipe_step w w' \<Longrightarrow> pipe_inv w'"
  unfolding pipe_inv_def by (erule pipe_stepE) (blast dest: child_step parent_step)+

section \<open>Nobody waits for ever\<close>

lemma child_waits:
  assumes inv: "at_points i j x got w" and act: "act (parent w) (in_pipe w) (child w) = None"
  shows "j = 7 \<or> j = 3 \<and> i < 4"
proof -
  have ch: "child w = \<lparr>code = pending x @ drop j child_code, rd = j < 7, wr = j < 1\<rparr>" "x \<noteq> None \<longrightarrow> j = 3"
    and p: "wr (parent w) \<longleftrightarrow> i < 4" and j: "j \<le> 7"
    using inv by (simp_all add: at_points_def)
  from j consider "j = 0" | "j = 1" | "j = 2" | "j = 3" | "j = 4" | "j = 5" | "j = 6" | "j = 7" unfolding nat_le_7 nat_le_6 by blast
  then show ?thesis
  proof cases
    case 4
    then show ?thesis using act ch p
      by (auto simp: act_def child_code_def pending_def split: option.splits list.splits if_splits)
  qed (use act ch in \<open>simp_all add: act_def child_code_def pending_def\<close>)
qed

lemma parent_waits:
  assumes inv: "at_points i j x got w" and act: "act (child w) (in_pipe w) (parent w) = None"
  shows "i = 6 \<or> i = 4 \<and> code (child w) \<noteq> []"
proof -
  have p: "parent w = \<lparr>code = drop i parent_code, rd = i < 1, wr = i < 4\<rparr>" "i \<le> 6"
    using inv by (simp_all add: at_points_def)
  have q: "i = 2 \<Longrightarrow> in_pipe w = []" using inv by (simp add: at_points_def)
  from p(2) consider "i = 0" | "i = 1" | "i = 2" | "i = 3" | "i = 4" | "i = 5" | "i = 6" unfolding nat_le_6 by blast
  then show ?thesis
    by cases (use act p q secret_short in \<open>simp_all add: act_def parent_code_def split: if_splits\<close>)
qed

lemma pipe_not_blocked:
  assumes "pipe_inv w" and "\<not> exited w"
  shows "\<exists>w'. pipe_step w w'"
proof -
  obtain i j x got where inv: "at_points i j x got w" using assms(1) by (auto simp: pipe_inv_def)
  have "j = 7 \<Longrightarrow> code (child w) = []" "i = 6 \<Longrightarrow> code (parent w) = []"
    using inv by (auto simp: at_points_def pending_def child_code_def parent_code_def)
  then have False if "act (parent w) (in_pipe w) (child w) = None" "act (child w) (in_pipe w) (parent w) = None"
    using child_waits [OF inv that(1)] parent_waits [OF inv that(2)] assms(2) by (auto simp: exited_def)
  then consider y where "act (parent w) (in_pipe w) (child w) = Some y" | y where "act (child w) (in_pipe w) (parent w) = Some y"
    by blast
  then show ?thesis by cases (metis prod_cases3 pipe_step.intros)+
qed

interpretation pipe: step_progress pipe_step pipe_inv todo exited
  by unfold_locales (auto intro: pipe_inv_step pipe_todo_step pipe_not_blocked)

lemma forked_inv: "pipe_inv forked"
  unfolding pipe_inv_def
  by (rule exI [of _ 0], rule exI [of _ 0], rule exI [of _ None], rule exI [of _ "[]"])
     (simp add: at_points_def forked_def pending_def said_def)

lemma exited_said:
  assumes "pipe_inv w" and "exited w"
  shows "said True w = ''Child: What is the secret in this pipe?'' @ NL @ ''Child: '' @ NL @ secret @ CHR 0x22 # NL @
      ''Child: Wow! I must go see my father.'' @ NL \<and>
    last (printed w) = (False, ''Parent: Hellow child!'' @ NL)"
proof -
  obtain i j x got where inv: "at_points i j x got w" using assms(1) by (auto simp: pipe_inv_def)
  have "code (parent w) = drop i parent_code" "code (child w) = pending x @ drop j child_code" "i \<le> 6" "j \<le> 7"
    using inv by (simp_all add: at_points_def)
  then have "i = 6" "j = 7" using assms(2) by (auto simp: exited_def parent_code_def child_code_def)
  then show ?thesis using inv by (auto simp: at_points_def child_code_def)
qed

text \<open>C27: Whatever the scheduling, parent and child never wait for ever and no run is endless; when both have
  exited the child has printed the whole secret between its lines, and the parent's greeting is the
  last thing printed.\<close>

theorem pipe_delivers:
  assumes "steps pipe_step forked w"
  shows "(\<exists>w'. steps pipe_step w w' \<and> exited w') \<and>
    (\<forall>f. f 0 = w \<longrightarrow> (\<exists>n. \<not> pipe_step (f n) (f (Suc n)))) \<and>
    (exited w \<longrightarrow>
      said True w = ''Child: What is the secret in this pipe?'' @ NL @ ''Child: '' @ NL @ secret @ CHR 0x22 # NL @
        ''Child: Wow! I must go see my father.'' @ NL \<and>
      last (printed w) = (False, ''Parent: Hellow child!'' @ NL))"
proof -
  have inv: "pipe_inv w" using pipe.inv_steps [OF assms forked_inv] .
  then show ?thesis using pipe.can_finish [OF inv] pipe.no_endless_run exited_said [OF inv] by blast
qed

theorem pipe_delivers_witness:
  "\<exists>w. steps pipe_step forked w \<and> exited w \<and> last (printed w) = (False, ''Parent: Hellow child!'' @ NL)"
proof -
  obtain w where w: "steps pipe_step forked w" "exited w" using pipe_delivers [OF steps.Refl] by blast
  with pipe_delivers [OF w(1)] show ?thesis by blast
qed

section \<open>A pipeline of three commands\<close>

text \<open>\<open>ls | grep .c | wc -l\<close>: the tables of the three children and of the parent.\<close>

definition demo_pipeline :: "nat \<times> nat \<Rightarrow> nat \<times> nat \<Rightarrow> fdtable \<Rightarrow> fdtable list \<times> fdtable" where
  "demo_pipeline pipe1 pipe2 t =
     (let t = open_pipes 0 [pipe1, pipe2] t;
          ls = close_pipes [pipe1, pipe2] (dup2 (snd pipe1) 1 t);
          grep = close_pipes [pipe1, pipe2] (dup2 (snd pipe2) 1 (dup2 (fst pipe1) 0 t));
          wc = close_pipes [pipe1, pipe2] (dup2 (fst pipe2) 0 t)
      in ([ls, grep, wc], close_pipes [pipe1, pipe2] t))"

text \<open>The program for \<open>ls | grep .c | wc -l\<close> gives its three commands and itself exactly the descriptors
  the shell gives to a pipeline of three commands, although the shell opens one pipe more.\<close>

lemma demo_pipeline_as_shell:
  assumes "pipes_fresh [p1, p2, p3] t" and "t 0 = Some x" and "t 1 = Some y"
  shows "demo_pipeline p1 p2 t = pipeline_fds [p1, p2, p3] t"
proof -
  have kids: "child_fds [p1, p2, p3] (open_pipes 0 [p1, p2, p3] t) i =
      t(0 \<mapsto> if 0 < i then PipeR (i - 1) else x, 1 \<mapsto> if i < 2 then PipeW i else y)" if "i < 3" for i
    using child_table [OF assms, of i] that by simp
  obtain r1 w1 r2 w2 where p: "p1 = (r1, w1)" "p2 = (r2, w2)" by fastforce
  have d: "distinct [r1, w1, r2, w2]" "t r1 = None" "t w1 = None" "t r2 = None" "t w2 = None"
    using assms(1) by (auto simp: pipes_fresh_def ends_def p)
  have n: "n \<noteq> 0 \<and> n \<noteq> Suc 0" if "t n = None" for n using that assms(2,3) by (metis One_nat_def option.distinct(1))
  note n = n [OF d(2)] n [OF d(3)] n [OF d(4)] n [OF d(5)]
  have "demo_pipeline p1 p2 t =
      ([t(0 \<mapsto> x, 1 \<mapsto> PipeW 0), t(0 \<mapsto> PipeR 0, 1 \<mapsto> PipeW 1), t(0 \<mapsto> PipeR 1, 1 \<mapsto> y)], t)"
    using d n assms(2,3) by (auto simp: demo_pipeline_def p Let_def dup2_def fun_eq_iff)
  then show ?thesis
    using kids [of 0] kids [of 1] kids [of 2] parent_table [OF assms(1)]
    by (simp add: pipeline_fds_def Let_def numeral_3_eq_3 numeral_2_eq_2)
qed

lemma demo_pipeline_as_shell_instance:
  "demo_pipeline (3, 4) (5, 6) [0 \<mapsto> Tty, 1 \<mapsto> Tty, 2 \<mapsto> Tty] =
     pipeline_fds [(3, 4), (5, 6), (7, 8)] [0 \<mapsto> Tty, 1 \<mapsto> Tty, 2 \<mapsto> Tty]"
  by (rule demo_pipeline_as_shell [of _ _ _ _ Tty Tty]) (simp_all add: pipes_fresh_def ends_def)

end
