(* ===== verification/Raw_Input.thy ===== *)
theory Raw_Input
  imports Shell_Edit
begin

text \<open>
  Two of the study programs the shell grew out of: the line reader in raw mode
  (\<open>theories/c/input_modes/non_canonical_mode.c\<close>), and the function that is entered again from a signal
  handler while it runs (\<open>theories/c/signal/handling_signals.c\<close>).

  The reader ignores what \<open>read\<close> returns: at the end of the input the byte read before is taken again.
  Its loop need not end, so it is a partial function whose value \<open>None\<close> means that it runs for ever.
\<close>

section \<open>Reading a line in raw mode\<close>

definition enable_raw :: "tty \<Rightarrow> tty" where
  "enable_raw t = t\<lparr>original := flags t, flags := (flags t)\<lparr>echo := False, icanon := False\<rparr>\<rparr>"

text \<open>What is printed for the two bytes behind an escape.\<close>

definition arrow_text :: "char \<Rightarrow> char \<Rightarrow> string" where
  "arrow_text second third =
     (if second \<noteq> CHR ''['' then []
      else if third = CHR ''A'' then [LF] @ ''UP'' @ [LF]
      else if third = CHR ''B'' then [LF] @ ''DOWN'' @ [LF]
      else if third = CHR ''C'' then [LF] @ ''RIGHT'' @ [LF]
      else if third = CHR ''D'' then [LF] @ ''LEFT'' @ [LF]
      else [])"

partial_function (option) raw_loop ::
  "mem \<Rightarrow> char option \<Rightarrow> string \<Rightarrow> string \<Rightarrow> (string \<times> string) result option" where
  "raw_loop inp prev buf w =
     (case (case inp of [] \<Rightarrow> prev | x # _ \<Rightarrow> Some x) of
        None \<Rightarrow> Some (Inl Uninit)
      | Some c \<Rightarrow>
          if c = LF then Some (if length buf < 1024 then Inr (buf, w) else Inl OutOfBounds)
          else if c = DEL then
            raw_loop (tl inp) (Some c) (butlast buf) (if buf \<noteq> [] then w @ [BS, SP, BS] else w)
          else if c = ESC then
            (case tl inp of
               [] \<Rightarrow> Some (Inl Uninit)
             | [a] \<Rightarrow> if a = CHR ''['' then Some (Inl Uninit) else raw_loop [] (Some c) buf w
             | a # b # r \<Rightarrow> raw_loop r (Some c) buf (w @ arrow_text a b))
          else if length buf < 1024 then raw_loop (tl inp) (Some c) (buf @ [c]) (w @ [c])
          else Some (Inl OutOfBounds))"

definition raw_main :: "tty \<Rightarrow> mem \<Rightarrow> (string \<times> tty) result option" where
  "raw_main t inp =
     map_option (\<lambda>r. ebind r (\<lambda>(buf, w).
       Inr (''Type something: '' @ w @ [LF, LF] @ ''Result = '' @ cstr buf @ [LF], disable_raw_mode (enable_raw t))))
       (raw_loop inp None [] [])"

section \<open>Re-entered from a handler\<close>

text \<open>The text printed by \<open>func\<close> and the static buffer afterwards; \<open>raise\<close> runs the handler at once.\<close>

function func :: "string \<Rightarrow> string \<times> string" where
  "func str =
     (let buffer = take 199 str;
          copied = ''Copied '' @ CHR 0x22 # buffer @ CHR 0x22 # '' into buffer'' @ [LF]
      in if str = ''Hello'' then
           let (t, buffer) = func ''World''
           in (copied @ ''Raising SIGUSR1 before printing...'' @ [LF, LF] @
               [LF] @ ''[Signal Handler] Interrupt received!'' @ [LF] @ t @ buffer @ [LF], buffer)
         else (copied @ buffer @ [LF], buffer))"
  by pat_completeness auto

termination
  by (relation "measure (\<lambda>s. if s = ''Hello'' then 1 else 0)") auto

declare func.simps [simp del]

section \<open>Properties\<close>

fun plain_key :: "key \<Rightarrow> bool" where
  "plain_key (Type c) = printable c"
| "plain_key Interrupt = False"
| "plain_key _ = True"

fun edit_plain :: "string \<Rightarrow> key \<Rightarrow> string" where
  "edit_plain l (Type c) = l @ [c]"
| "edit_plain l Rubout = butlast l"
| "edit_plain l _ = l"

definition short_edits :: "string \<Rightarrow> key list \<Rightarrow> bool" where
  "short_edits l ks \<longleftrightarrow> (\<forall>n \<le> length ks. length (foldl edit_plain l (take n ks)) < 1024)"

lemma short_edits_Cons: "short_edits l (k # ks) \<Longrightarrow> length l < 1024 \<and> short_edits (edit_plain l k) ks"
  unfolding short_edits_def
proof
  assume a: "\<forall>n \<le> length (k # ks). length (foldl edit_plain l (take n (k # ks))) < 1024"
  show "length l < 1024" using a [THEN spec, of 0] by simp
  show "\<forall>n \<le> length ks. length (foldl edit_plain (edit_plain l k) (take n ks)) < 1024"
    using a by (metis Suc_le_mono foldl_Cons length_Cons take_Suc_Cons)
qed

lemma raw_loop_keys:
  "list_all plain_key ks \<Longrightarrow> short_edits buf ks \<Longrightarrow>
     \<exists>w'. raw_loop (keys ks @ LF # r) prev buf w = Some (Inr (foldl edit_plain buf ks, w'))"
proof (induction ks arbitrary: prev buf w)
  case Nil
  then show ?case by (subst raw_loop.simps) (simp add: keys_def short_edits_def)
next
  case (Cons k ks)
  have IH: "\<exists>w'. raw_loop (keys ks @ LF # r) prev (edit_plain buf k) w = Some (Inr (foldl edit_plain (edit_plain buf k) ks, w'))"
    for prev w using Cons.IH Cons.prems short_edits_Cons by simp
  have len: "length buf < 1024" using Cons.prems(2) short_edits_Cons by blast
  show ?case
    using Cons.prems(1) IH len
    by (cases k) (subst raw_loop.simps, auto simp: keys_def dest: printable_chars)+
qed

text \<open>The reader hands out the line the keys mean, as long as it stays below 1024 bytes, and leaves the
  terminal in its original mode.\<close>

lemma raw_main_line:
  assumes "list_all plain_key ks" and "short_edits [] ks"
  shows "\<exists>w. raw_main t (keys ks @ LF # r) =
    Some (Inr (''Type something: '' @ w @ [LF, LF] @ ''Result = '' @ cstr (foldl edit_plain [] ks) @ [LF],
      t\<lparr>original := flags t\<rparr>))"
  using raw_loop_keys [OF assms, of r None "[]"]
  by (auto simp: raw_main_def disable_raw_mode_def enable_raw_def)

text \<open>When the input ends behind an ordinary byte, this byte is stored again and again until the buffer
  is full and overrun.\<close>

lemma raw_eof_overruns:
  "c \<noteq> LF \<Longrightarrow> c \<noteq> DEL \<Longrightarrow> c \<noteq> ESC \<Longrightarrow> length buf \<le> 1024 \<Longrightarrow> raw_loop [] (Some c) buf w = Some (Inl OutOfBounds)"
proof (induction "1024 - length buf" arbitrary: buf w)
  case 0
  then show ?case by (subst raw_loop.simps) simp
next
  case (Suc n)
  then show ?case by (subst raw_loop.simps) simp
qed

text \<open>After the signal the interrupted call prints the text of the call that interrupted it.\<close>

lemma func_not_reentrant:
  "func ''Hello'' =
     (''Copied '' @ CHR 0x22 # ''Hello'' @ CHR 0x22 # '' into buffer'' @ [LF] @
      ''Raising SIGUSR1 before printing...'' @ [LF, LF] @ [LF] @ ''[Signal Handler] Interrupt received!'' @ [LF] @
      ''Copied '' @ CHR 0x22 # ''World'' @ CHR 0x22 # '' into buffer'' @ [LF] @ ''World'' @ [LF] @ ''World'' @ [LF],
      ''World'')"
proof -
  have "func ''World'' = (''Copied '' @ CHR 0x22 # ''World'' @ CHR 0x22 # '' into buffer'' @ [LF] @ ''World'' @ [LF], ''World'')"
    by (subst func.simps) simp
  then show ?thesis by (subst func.simps) simp
qed

end
