(* ===== verification/Stdio.thy ===== *)
theory Stdio
  imports CLib Step_System
begin

text \<open>
  Programs about the buffer of \<open>stdout\<close>, process images and signals: \<open>stdout_buffering.c\<close>, \<open>buffer_demo.c\<close>,
  \<open>fork.c\<close>, \<open>execvp.c\<close> with \<open>sample_program.c\<close>, \<open>signal.c\<close>, \<open>user_define_signal_handler.c\<close>, \<open>sigaction.c\<close> and the
  two files of \<open>test_makefile\<close>.

  A stream holds what was printed and not yet written (\<open>held\<close>) and the pieces it has written (\<open>sent\<close>, one per
  \<open>write\<close>), in the way the C standard describes the three kinds of buffering: characters are passed on as soon
  as possible, when a line ends, or when the buffer is full; \<open>cap\<close> is its size. Returning from \<open>main\<close>
  flushes, \<open>_exit\<close>, a fatal signal and a successful \<open>exec\<close> do not. \<open>sleep\<close> orders nothing and is left out.
\<close>

section \<open>Buffered output\<close>

datatype buffering = Unbuffered | Line_buffered | Fully_buffered

record stream =
  mode :: buffering
  held :: string
  sent :: "string list"

definition open_stdout :: "bool \<Rightarrow> stream" where
  "open_stdout tty = \<lparr>mode = if tty then Line_buffered else Fully_buffered, held = [], sent = []\<rparr>"

definition setvbuf :: "buffering \<Rightarrow> stream \<Rightarrow> stream" where
  "setvbuf m s = s\<lparr>mode := m\<rparr>"

definition fflush :: "stream \<Rightarrow> stream" where
  "fflush s = (if held s = [] then s else s\<lparr>held := [], sent := sent s @ [held s]\<rparr>)"

definition put_char :: "nat \<Rightarrow> char \<Rightarrow> stream \<Rightarrow> stream" where
  "put_char cap c s =
     (let s' = s\<lparr>held := held s @ [c]\<rparr>
      in if mode s = Unbuffered \<or> mode s = Line_buffered \<and> c = LF \<or> cap \<le> length (held s') then fflush s' else s')"

definition print :: "nat \<Rightarrow> string \<Rightarrow> stream \<Rightarrow> stream" where
  "print cap = fold (put_char cap)"

text \<open>\<open>write(1, ...)\<close> passes the buffer by; a process that ends without \<open>exit\<close> loses its buffer.\<close>

definition write_out :: "string \<Rightarrow> stream \<Rightarrow> stream" where
  "write_out t s = s\<lparr>sent := sent s @ [t]\<rparr>"

definition lose_buffer :: "stream \<Rightarrow> stream" where
  "lose_buffer s = s\<lparr>held := []\<rparr>"

definition seen :: "stream \<Rightarrow> string" where
  "seen s = concat (sent s)"

section \<open>The programs\<close>

subsection \<open>Buffering\<close>

definition working_line :: "nat \<Rightarrow> string" where
  "working_line i = ''working... '' @ int_str (int i) @ [LF]"

text \<open>\<open>stdout_buffering.c\<close> after \<open>n\<close> rounds of its endless loop.\<close>

definition stdout_buffering :: "nat \<Rightarrow> bool \<Rightarrow> nat \<Rightarrow> stream" where
  "stdout_buffering cap tty n =
     fold (print cap) (map working_line [1..<n + 1]) (print cap (''booting up'' @ [LF]) (open_stdout tty))"

text \<open>\<open>buffer_demo.c\<close> when it has come to its endless sleep.\<close>

definition demo_mode :: "string list \<Rightarrow> string" where
  "demo_mode argv = (if length argv > 1 then argv ! 1 else ''default'')"

definition buffer_demo :: "nat \<Rightarrow> bool \<Rightarrow> string list \<Rightarrow> stream" where
  "buffer_demo cap tty argv =
     (let m = demo_mode argv; s = open_stdout tty;
          s1 = (if m = ''line'' then setvbuf Line_buffered s
                else if m = ''none'' then setvbuf Unbuffered s
                else if m = ''full'' then setvbuf Fully_buffered s
                else s)
      in fold (print cap) (map (\<lambda>i. ''tick '' @ int_str i @ [LF]) [1, 2, 3])
           (print cap (''started ('' @ m @ '')'' @ [LF]) s1))"

subsection \<open>Processes\<close>

text \<open>\<open>fork.c\<close>: both processes write to the same file; the order of their writes is open.\<close>

definition fork_child :: "nat \<Rightarrow> int \<Rightarrow> int \<Rightarrow> stream \<Rightarrow> stream" where
  "fork_child cap pid ppid s =
     fflush (print cap (''Child: My PID is '' @ int_str pid @ '', Parent PID is '' @ int_str ppid @ [LF, LF])
       (print cap (''Hello from the Child Process!'' @ [LF]) s))"

definition fork_parent :: "nat \<Rightarrow> int \<Rightarrow> int \<Rightarrow> stream \<Rightarrow> stream" where
  "fork_parent cap pid child s =
     fflush (print cap (''Parent: My PID is '' @ int_str pid @ '', My Child's PID is '' @ int_str child @ [LF, LF])
       (print cap (''Hello from the Parent Process!'' @ [LF]) s))"

definition fork_main :: "nat \<Rightarrow> bool \<Rightarrow> int \<Rightarrow> int \<Rightarrow> string set \<times> int" where
  "fork_main cap tty self pid =
     (let s = open_stdout tty
      in if pid < 0 then ({''''}, 1)
         else (concat ` shuffles (sent (fork_child cap pid self s)) (sent (fork_parent cap self pid s)), 0))"

text \<open>\<open>execvp.c\<close>, which becomes \<open>sample_program.c\<close> when the call succeeds.\<close>

definition padded :: "nat \<Rightarrow> string \<Rightarrow> string" where
  "padded n t = replicate (n - length t) SP @ t"

definition sample_main :: "nat \<Rightarrow> int \<Rightarrow> string list \<Rightarrow> stream \<Rightarrow> stream" where
  "sample_main cap pid argv s =
     fflush (print cap (''pid inside sample_program: '' @ int_str pid @ [LF])
       (fold (print cap) (map (\<lambda>a. a @ [LF]) argv)
         (print cap (''Arguments passed: '' @ padded 5 (int_str (int (length argv))) @ [LF]) s)))"

definition execvp_args :: "string list" where
  "execvp_args = [''./sample_program'', ''1'', ''3'', ''5'']"

definition execvp_main :: "nat \<Rightarrow> bool \<Rightarrow> int \<Rightarrow> bool \<Rightarrow> stream" where
  "execvp_main cap tty pid found =
     (let s = print cap (''pid inside execvp: '' @ padded 10 (int_str pid) @ [LF]) (open_stdout tty)
      in if found then sample_main cap pid execvp_args (lose_buffer s)
         else fflush (print cap (''Will not print, as on success execvp() never returns because '' @ replicate 12 SP @
           ''the current process image is replaced'') s))"

text \<open>\<open>test_makefile\<close>\<close>

definition print_hello :: "nat \<Rightarrow> stream \<Rightarrow> stream" where
  "print_hello cap s = print cap (''Hello World!'' @ [LF]) s"

definition hello_main :: "nat \<Rightarrow> bool \<Rightarrow> stream" where
  "hello_main cap tty = fflush (print_hello cap (open_stdout tty))"

subsection \<open>Signals\<close>

text \<open>\<open>signal.c\<close>: \<open>while(--i)\<close>\<close>

fun dots :: "nat \<Rightarrow> stream \<Rightarrow> stream" where
  "dots 0 s = s"
| "dots (Suc i) s = (if i = 0 then s else dots i (write_out ''.'' s))"

definition signal_main :: "nat \<Rightarrow> bool \<Rightarrow> int \<Rightarrow> stream" where
  "signal_main cap tty pid =
     fflush (write_out ''Done!'' (dots 60 (print cap (''My pid is '' @ int_str pid @ [LF]) (open_stdout tty))))"

text \<open>\<open>user_define_signal_handler.c\<close>, interrupted after \<open>n\<close> rounds. \<open>sizeof(msg)\<close> counts the zero byte.\<close>

definition signalHandler :: "int \<Rightarrow> stream \<Rightarrow> stream \<times> int" where
  "signalHandler sig s = (lose_buffer (write_out (''Caught SIGINT'' @ [LF] @ [NUL]) s), sig)"

definition handler_main :: "nat \<Rightarrow> bool \<Rightarrow> nat \<Rightarrow> stream \<times> int" where
  "handler_main cap tty n =
     signalHandler 2 (fold (print cap) (replicate n (''Hello World!'' @ [LF])) (open_stdout tty))"

section \<open>What reaches the file\<close>

lemma seen_fflush: "seen (fflush s) = seen s @ held s"
  by (simp add: fflush_def seen_def)

lemma put_Nil [simp]: "print cap [] s = s"
  by (simp add: print_def)

lemma put_append: "print cap (t @ u) s = print cap u (print cap t s)"
  by (simp add: print_def)

lemma put_all: "fold (print cap) ts s = print cap (concat ts) s"
  by (induction ts arbitrary: s) (simp_all add: put_append)

text \<open>Nothing is lost or reordered in the buffer.\<close>

lemma put_char_content: "seen (put_char cap c s) @ held (put_char cap c s) = seen s @ held s @ [c]"
  by (simp add: put_char_def fflush_def seen_def Let_def)

lemma put_char_mode [simp]: "mode (put_char cap c s) = mode s"
  by (simp add: put_char_def fflush_def Let_def)

lemma put_content: "seen (print cap t s) @ held (print cap t s) = seen s @ held s @ t"
proof (induction t arbitrary: s)
  case (Cons c t)
  have "print cap (c # t) s = print cap t (put_char cap c s)" by (simp add: print_def)
  with Cons [of "put_char cap c s"] put_char_content [of cap c s] show ?case
    by (metis append.assoc append_Cons append_Nil)
qed simp

lemma put_mode [simp]: "mode (print cap t s) = mode s"
  by (induction t arbitrary: s) (simp_all add: print_def)

text \<open>A short text stays in a full buffer.\<close>

lemma put_short: "mode s = Fully_buffered \<Longrightarrow> length (held s) + length t < cap \<Longrightarrow> print cap t s = s\<lparr>held := held s @ t\<rparr>"
proof (induction t arbitrary: s)
  case (Cons c t)
  then have "put_char cap c s = s\<lparr>held := held s @ [c]\<rparr>" by (simp add: put_char_def)
  with Cons.IH [of "s\<lparr>held := held s @ [c]\<rparr>"] Cons.prems show ?case by (simp add: print_def)
qed simp

text \<open>Full buffering hands the text on in whole blocks.\<close>

definition in_blocks :: "nat \<Rightarrow> stream \<Rightarrow> bool" where
  "in_blocks cap s \<longleftrightarrow> mode s = Fully_buffered \<and> length (held s) < cap \<and> cap dvd length (seen s)"

lemma in_blocks_put_char: "in_blocks cap s \<Longrightarrow> in_blocks cap (put_char cap c s)"
proof -
  assume s: "in_blocks cap s"
  show ?thesis
  proof (cases "Suc (length (held s)) < cap")
    case True
    with s show ?thesis by (simp add: in_blocks_def put_char_def seen_def)
  next
    case False
    with s have c: "cap = Suc (length (held s))" by (simp add: in_blocks_def)
    then have "length (seen s) + Suc (length (held s)) = length (seen s) + cap" by simp
    then have "cap dvd length (seen s) + Suc (length (held s))" using s by (simp only: in_blocks_def dvd_add dvd_refl)
    with s c show ?thesis by (simp add: in_blocks_def put_char_def fflush_def seen_def)
  qed
qed

lemma in_blocks_put: "in_blocks cap s \<Longrightarrow> in_blocks cap (print cap t s)"
  by (induction t arbitrary: s) (simp_all add: print_def in_blocks_put_char)

lemma block_split:
  assumes "xs @ ys = t" and "cap dvd length xs" and "length ys < cap"
  shows "xs = take (cap * (length t div cap)) t"
proof -
  from assms(2) obtain k where "length xs = cap * k" by blast
  moreover from this assms have "length t div cap = k" by (auto simp: div_add1_eq)
  ultimately show ?thesis using assms(1) by auto
qed

lemma put_blocks:
  assumes "0 < cap"
  shows "seen (print cap t (open_stdout False)) = take (cap * (length t div cap)) t"
proof -
  have "in_blocks cap (print cap t (open_stdout False))"
    by (rule in_blocks_put) (simp add: assms in_blocks_def open_stdout_def seen_def)
  moreover have "seen (open_stdout False) = []" "held (open_stdout False) = []"
    by (simp_all add: open_stdout_def seen_def)
  ultimately show ?thesis
    using put_content [of cap t "open_stdout False"] by (intro block_split) (auto simp: in_blocks_def)
qed

text \<open>A line that has ended is never held back on a terminal.\<close>

lemma put_line: "mode s = Line_buffered \<Longrightarrow> held (print cap (t @ [LF]) s) = []"
proof -
  assume "mode s = Line_buffered"
  then have "held (put_char cap LF (print cap t s)) = []" by (simp add: put_char_def fflush_def)
  then show ?thesis by (simp add: put_append) (simp add: print_def)
qed

lemma put_lines_seen:
  assumes "mode s = Line_buffered" and "t = [] \<and> held s = [] \<or> t \<noteq> [] \<and> last t = LF"
  shows "seen (print cap t s) = seen s @ held s @ t" and "held (print cap t s) = []"
proof -
  show h: "held (print cap t s) = []"
    using assms put_line [of s cap "butlast t"] by (cases "t = []") (auto, metis append_butlast_last_id)
  show "seen (print cap t s) = seen s @ held s @ t" using put_content [of cap t s] h by simp
qed

lemma last_concat: "ts \<noteq> [] \<Longrightarrow> last ts \<noteq> [] \<Longrightarrow> last (concat ts) = last (last ts)"
  by (induction ts rule: rev_induct) simp_all

subsection \<open>The demonstrations of buffering\<close>

definition buffering_text :: "nat \<Rightarrow> string" where
  "buffering_text n = ''booting up'' @ [LF] @ concat (map working_line [1..<n + 1])"

lemma buffering_text_last: "last (buffering_text n) = LF" "buffering_text n \<noteq> []"
  by (cases n) (simp_all add: buffering_text_def working_line_def upt_Suc_append del: upt_Suc)

lemma stdout_buffering_put: "stdout_buffering cap tty n = print cap (buffering_text n) (open_stdout tty)"
  by (simp add: stdout_buffering_def buffering_text_def put_all flip: put_append)

text \<open>
  What \<open>stdout_buffering.c\<close> has shown after \<open>n\<close> rounds: on a terminal everything it printed; on a pipe or in a file
  only the whole blocks, so nothing before the first block is full, and never the end of the text.
\<close>

lemma stdout_buffering_output:
  assumes "0 < cap"
  shows "seen (stdout_buffering cap True n) = buffering_text n"
    and "seen (stdout_buffering cap False n) = take (cap * (length (buffering_text n) div cap)) (buffering_text n)"
  using put_lines_seen(1) [of "open_stdout True" "buffering_text n" cap] buffering_text_last [of n]
    put_blocks [OF assms]
  by (simp_all add: stdout_buffering_put) (simp add: open_stdout_def seen_def)

definition demo_text :: "string \<Rightarrow> string" where
  "demo_text m = ''started ('' @ m @ '')'' @ [LF] @ concat (map (\<lambda>i. ''tick '' @ int_str i @ [LF]) [1, 2, 3])"

lemma put_unbuffered: "mode s = Unbuffered \<Longrightarrow> held s = [] \<Longrightarrow> seen (print cap t s) = seen s @ t"
proof (induction t arbitrary: s)
  case (Cons c t)
  then show ?case by (simp add: print_def put_char_def fflush_def seen_def Let_def)
qed simp

lemma buffer_demo_put:
  "buffer_demo cap tty argv =
     (let m = demo_mode argv; s = open_stdout tty
      in print cap (demo_text m)
          (if m = ''line'' then setvbuf Line_buffered s else if m = ''none'' then setvbuf Unbuffered s
           else if m = ''full'' then setvbuf Fully_buffered s else s))"
  by (simp add: buffer_demo_def demo_text_def Let_def put_all flip: put_append)

text \<open>\<open>buffer_demo.c\<close> on a pipe: its output is seen exactly in the modes \<open>line\<close> and \<open>none\<close>.\<close>

lemma buffer_demo_on_pipe:
  assumes "length (demo_text (demo_mode argv)) < cap"
  shows "seen (buffer_demo cap False argv) =
    (if demo_mode argv = ''line'' \<or> demo_mode argv = ''none'' then demo_text (demo_mode argv) else [])"
proof -
  obtain m where m: "demo_mode argv = m" by simp
  let ?s = "open_stdout False"
  have last: "demo_text m \<noteq> [] \<and> last (demo_text m) = LF" by (simp add: demo_text_def)
  have line: "seen (print cap (demo_text m) (setvbuf Line_buffered ?s)) = demo_text m"
    using put_lines_seen(1) [of "setvbuf Line_buffered ?s" "demo_text m" cap] last
    by (simp add: setvbuf_def open_stdout_def seen_def)
  have none: "seen (print cap (demo_text m) (setvbuf Unbuffered ?s)) = demo_text m"
    using put_unbuffered [of "setvbuf Unbuffered ?s"] by (simp add: setvbuf_def open_stdout_def seen_def)
  have full: "seen (print cap (demo_text m) ?s) = []"
    using put_short [of ?s "demo_text m" cap] assms m by (simp add: open_stdout_def seen_def)
  have same: "setvbuf Fully_buffered ?s = ?s" by (simp add: setvbuf_def open_stdout_def)
  show ?thesis using line none full by (auto simp: buffer_demo_put Let_def m same)
qed

subsection \<open>Lost and reordered output\<close>

text \<open>A process that replaces its image or ends with \<open>_exit\<close> loses what a pipe has not got yet.\<close>

lemma execvp_output:
  assumes "length (''pid inside execvp: '' @ padded 10 (int_str pid) @ [LF]) < cap"
  shows "seen (execvp_main cap False pid True) = seen (sample_main cap pid execvp_args (open_stdout False))"
  using put_short [of "open_stdout False" _ cap] assms
  by (simp add: execvp_main_def lose_buffer_def open_stdout_def)

lemma handler_output:
  assumes "n * 13 < cap"
  shows "seen (fst (handler_main cap False n)) = ''Caught SIGINT'' @ [LF] @ [NUL]"
proof -
  have len: "length (concat (replicate n (''Hello World!'' @ [LF]))) = n * 13" by (induction n) simp_all
  show ?thesis
    using put_short [of "open_stdout False" "concat (replicate n (''Hello World!'' @ [LF]))" cap] assms
    by (simp only: handler_main_def signalHandler_def put_all len fst_conv)
       (simp add: lose_buffer_def write_out_def open_stdout_def seen_def)
qed

lemma handler_on_terminal:
  "seen (fst (handler_main cap True n)) =
     concat (replicate n (''Hello World!'' @ [LF])) @ ''Caught SIGINT'' @ [LF] @ [NUL]"
proof -
  let ?t = "concat (replicate n (''Hello World!'' @ [LF]))"
  have "concat (replicate (Suc k) u) = concat (replicate k u) @ u" for k and u :: string by (induction k) simp_all
  then have "?t = [] \<or> ?t \<noteq> [] \<and> last ?t = LF" by (cases n) simp_all
  then have "seen (print cap ?t (open_stdout True)) = ?t"
    using put_lines_seen(1) [of "open_stdout True" ?t cap] by (auto simp: open_stdout_def seen_def)
  then show ?thesis
    by (simp only: handler_main_def signalHandler_def put_all fst_conv) (simp add: lose_buffer_def write_out_def seen_def)
qed

text \<open>\<open>signal.c\<close> mixes \<open>printf\<close> and \<open>write\<close>: on a terminal the pid comes first, on a pipe last.\<close>

lemma dots_write: "dots (Suc i) s = s\<lparr>sent := sent s @ replicate i ''.''\<rparr>"
  by (induction i arbitrary: s) (simp_all add: write_out_def replicate_append_same)

lemma signal_order:
  assumes "length (''My pid is '' @ int_str pid @ [LF]) < cap"
  shows "seen (signal_main cap True pid) = ''My pid is '' @ int_str pid @ [LF] @ replicate 59 (CHR ''.'') @ ''Done!''"
    and "seen (signal_main cap False pid) = replicate 59 (CHR ''.'') @ ''Done!'' @ ''My pid is '' @ int_str pid @ [LF]"
proof -
  let ?t = "''My pid is '' @ int_str pid @ [LF]"
  have d: "dots 60 s = s\<lparr>sent := sent s @ replicate 59 ''.''\<rparr>" for s using dots_write [of 59 s] by simp
  have c: "concat (replicate k ''.'') = replicate k (CHR ''.'')" for k by (induction k) simp_all
  have m: "signal_main cap tty pid = fflush (write_out ''Done!'' (dots 60 (print cap ?t (open_stdout tty))))" for tty
    by (simp only: signal_main_def)
  have seen1: "seen (fflush (write_out ''Done!'' (dots 60 s))) = seen s @ replicate 59 (CHR ''.'') @ ''Done!'' @ held s" for s
    by (simp add: seen_fflush d) (simp add: write_out_def seen_def c)
  show "seen (signal_main cap True pid) = ''My pid is '' @ int_str pid @ [LF] @ replicate 59 (CHR ''.'') @ ''Done!''"
    using put_lines_seen [of "open_stdout True" ?t cap] by (simp add: m seen1) (simp add: open_stdout_def seen_def)
  show "seen (signal_main cap False pid) = replicate 59 (CHR ''.'') @ ''Done!'' @ ''My pid is '' @ int_str pid @ [LF]"
    using put_short [of "open_stdout False" ?t cap] assms by (simp add: m seen1) (simp add: open_stdout_def seen_def)
qed

text \<open>\<open>fork.c\<close> with its output in a pipe: the texts of the two processes are never mixed.\<close>

definition child_text :: "int \<Rightarrow> int \<Rightarrow> string" where
  "child_text pid ppid = ''Hello from the Child Process!'' @ [LF] @ ''Child: My PID is '' @ int_str pid @
     '', Parent PID is '' @ int_str ppid @ [LF, LF]"

definition parent_text :: "int \<Rightarrow> int \<Rightarrow> string" where
  "parent_text pid child = ''Hello from the Parent Process!'' @ [LF] @ ''Parent: My PID is '' @ int_str pid @
     '', My Child's PID is '' @ int_str child @ [LF, LF]"

lemma fork_put:
  "fork_child cap pid ppid s = fflush (print cap (child_text pid ppid) s)"
  "fork_parent cap self child s = fflush (print cap (parent_text self child) s)"
  by (simp_all add: fork_child_def fork_parent_def child_text_def parent_text_def flip: put_append)

lemma sent_once:
  "t \<noteq> [] \<Longrightarrow> length t < cap \<Longrightarrow> sent (fflush (print cap t (open_stdout False))) = [t]"
  using put_short [of "open_stdout False" t cap] by (simp add: open_stdout_def fflush_def)

lemma fork_on_pipe:
  assumes "0 \<le> pid" and "length (child_text pid self) < cap" and "length (parent_text self pid) < cap"
  shows "fst (fork_main cap False self pid) =
    {child_text pid self @ parent_text self pid, parent_text self pid @ child_text pid self}"
proof -
  have "child_text pid self \<noteq> []" "parent_text self pid \<noteq> []" by (simp_all add: child_text_def parent_text_def)
  then show ?thesis using assms by (simp add: fork_main_def Let_def fork_put sent_once insert_commute)
qed

section \<open>A handler that blocks another signal\<close>

text \<open>
  \<open>sigaction.c\<close>. A process is in its loop or in the handler, where \<open>sa_mask\<close> and the signal itself are
  blocked: a blocked signal stays pending. \<open>SIGQUIT\<close> has its default action. On Linux \<open>NSIG\<close> is 65.
\<close>

abbreviation SIGINT :: int where "SIGINT \<equiv> 2"
abbreviation SIGQUIT :: int where "SIGQUIT \<equiv> 3"

definition NSIG :: int where "NSIG = 65"

definition sigaddset :: "int set \<Rightarrow> int \<Rightarrow> int set" where
  "sigaddset ms i = (if i < 1 \<or> NSIG \<le> i then ms else insert i ms)"

definition sigismember :: "int set \<Rightarrow> int \<Rightarrow> int" where
  "sigismember ms i = (if i < 1 \<or> NSIG \<le> i then - 1 else if i \<in> ms then 1 else 0)"

definition sa_mask :: "int set" where
  "sa_mask = sigaddset {} SIGQUIT"

definition members_text :: "int set \<Rightarrow> string list" where
  "members_text ms =
     concat (map (\<lambda>i. if sigismember ms i \<noteq> 0 then [''Signal '' @ int_str i @ '' is in the set'' @ [LF]] else [])
       [0..NSIG - 1])"

record sig_process =
  handling :: bool
  pending :: "int set"
  said :: "string list"
  killed :: bool

definition sig_start :: sig_process where
  "sig_start = \<lparr>handling = False, pending = {}, said = members_text sa_mask, killed = False\<rparr>"

definition masked :: "sig_process \<Rightarrow> int set" where
  "masked s = (if handling s then insert SIGINT sa_mask else {})"

definition enter_handler :: "int \<Rightarrow> string list" where
  "enter_handler sig = [''Pressed '' @ int_str sig @ [LF], ''sleep handler method'' @ [LF]]"

inductive sig_step :: "sig_process \<Rightarrow> sig_process \<Rightarrow> bool" where
  Tick: "\<not> killed s \<Longrightarrow> \<not> handling s \<Longrightarrow> sig_step s (s\<lparr>said := said s @ [''...'' @ [LF]]\<rparr>)"
| Press: "\<not> killed s \<Longrightarrow> i \<in> {SIGINT, SIGQUIT} \<Longrightarrow> sig_step s (s\<lparr>pending := insert i (pending s)\<rparr>)"
| Handle: "\<not> killed s \<Longrightarrow> SIGINT \<in> pending s \<Longrightarrow> SIGINT \<notin> masked s \<Longrightarrow>
     sig_step s (s\<lparr>handling := True, pending := pending s - {SIGINT}, said := said s @ enter_handler SIGINT\<rparr>)"
| Wake: "\<not> killed s \<Longrightarrow> handling s \<Longrightarrow> sig_step s (s\<lparr>handling := False, said := said s @ [''wake up'' @ [LF]]\<rparr>)"
| Quit: "\<not> killed s \<Longrightarrow> SIGQUIT \<in> pending s \<Longrightarrow> SIGQUIT \<notin> masked s \<Longrightarrow> sig_step s (s\<lparr>killed := True\<rparr>)"

inductive_cases sig_stepE: "sig_step s t"

text \<open>What a run may say: dots, and handlers that are never interrupted; the last one may not have woken up.\<close>

inductive phases :: "string list \<Rightarrow> bool \<Rightarrow> bool" where
  "phases [] False"
| "phases w False \<Longrightarrow> phases (w @ [''...'' @ [LF]]) False"
| "phases w False \<Longrightarrow> phases (w @ enter_handler SIGINT) True"
| "phases w True \<Longrightarrow> phases (w @ [''wake up'' @ [LF]]) False"

definition sig_inv :: "sig_process \<Rightarrow> bool" where
  "sig_inv s \<longleftrightarrow> (\<exists>w. said s = members_text sa_mask @ w \<and> phases w (handling s)) \<and> (killed s \<longrightarrow> \<not> handling s)"

lemma SIGQUIT_masked: "SIGQUIT \<in> sa_mask"
  by (simp add: sa_mask_def sigaddset_def NSIG_def)

interpretation sigs: step_invariant sig_step sig_inv
proof
  fix s t
  assume s: "sig_inv s" and st: "sig_step s t"
  then obtain w where w: "said s = members_text sa_mask @ w" "phases w (handling s)" by (auto simp: sig_inv_def)
  from st show "sig_inv t"
  proof cases
    case Tick
    with w phases.intros(2) [of w] show ?thesis by (simp add: sig_inv_def)
  next
    case (Press i)
    with s show ?thesis by (simp add: sig_inv_def)
  next
    case Handle
    with w have "phases w False" by (simp add: masked_def split: if_splits)
    with Handle w phases.intros(3) [of w] show ?thesis by (simp add: sig_inv_def)
  next
    case Wake
    with w phases.intros(4) [of w] show ?thesis by (simp add: sig_inv_def)
  next
    case Quit
    with s SIGQUIT_masked show ?thesis by (auto simp: sig_inv_def masked_def split: if_splits)
  qed
qed

lemma sig_inv_start: "sig_inv sig_start"
  by (auto simp: sig_inv_def sig_start_def intro: phases.intros)

text \<open>
  However the keys are pressed, a handler runs to its end before the loop goes on, before another handler
  starts and before \<open>SIGQUIT\<close> ends the process.
\<close>

lemma handlers_run_to_end:
  assumes "steps sig_step sig_start s"
  shows "\<exists>w. said s = members_text sa_mask @ w \<and> phases w (handling s)" and "killed s \<Longrightarrow> \<not> handling s"
  using sigs.inv_steps [OF assms sig_inv_start] by (auto simp: sig_inv_def)

text \<open>The loop over the set starts with 0, which is no signal: \<open>sigismember\<close> answers -1, which counts as true.\<close>

lemma signal_zero_listed:
  "members_text sa_mask = [''Signal 0 is in the set'' @ [LF], ''Signal 3 is in the set'' @ [LF]]"
proof -
  have "concat (map (\<lambda>i. if f i then [g i] else []) is) = map g (filter f is)" for f and g :: "int \<Rightarrow> string" and "is"
    by (induction "is") simp_all
  then have "members_text sa_mask = map (\<lambda>i. ''Signal '' @ int_str i @ '' is in the set'' @ [LF])
      (filter (\<lambda>i. sigismember sa_mask i \<noteq> 0) [0..NSIG - 1])"
    by (simp add: members_text_def)
  also have "[0..NSIG - 1] = [0, 1, 2, 3] @ [4..NSIG - 1]" by (simp add: NSIG_def upto_rec1)
  also have "filter (\<lambda>i. sigismember sa_mask i \<noteq> 0) ([0, 1, 2, 3] @ [4..NSIG - 1]) = [0, 3]"
    by (auto simp: sigismember_def sa_mask_def sigaddset_def NSIG_def filter_empty_conv)
  finally show ?thesis by (simp add: int_str_def nat_str.simps)
qed

end
