(* ===== verification/Test_Suite.thy ===== *)
theory Test_Suite
  imports Redis_Props Calculator Diff_LCS
begin

text \<open>
  The repository's own tests, run on the model: the parser, command and hash table tests of the Redis clone
  (\<open>8. redis server/redis_clone/tests\<close>), the test of \<open>lcs_lines\<close> and those of the calculator. A test is a
  function that says which of its checks hold. The tests of the commands share one store, in the order
  of \<open>test_run.c\<close>; allocation succeeds, and the clock is constant but for the \<open>sleep\<close> of a test.
\<close>

section \<open>The parser\<close>

text \<open>The parsed value, after which it is released.\<close>

definition parsed :: "string \<Rightarrow> resp_value option" where
  "parsed msg = (case ebind (parse (msg @ [NUL])) (\<lambda>v. ebind (free_resp v) (\<lambda>_. Inr v)) of Inl _ \<Rightarrow> None | Inr v \<Rightarrow> Some v)"

abbreviation str_array :: "string list \<Rightarrow> resp_value" where
  "str_array ws \<equiv> RArray (int (length ws)) (map (\<lambda>w. Some (RSimple w)) ws)"

definition test_simple_string :: bool where
  "test_simple_string \<longleftrightarrow> parsed (''+hello world'' @ CRLF) = Some (RSimple ''hello world'')"

definition test_arr :: bool where
  "test_arr \<longleftrightarrow>
     parsed (''*3'' @ CRLF @ ''$3'' @ CRLF @ ''SET'' @ CRLF @ ''$4'' @ CRLF @ ''name'' @ CRLF @ ''$5'' @ CRLF @ ''hasan'' @ CRLF) =
       Some (str_array [''SET'', ''name'', ''hasan'']) \<and>
     parsed (''*2'' @ CRLF @ ''$4'' @ CRLF @ ''echo'' @ CRLF @ ''$11'' @ CRLF @ ''hello world'' @ CRLF) =
       Some (str_array [''echo'', ''hello world'']) \<and>
     parsed (''*2'' @ CRLF @ ''$3'' @ CRLF @ ''get'' @ CRLF @ ''$3'' @ CRLF @ ''key'' @ CRLF) = Some (str_array [''get'', ''key'']) \<and>
     parsed (''*-1'' @ CRLF) = Some (RArray (-1) [])"

definition test_error :: bool where
  "test_error \<longleftrightarrow> parsed (''-Error message'' @ CRLF) = Some (RError ''Error message'')"

definition test_integers :: bool where
  "test_integers \<longleftrightarrow> parsed ('':-100'' @ CRLF) = Some (RInteger (-100))"

section \<open>The commands\<close>

text \<open>A script of requests, each with the clock at its time and the expected reply.\<close>

fun replies_as :: "(u64 \<times> string \<times> string) list \<Rightarrow> table \<Rightarrow> table \<times> bool" where
  "replies_as [] t = (t, True)"
| "replies_as ((now, req, rep) # ps) t =
     (case exec_command all_ok (\<lambda>_. now) (req @ [NUL]) t of
        Inl _ \<Rightarrow> (t, False)
      | Inr (t', r) \<Rightarrow> if r = rep then replies_as ps t' else (t', False))"

definition set_name :: string where
  "set_name = ''*3'' @ CRLF @ ''$3'' @ CRLF @ ''SET'' @ CRLF @ ''$4'' @ CRLF @ ''name'' @ CRLF @ ''$5'' @ CRLF @ ''hasan'' @ CRLF"

definition get_name :: string where
  "get_name = ''*2'' @ CRLF @ ''$3'' @ CRLF @ ''get'' @ CRLF @ ''$4'' @ CRLF @ ''name'' @ CRLF"

definition test_ping :: "(u64 \<times> string \<times> string) list" where
  "test_ping = [(1000, ''*1'' @ CRLF @ ''$4'' @ CRLF @ ''PING'' @ CRLF, ''+PONG'' @ CRLF)]"

definition test_echo :: "(u64 \<times> string \<times> string) list" where
  "test_echo = [(1000, ''*2'' @ CRLF @ ''$4'' @ CRLF @ ''ECHO'' @ CRLF @ ''$11'' @ CRLF @ ''Hello World'' @ CRLF,
     ''$11'' @ CRLF @ ''Hello World'' @ CRLF)]"

definition test_echo_empty :: "(u64 \<times> string \<times> string) list" where
  "test_echo_empty = [(1000, ''*2'' @ CRLF @ ''$4'' @ CRLF @ ''ECHO'' @ CRLF @ ''$0'' @ CRLF @ CRLF, ''$0'' @ CRLF @ CRLF)]"

definition test_unknown_command :: "(u64 \<times> string \<times> string) list" where
  "test_unknown_command = [(1000, ''*1'' @ CRLF @ ''$3'' @ CRLF @ ''FOO'' @ CRLF, ''-ERR unknown command'' @ CRLF)]"

definition test_command_case_insensitive :: "(u64 \<times> string \<times> string) list" where
  "test_command_case_insensitive = [(1000, ''*1'' @ CRLF @ ''$4'' @ CRLF @ ''ping'' @ CRLF, ''+PONG'' @ CRLF)]"

definition test_set_without_ttl :: "(u64 \<times> string \<times> string) list" where
  "test_set_without_ttl = [(1000, set_name, ''+OK'' @ CRLF)]"

definition test_get_without_ttl :: "(u64 \<times> string \<times> string) list" where
  "test_get_without_ttl = [(1000, set_name, ''+OK'' @ CRLF), (1000, get_name, ''$5'' @ CRLF @ ''hasan'' @ CRLF)]"

definition test_get_with_ttl :: "(u64 \<times> string \<times> string) list" where
  "test_get_with_ttl =
     [(1000, ''*5'' @ CRLF @ ''$3'' @ CRLF @ ''SET'' @ CRLF @ ''$4'' @ CRLF @ ''name'' @ CRLF @ ''$5'' @ CRLF @ ''hasan'' @ CRLF @
         ''$2'' @ CRLF @ ''EX'' @ CRLF @ ''$1'' @ CRLF @ ''2'' @ CRLF, ''+OK'' @ CRLF),
      (1000, get_name, ''$5'' @ CRLF @ ''hasan'' @ CRLF),
      (4000, get_name, ''$-1'' @ CRLF)]"

definition server_tests :: "table \<Rightarrow> table \<times> bool" where
  "server_tests = replies_as (test_ping @ test_echo @ test_echo_empty @ test_unknown_command @ test_command_case_insensitive @
     test_set_without_ttl @ test_get_without_ttl @ test_get_with_ttl)"

lemma parser_tests_pass: "test_simple_string" "test_arr" "test_error" "test_integers"
  by code_simp+

lemma server_tests_pass: "snd (server_tests empty_table)"
  by code_simp

section \<open>The hash table\<close>

definition val_of :: "string \<Rightarrow> table \<Rightarrow> string option" where
  "val_of k t = (case lookup k t of None \<Rightarrow> None | Some e \<Rightarrow> val e)"

definition put_plain :: "string \<Rightarrow> string \<Rightarrow> table \<Rightarrow> table" where
  "put_plain k v t = (case install all_ok k v 0 t of Inl _ \<Rightarrow> t | Inr (t', _) \<Rightarrow> t')"

definition drop_key :: "string \<Rightarrow> table \<Rightarrow> table" where
  "drop_key k t = fst (undef k t)"

definition test_install_and_lookup :: "table \<Rightarrow> table \<times> bool list" where
  "test_install_and_lookup t =
     (let t = put_plain ''name'' ''John'' t; c1 = (val_of ''name'' t = Some ''John'');
          t = put_plain ''city'' ''Dhaka'' t; t = put_plain ''lang'' ''C'' t
      in (t, [c1, val_of ''city'' t = Some ''Dhaka'', val_of ''lang'' t = Some ''C'', val_of ''missing-key'' t = None]))"

definition test_update :: "table \<Rightarrow> table \<times> bool list" where
  "test_update t =
     (let t = put_plain ''upd'' ''1'' t; t = put_plain ''upd'' ''2'' t; t = put_plain ''upd'' ''3'' t
      in (t, [val_of ''upd'' t = Some ''3'']))"

definition fmt :: "string \<Rightarrow> nat \<Rightarrow> string" where
  "fmt s i = snprintf 32 (s @ nat_str i)"

definition test_collisions :: "table \<Rightarrow> table \<times> bool list" where
  "test_collisions t =
     (let t = fold (\<lambda>i. put_plain (fmt ''key:'' i) (fmt ''val:'' i)) [0..<3000] t
      in (t, [list_all (\<lambda>i. val_of (fmt ''key:'' i) t = Some (fmt ''val:'' i)) [0..<3000]]))"

definition test_undef_basic :: "table \<Rightarrow> table \<times> bool list" where
  "test_undef_basic t =
     (let t = put_plain ''keep'' ''yes'' t; t = put_plain ''gone'' ''no'' t; c1 = (val_of ''gone'' t \<noteq> None);
          t = drop_key ''gone'' t; c2 = (val_of ''gone'' t = None); t = drop_key ''never-existed'' t
      in (t, [c1, c2, val_of ''keep'' t \<noteq> None]))"

definition test_undef_kept_keys_survive :: "table \<Rightarrow> table \<times> bool list" where
  "test_undef_kept_keys_survive t =
     (let t = fold (\<lambda>i. put_plain (fmt ''del:'' i) (fmt ''val:'' i)) [0..<3000] t;
          t = fold (\<lambda>i. drop_key (fmt ''del:'' i)) (filter even [0..<3000]) t
      in (t, [list_all (\<lambda>i. val_of (fmt ''del:'' i) t = (if even i then None else Some (fmt ''val:'' i))) [0..<3000]]))"

text \<open>The number of checks that failed.\<close>

definition run_db_tests :: "table \<Rightarrow> nat" where
  "run_db_tests t =
     (let (t, a) = test_install_and_lookup t; (t, b) = test_update t; (t, c) = test_collisions t;
          (t, d) = test_undef_basic t; (t, e) = test_undef_kept_keys_survive t
      in length (filter Not (a @ b @ c @ d @ e)))"

text \<open>The tests are computed on the map the table stands for.\<close>

lemma val_of_abs: "table_ok t \<Longrightarrow> val_of k t = map_option fst (db_abs t k)"
  by (auto simp: val_of_def db_abs_def entry_abs_def entry_init_def dest: lookup_init split: option.split)

lemma put_plain_abs: "table_ok t \<Longrightarrow> table_ok (put_plain k v t) \<and> db_abs (put_plain k v t) = (db_abs t)(k \<mapsto> (v, 0))"
  by (rule install_refines [of t all_ok k v 0]) (simp_all add: put_plain_def)

lemma drop_key_abs: "table_ok t \<Longrightarrow> table_ok (drop_key k t) \<and> db_abs (drop_key k t) = (db_abs t)(k := None)"
  by (simp add: drop_key_def undef_refines)

lemma puts_abs:
  "table_ok t \<Longrightarrow> table_ok (fold (\<lambda>i. put_plain (f i) (g i)) is t) \<and>
     db_abs (fold (\<lambda>i. put_plain (f i) (g i)) is t) = fold (\<lambda>i m. m(f i \<mapsto> (g i, 0))) is (db_abs t)"
  by (induction "is" arbitrary: t) (simp_all add: put_plain_abs)

lemma drops_abs:
  "table_ok t \<Longrightarrow> table_ok (fold (\<lambda>i. drop_key (f i)) is t) \<and>
     db_abs (fold (\<lambda>i. drop_key (f i)) is t) = fold (\<lambda>i m. m(f i := None)) is (db_abs t)"
  by (induction "is" arbitrary: t) (simp_all add: drop_key_abs)

lemma fold_upd:
  "inj_on f (insert j (set is)) \<Longrightarrow> fold (\<lambda>i m. m(f i := h i)) is m (f j) = (if j \<in> set is then h j else m (f j))"
  by (induction "is" arbitrary: m) (auto simp: inj_on_def)

lemma fmt_inj: "length s = 4 \<Longrightarrow> inj_on (fmt s) {..<3000}"
proof (rule inj_onI)
  fix i j
  assume s: "length s = 4" and ij: "i \<in> {..<3000}" "j \<in> {..<3000}" "fmt s i = fmt s j"
  have "length (nat_str i) \<le> 4" "length (nat_str j) \<le> 4"
    using ij length_nat_str [of i 3] length_nat_str [of j 3] by auto
  then have "s @ nat_str i = s @ nat_str j" using ij(3) s by (simp add: fmt_def snprintf_def)
  then have "dec_val (nat_str i) = dec_val (nat_str j)" by simp
  then show "i = j" unfolding dec_val_nat_str by simp
qed

lemma collisions_pass:
  assumes "table_ok t"
  shows "table_ok (fst (test_collisions t)) \<and> list_all id (snd (test_collisions t))"
proof -
  let ?t = "fold (\<lambda>i. put_plain (fmt ''key:'' i) (fmt ''val:'' i)) [0..<3000] t"
  have "db_abs ?t (fmt ''key:'' i) = Some (fmt ''val:'' i, 0)" if i: "i < 3000" for i
    unfolding puts_abs [OF assms, THEN conjunct2]
    by (subst fold_upd, rule inj_on_subset [OF fmt_inj]) (use i in auto)
  moreover have "table_ok ?t" using puts_abs [OF assms] by blast
  ultimately show ?thesis by (auto simp: test_collisions_def Let_def list_all_iff val_of_abs)
qed

lemma undef_survivors_pass:
  assumes "table_ok t"
  shows "list_all id (snd (test_undef_kept_keys_survive t))"
proof -
  let ?t = "fold (\<lambda>i. put_plain (fmt ''del:'' i) (fmt ''val:'' i)) [0..<3000] t"
  let ?u = "fold (\<lambda>i. drop_key (fmt ''del:'' i)) (filter even [0..<3000]) ?t"
  have t: "table_ok ?t" and ta: "db_abs ?t = fold (\<lambda>i m. m(fmt ''del:'' i \<mapsto> (fmt ''val:'' i, 0))) [0..<3000] (db_abs t)"
    using puts_abs [OF assms] by blast+
  have u: "table_ok ?u" and ua: "db_abs ?u = fold (\<lambda>i m. m(fmt ''del:'' i := None)) (filter even [0..<3000]) (db_abs ?t)"
    using drops_abs [OF t] by blast+
  have "db_abs ?u (fmt ''del:'' i) = (if even i then None else Some (fmt ''val:'' i, 0))" if i: "i < 3000" for i
  proof -
    have "db_abs ?u (fmt ''del:'' i) = (if even i then None else db_abs ?t (fmt ''del:'' i))"
      unfolding ua by (subst fold_upd, rule inj_on_subset [OF fmt_inj]) (use i in auto)
    moreover have "db_abs ?t (fmt ''del:'' i) = Some (fmt ''val:'' i, 0)"
      unfolding ta by (subst fold_upd, rule inj_on_subset [OF fmt_inj]) (use i in auto)
    ultimately show ?thesis by simp
  qed
  then show ?thesis using val_of_abs [OF u] by (auto simp: test_undef_kept_keys_survive_def Let_def list_all_iff)
qed

lemma basic_tests_pass:
  assumes "table_ok t"
  shows "table_ok (fst (test_update t)) \<and> list_all id (snd (test_update t))"
    and "table_ok (fst (test_undef_basic t)) \<and> list_all id (snd (test_undef_basic t))"
    and "db_abs t ''missing-key'' = None \<Longrightarrow>
      table_ok (fst (test_install_and_lookup t)) \<and> list_all id (snd (test_install_and_lookup t))"
  using assms
  by (simp_all add: test_update_def test_undef_basic_def test_install_and_lookup_def Let_def val_of_abs put_plain_abs drop_key_abs)

lemma db_tests_pass:
  assumes "table_ok t" and "db_abs t ''missing-key'' = None"
  shows "run_db_tests t = 0"
proof -
  have all: "list_all id xs \<Longrightarrow> filter Not xs = []" for xs by (induction xs) auto
  let ?a = "fst (test_install_and_lookup t)"
  have a: "table_ok ?a" "list_all id (snd (test_install_and_lookup t))" using basic_tests_pass(3) [OF assms] by auto
  let ?b = "fst (test_update ?a)"
  have b: "table_ok ?b" "list_all id (snd (test_update ?a))" using basic_tests_pass(1) [OF a(1)] by auto
  let ?c = "fst (test_collisions ?b)"
  have c: "table_ok ?c" "list_all id (snd (test_collisions ?b))" using collisions_pass [OF b(1)] by auto
  let ?d = "fst (test_undef_basic ?c)"
  have d: "table_ok ?d" "list_all id (snd (test_undef_basic ?c))" using basic_tests_pass(2) [OF c(1)] by auto
  show ?thesis
    using all [OF a(2)] all [OF b(2)] all [OF c(2)] all [OF d(2)] all [OF undef_survivors_pass [OF d(1)]]
    by (simp add: run_db_tests_def split_beta Let_def)
qed


section \<open>The longest common subsequence\<close>

definition list_eq :: "str_list result \<Rightarrow> string list \<Rightarrow> bool" where
  "list_eq got expected = (case got of Inl _ \<Rightarrow> False
     | Inr r \<Rightarrow> count r = length expected \<and> take (count r) (items r) = map Some expected)"

definition test_lcs_lines :: bool where
  "test_lcs_lines \<longleftrightarrow>
     list_eq (lcs_lines [''This is a test which contains:'', ''this is the lcs''] [''this is the lcs'', ''we'' @ CHR 0x27 # ''re testing''])
       [''this is the lcs''] \<and>
     (let weekly = ''I share a weekly coding challenge aimed at helping software engineers level up their skills through deliberate practice.'';
          each = ''Each challenge will have you writing a full application or tool. Most of which will be based on real world tools and utilities.''
      in list_eq (lcs_lines
           [''Coding Challenges helps you become a better software engineer through that build real applications.'', weekly,
            ''I'' @ CHR 0x27 # ''ve used or am using these coding challenges as exercise to learn a new programming language or technology.'', each]
           [''Helping you become a better software engineer through coding challenges that build real applications.'', weekly,
            ''These are challenges that I'' @ CHR 0x27 # ''ve used or am using as exercises to learn a new programming language or technology.'', each])
         [weekly, each])"

lemma four_lines:
  assumes "a \<noteq> b" "a \<noteq> w" "w \<noteq> b" "a \<noteq> d" "a \<noteq> e" "c \<noteq> b" "c \<noteq> w" "c \<noteq> d" "c \<noteq> e" "w \<noteq> d" "w \<noteq> e" "e \<noteq> b" "e \<noteq> d"
  shows "lcs_lines [a, w, c, e] [b, w, d, e] = Inr \<lparr>items = [Some w, Some e, None], count = 2\<rparr>"
  using assms by (simp add: lcs_lines_def LEN_def fill_table_def fill_row_def cell_def numeral_eq_Suc Let_def walk_back.simps)

lemma two_lines:
  assumes "a \<noteq> w" "a \<noteq> d" "w \<noteq> d"
  shows "lcs_lines [a, w] [w, d] = Inr \<lparr>items = [Some w, None], count = 1\<rparr>"
  using assms by (simp add: lcs_lines_def LEN_def fill_table_def fill_row_def cell_def numeral_eq_Suc Let_def walk_back.simps)

lemma lcs_test_passes: test_lcs_lines
  unfolding test_lcs_lines_def Let_def by (subst two_lines four_lines, simp_all)+ (simp_all add: list_eq_def numeral_eq_Suc)

section \<open>The calculator\<close>

text \<open>A check of the calculator, in tenths, with the buffer of the right size holding zeros.\<close>

definition passes :: "string \<Rightarrow> int \<Rightarrow> bool" where
  "passes expr expected \<longleftrightarrow>
     (case eval tenths (replicate (length expr + 1) NUL) [] expr of Some (Inr (v, _)) \<Rightarrow> v = expected | _ \<Rightarrow> False)"

definition test_add :: "bool list" where
  "test_add = [passes ''1 + 2'' 30, passes ''123 + 2 * 2.5'' 1280, passes ''123+ 2'' 1250, passes ''123 +2'' 1250]"

definition test_sub :: bool where "test_sub = passes ''1 - 2'' (-10)"
definition test_mul :: bool where "test_mul = passes ''1 * 2 + 5 - 10'' (-30)"

lemma passes_by: "wf_cst e \<Longrightarrow> roomy e \<Longrightarrow> render e = expr \<Longrightarrow> meaning tenths e = v \<Longrightarrow> passes expr v"
  using eval_renders [of e expr 0 tenths] by (simp add: passes_def)

lemmas cst_simps = wf_num_def prec_def isdigit_def numch_def numeral_eq_Suc tenths_def dec_val_def digit_val_def

lemma unterminated:
  "to_postfix A [] expr = Inr p \<Longrightarrow> length p = length init \<Longrightarrow> NUL \<notin> set p \<Longrightarrow> eval A init [] expr = Some (Inl OutOfBounds)"
  by (simp add: eval_def eval_postfix_def)

lemma tight_postfix: "to_postfix tenths [] ''123+ 2'' = Inr ''123 2 +''" "to_postfix tenths [] ''123 +2'' = Inr ''123 2 +''"
  by code_simp+

text \<open>Two of the calculator's own checks fill the whole buffer with the postfix expression, so that its
  evaluation reads past the end; the others pass.\<close>

lemma calculator_tests: "test_add = [True, True, False, False] \<and> test_sub \<and> test_mul"
proof (intro conjI)
  have "passes ''1 + 2'' 30"
    by (rule passes_by [of "Bin 1 (CHR ''+'') (Num 0 ''1'') (Num 1 ''2'')"]) (simp_all add: cst_simps)
  moreover have "passes ''123 + 2 * 2.5'' 1280"
    by (rule passes_by [of "Bin 1 (CHR ''+'') (Num 0 ''123'') (Bin 1 (CHR ''*'') (Num 1 ''2'') (Num 1 ''2.5''))"])
      (simp_all add: cst_simps)
  moreover have "\<not> passes ''123+ 2'' 1250" "\<not> passes ''123 +2'' 1250"
    by (simp_all add: passes_def unterminated [OF tight_postfix(1)] unterminated [OF tight_postfix(2)])
  ultimately show "test_add = [True, True, False, False]" by (simp add: test_add_def)
  show test_sub unfolding test_sub_def
    by (rule passes_by [of "Bin 1 (CHR ''-'') (Num 0 ''1'') (Num 1 ''2'')"]) (simp_all add: cst_simps)
  show test_mul unfolding test_mul_def
    by (rule passes_by [of "Bin 1 (CHR ''-'') (Bin 1 (CHR ''+'') (Bin 1 (CHR ''*'') (Num 0 ''1'') (Num 1 ''2'')) (Num 1 ''5'')) (Num 1 ''10'')"])
      (simp_all add: cst_simps)
qed

end
