(* ===== verification/Blocks.thy ===== *)
theory Blocks
  imports Prelude "HOL-Library.Multiset"
begin

text \<open>
  The blocks \<open>malloc\<close> and \<open>free\<close> deal in. A state is the set of the live blocks and the number of the next
  one; an action returns a result and the state behind it, or a fault. Releasing a block that is not live (a
  second time, or before it was there) is a fault, and a block that is live at the end and in nobody's hands is
  a leak. What is in the blocks is not kept here: the values that own them carry it.
\<close>

section \<open>Actions\<close>

record blocks =
  next_block :: nat
  live :: "nat set"

type_synonym 'a act = "blocks \<Rightarrow> ('a \<times> blocks) result"

definition no_blocks :: blocks where
  "no_blocks = \<lparr>next_block = 0, live = {}\<rparr>"

definition give :: "'a \<Rightarrow> 'a act" where
  "give x = (\<lambda>h. Inr (x, h))"

definition check :: "'a result \<Rightarrow> 'a act" where
  "check r = (\<lambda>h. ebind r (\<lambda>x. Inr (x, h)))"

definition andthen :: "'a act \<Rightarrow> ('a \<Rightarrow> 'b act) \<Rightarrow> 'b act" where
  "andthen m f = (\<lambda>h. ebind (m h) (\<lambda>(x, h'). f x h'))"

definition malloc :: "nat act" where
  "malloc = (\<lambda>h. Inr (next_block h, h\<lparr>next_block := Suc (next_block h), live := insert (next_block h) (live h)\<rparr>))"

definition free_block :: "nat \<Rightarrow> unit act" where
  "free_block a = (\<lambda>h. if a \<in> live h then Inr ((), h\<lparr>live := live h - {a}\<rparr>) else Inl Dangling)"

text \<open>\<open>free(NULL)\<close> does nothing.\<close>

definition free_ptr :: "nat option \<Rightarrow> unit act" where
  "free_ptr p = (case p of None \<Rightarrow> give () | Some a \<Rightarrow> free_block a)"

text \<open>A block for a string that may not be there.\<close>

definition malloc_for :: "'a option \<Rightarrow> nat option act" where
  "malloc_for v = (case v of None \<Rightarrow> give None | Some _ \<Rightarrow> andthen malloc (\<lambda>a. give (Some a)))"

named_theorems act_simps "execution of actions"

lemma andthen_apply [act_simps]: "andthen m f h = ebind (m h) (\<lambda>(x, h'). f x h')"
  by (simp add: andthen_def)

lemma give_apply [act_simps]: "give x h = Inr (x, h)"
  by (simp add: give_def)

lemma check_apply [act_simps]: "check r h = ebind r (\<lambda>x. Inr (x, h))"
  by (simp add: check_def)

lemma malloc_apply [act_simps]:
  "malloc h = Inr (next_block h, h\<lparr>next_block := Suc (next_block h), live := insert (next_block h) (live h)\<rparr>)"
  by (simp add: malloc_def)

lemma free_block_apply [act_simps]:
  "free_block a h = (if a \<in> live h then Inr ((), h\<lparr>live := live h - {a}\<rparr>) else Inl Dangling)"
  by (simp add: free_block_def)

lemma free_ptr_simps [act_simps]:
  "free_ptr None = give ()"
  "free_ptr (Some a) = free_block a"
  by (simp_all add: free_ptr_def)

lemma malloc_for_simps [act_simps]:
  "malloc_for None = give None"
  "malloc_for (Some v) = andthen malloc (\<lambda>a. give (Some a))"
  by (simp_all add: malloc_for_def)

lemma andthen_check [simp]:
  "andthen (check (Inr x)) f = f x"
  "andthen (check (Inl e)) f = (\<lambda>h. Inl e)"
  by (simp_all add: andthen_def check_def)

lemma andthen_give [simp]: "andthen (give x) f = f x"
  by (simp add: andthen_def give_def)

lemma ebind_Inr [simp]: "ebind m Inr = m"
  by (cases m) simp_all

lemma andthen_assoc: "andthen (andthen m f) g = andthen m (\<lambda>x. andthen (f x) g)"
  by (rule ext) (simp add: andthen_def ebind_assoc split_def)

section \<open>Freshness and ownership\<close>

definition blocks_ok :: "blocks \<Rightarrow> bool" where
  "blocks_ok h \<longleftrightarrow> (\<forall>a \<in> live h. a < next_block h)"

lemma blocks_ok_no_blocks: "blocks_ok no_blocks"
  by (simp add: blocks_ok_def no_blocks_def)

lemma fresh: "blocks_ok h \<Longrightarrow> next_block h \<le> a \<Longrightarrow> a \<notin> live h"
  by (auto simp: blocks_ok_def)

lemma blocks_ok_subset: "blocks_ok h \<Longrightarrow> next_block h \<le> next_block h' \<Longrightarrow> live h' \<subseteq> live h \<Longrightarrow> blocks_ok h'"
  by (fastforce simp: blocks_ok_def)

text \<open>
  \<open>turns as erase own r m\<close>: started with the blocks \<open>as\<close> in its hands, the action has the result \<open>r\<close>, up to
  the blocks in what it returns, and ends with the blocks \<open>own\<close> of its value in its hands; all other live
  blocks are as they were. So \<open>turns []\<close> is an action that makes its value out of new blocks, and an action
  with \<open>own x = []\<close> releases everything it was given.
\<close>

definition ends :: "nat set \<Rightarrow> ('a \<Rightarrow> 'b) \<Rightarrow> ('a \<Rightarrow> nat list) \<Rightarrow> 'b result \<Rightarrow> ('a \<times> blocks) result \<Rightarrow> bool" where
  "ends others erase own r res \<longleftrightarrow>
     (case r of
        Inl e \<Rightarrow> res = Inl e
      | Inr y \<Rightarrow> \<exists>x h'. res = Inr (x, h') \<and> erase x = y \<and> blocks_ok h' \<and> distinct (own x) \<and>
          set (own x) \<inter> others = {} \<and> live h' = others \<union> set (own x))"

definition turns :: "nat list \<Rightarrow> ('a \<Rightarrow> 'b) \<Rightarrow> ('a \<Rightarrow> nat list) \<Rightarrow> 'b result \<Rightarrow> 'a act \<Rightarrow> bool" where
  "turns as erase own r m \<longleftrightarrow>
     (\<forall>h. blocks_ok h \<longrightarrow> distinct as \<longrightarrow> set as \<subseteq> live h \<longrightarrow> ends (live h - set as) erase own r (m h))"

lemma turnsI:
  "(\<And>h. blocks_ok h \<Longrightarrow> distinct as \<Longrightarrow> set as \<subseteq> live h \<Longrightarrow> ends (live h - set as) erase own r (m h)) \<Longrightarrow> turns as erase own r m"
  by (simp add: turns_def)

lemma turnsD:
  "turns as erase own r m \<Longrightarrow> blocks_ok h \<Longrightarrow> distinct as \<Longrightarrow> set as \<subseteq> live h \<Longrightarrow> ends (live h - set as) erase own r (m h)"
  by (simp add: turns_def)

lemma ends_Inl: "ends K erase own (Inl e) (Inl e)"
  by (simp add: ends_def)

lemma endsE:
  assumes "ends K erase own r res"
  obtains e where "r = Inl e" and "res = Inl e"
  | x h' where "r = Inr (erase x)" and "res = Inr (x, h')" and "blocks_ok h'" and "distinct (own x)"
      and "set (own x) \<inter> K = {}" and "live h' = K \<union> set (own x)"
  using assms unfolding ends_def by (cases r) force+

lemma turns_fail: "turns as erase own (Inl e) (check (Inl e))"
  by (simp add: turns_def ends_def act_simps)

lemma turns_perm:
  assumes "mset as = mset bs" and "turns as erase own r m"
  shows "turns bs erase own r m"
  using assms(2) mset_eq_setD [OF assms(1)] mset_eq_imp_distinct_iff [OF assms(1)] by (simp add: turns_def)

lemma turns_give:
  assumes "y = erase x" and "mset as = mset (own x)"
  shows "turns as erase own (Inr y) (give x)"
proof (rule turns_perm [OF assms(2) [symmetric]], rule turnsI)
  fix h
  assume "blocks_ok h" "distinct (own x)" "set (own x) \<subseteq> live h"
  then show "ends (live h - set (own x)) erase own (Inr y) (give x h)"
    using assms(1) by (auto simp: ends_def act_simps)
qed

text \<open>Steps that only compute, allocate or release.\<close>

lemma turns_check:
  "(\<And>x. r = Inr x \<Longrightarrow> turns as erase own (f x) (g x)) \<Longrightarrow> turns as erase own (ebind r f) (andthen (check r) g)"
  by (cases r) (simp_all add: turns_def ends_def)

lemma turns_malloc:
  assumes "\<And>a. turns (a # as) erase own r (g a)"
  shows "turns as erase own r (andthen malloc g)"
proof (rule turnsI)
  fix h
  assume h: "blocks_ok h" "distinct as" "set as \<subseteq> live h"
  let ?a = "next_block h"
  let ?h = "h\<lparr>next_block := Suc ?a, live := insert ?a (live h)\<rparr>"
  have "?a \<notin> live h" by (rule fresh [OF h(1)]) simp
  then have "distinct (?a # as)" "set (?a # as) \<subseteq> live ?h" "blocks_ok ?h" and K: "live ?h - set (?a # as) = live h - set as"
    using h by (auto simp: blocks_ok_def)
  with turnsD [OF assms [of ?a], of ?h] have "ends (live h - set as) erase own r (g ?a ?h)" by simp
  then show "ends (live h - set as) erase own r (andthen malloc g h)" by (simp add: act_simps)
qed

lemma turns_free:
  assumes "mset as = mset (a # bs)" and "turns bs erase own r m"
  shows "turns as erase own r (andthen (free_block a) (\<lambda>_. m))"
proof (rule turns_perm [OF assms(1) [symmetric]], rule turnsI)
  fix h
  assume h: "blocks_ok h" "distinct (a # bs)" "set (a # bs) \<subseteq> live h"
  let ?h = "h\<lparr>live := live h - {a}\<rparr>"
  have "set bs \<subseteq> live ?h" "blocks_ok ?h" "a \<in> live h" "distinct bs" and K: "live ?h - set bs = live h - set (a # bs)"
    using h by (auto simp: blocks_ok_def)
  with turnsD [OF assms(2), of ?h] have "ends (live h - set (a # bs)) erase own r (m ?h)" by simp
  then show "ends (live h - set (a # bs)) erase own r (andthen (free_block a) (\<lambda>_. m) h)"
    using \<open>a \<in> live h\<close> by (simp add: act_simps)
qed

text \<open>A part that is given some of the blocks: the others are kept for what follows.\<close>

lemma turns_bind:
  assumes m: "turns bs e1 o1 r m" and as: "mset as = mset (bs @ cs)"
    and g: "\<And>x. r = Inr (e1 x) \<Longrightarrow> turns (o1 x @ cs) e2 o2 (f (e1 x)) (g x)"
  shows "turns as e2 o2 (ebind r f) (andthen m g)"
proof (rule turns_perm [OF as [symmetric]], rule turnsI)
  fix h
  assume h: "blocks_ok h" "distinct (bs @ cs)" "set (bs @ cs) \<subseteq> live h"
  have "ends (live h - set bs) e1 o1 r (m h)" using turnsD [OF m h(1)] h by simp
  then show "ends (live h - set (bs @ cs)) e2 o2 (ebind r f) (andthen m g h)"
  proof (cases rule: endsE)
    case (1 e)
    then show ?thesis by (simp add: act_simps ends_Inl)
  next
    case (2 x h')
    have "distinct (o1 x @ cs)" "set (o1 x @ cs) \<subseteq> live h'" and K: "live h' - set (o1 x @ cs) = live h - set (bs @ cs)"
      using 2 h by auto
    with turnsD [OF g [OF 2(1)] 2(3)] have "ends (live h - set (bs @ cs)) e2 o2 (f (e1 x)) (g x h')" by simp
    with 2(1,2) show ?thesis by (simp add: act_simps)
  qed
qed

text \<open>Nothing in hand before, and a step that hands over nothing.\<close>

lemma turns_new:
  assumes "turns [] e1 o1 r m" and "\<And>x. r = Inr (e1 x) \<Longrightarrow> turns (o1 x @ as) e2 o2 (f (e1 x)) (g x)"
  shows "turns as e2 o2 (ebind r f) (andthen m g)"
  by (rule turns_bind [OF assms(1) _ assms(2)]) simp

lemma turns_then:
  assumes "turns bs e1 o1 (Inr y) m" and "mset as = mset (bs @ cs)" and "\<And>x. turns (o1 x @ cs) e2 o2 r (g x)"
  shows "turns as e2 o2 r (andthen m g)"
  using turns_bind [of bs e1 o1 "Inr y" m as cs e2 o2 "\<lambda>_. r" g] assms by simp

lemma turns_free_ptr:
  assumes "turns cs erase own r m" and "mset as = mset (case_option [] (\<lambda>a. [a]) p @ cs)"
  shows "turns as erase own r (andthen (free_ptr p) (\<lambda>_. m))"
proof (cases p)
  case None
  with assms turns_perm [of cs as] show ?thesis by (simp add: act_simps)
next
  case (Some a)
  with turns_free [of as a cs, OF _ assms(1)] assms(2) show ?thesis by (simp add: act_simps)
qed

lemma turns_malloc_for:
  assumes "\<And>p. (p = None \<longleftrightarrow> v = None) \<Longrightarrow> turns (case_option [] (\<lambda>a. [a]) p @ as) erase own r (g p)"
  shows "turns as erase own r (andthen (malloc_for v) g)"
proof (cases v)
  case None
  with assms [of None] show ?thesis by (simp add: act_simps)
next
  case (Some y)
  have "turns as erase own r (andthen malloc (\<lambda>a. g (Some a)))"
    by (rule turns_malloc) (use assms [of "Some _"] Some in simp)
  with Some show ?thesis by (simp add: act_simps andthen_assoc)
qed

lemma turns_check2:
  "(\<And>x y. r = Inr (x, y) \<Longrightarrow> turns as erase own (f x y) (g x y)) \<Longrightarrow>
     turns as erase own (ebind r (\<lambda>(x, y). f x y)) (andthen (check r) (\<lambda>(x, y). g x y))"
  by (rule turns_check) auto

lemma turns_check3:
  "(\<And>x y z. r = Inr (x, y, z) \<Longrightarrow> turns as erase own (f x y z) (g x y z)) \<Longrightarrow>
     turns as erase own (ebind r (\<lambda>(x, y, z). f x y z)) (andthen (check r) (\<lambda>(x, y, z). g x y z))"
  by (rule turns_check) auto

text \<open>What an action that starts and ends with nothing in its hands does to the live blocks.\<close>

lemma turns_balanced:
  assumes "turns [] erase (\<lambda>_. []) r m" and "blocks_ok h"
  shows "case r of Inl e \<Rightarrow> m h = Inl e
    | Inr y \<Rightarrow> \<exists>x h'. m h = Inr (x, h') \<and> erase x = y \<and> blocks_ok h' \<and> live h' = live h"
  using turnsD [OF assms] by (auto simp: ends_def split: sum.splits)

end
