(* ===== verification/Redis_Memory.thy ===== *)
theory Redis_Memory
  imports Redis_Server Blocks
begin

text \<open>
  The blocks of a request: every \<open>malloc\<close>, \<open>strdup\<close> and \<open>free\<close> of \<open>src/resp.c\<close> and \<open>src/server.c\<close>, with the copies
  that \<open>db_get\<close> and \<open>db_incr\<close> hand to their caller. A parsed value carries the blocks it is made of. The
  functions do what those of \<open>Redis_RESP\<close> and \<open>Redis_Server\<close> do, release nothing twice and, over a whole
  connection, leave nothing behind. The blocks of the store itself are those of \<open>Redis_Heap\<close>; as in
  \<open>Redis_RESP\<close>, the allocations of this layer succeed.
\<close>

section \<open>Parsed values with their blocks\<close>

text \<open>The block of the value, and that of its string or of its array of pointers.\<close>

datatype bresp =
    BSimple nat nat string
  | BError nat nat string
  | BInteger nat int
  | BArray nat int "nat option" "bresp option list"

primrec erase :: "bresp \<Rightarrow> resp_value" where
  "erase (BSimple b sb s) = RSimple s"
| "erase (BError b sb s) = RError s"
| "erase (BInteger b i) = RInteger i"
| "erase (BArray b n p xs) = RArray n (map (map_option erase) xs)"

primrec own :: "bresp \<Rightarrow> nat list" and own_items :: "bresp option list \<Rightarrow> nat list" and own_item :: "bresp option \<Rightarrow> nat list" where
  "own (BSimple b sb s) = [sb, b]"
| "own (BError b sb s) = [sb, b]"
| "own (BInteger b i) = [b]"
| "own (BArray b n p xs) = (if n > 0 then own_items xs @ (case p of None \<Rightarrow> [] | Some a \<Rightarrow> [a]) else []) @ [b]"
| "own_items [] = []"
| "own_items (x # xs) = own_item x @ own_items xs"
| "own_item None = []"
| "own_item (Some v) = own v"

section \<open>The parser\<close>

definition make_string_b :: "mem \<Rightarrow> bresp act" where
  "make_string_b str = andthen malloc (\<lambda>v. andthen malloc (\<lambda>s. give (BSimple v s (cstr str))))"

definition parse_simple_string_b :: "mem \<Rightarrow> bresp act" where
  "parse_simple_string_b buf =
     (if NUL \<notin> set buf then check (Inl OutOfBounds)
      else
        andthen malloc (\<lambda>word_block.
        andthen (check (copy_line (tl buf))) (\<lambda>word.
        andthen (make_string_b (word @ [NUL])) (\<lambda>resp.
        andthen (free_block word_block) (\<lambda>_. give resp)))))"

definition parse_error_b :: "mem \<Rightarrow> bresp act" where
  "parse_error_b buf =
     andthen (parse_simple_string_b buf) (\<lambda>err.
       case err of BSimple v sb s \<Rightarrow> give (BError v sb s) | _ \<Rightarrow> check (Inl WrongUnion))"

definition parse_integer_b :: "mem \<Rightarrow> bresp act" where
  "parse_integer_b buf =
     andthen (parse_simple_string_b buf) (\<lambda>i_resp.
       case i_resp of
         BSimple v sb s \<Rightarrow>
           andthen (check (strtol (s @ [NUL]))) (\<lambda>(i_val, _, _).
           andthen (free_block sb) (\<lambda>_. give (BInteger v i_val)))
       | _ \<Rightarrow> check (Inl WrongUnion))"

fun parse_items_b :: "nat \<Rightarrow> mem \<Rightarrow> bresp list act" where
  "parse_items_b 0 buf = give []"
| "parse_items_b (Suc n) buf =
     (case buf of
        [] \<Rightarrow> check (Inl OutOfBounds)
      | c # r \<Rightarrow>
          if c \<noteq> CHR ''$'' then give []
          else
            andthen (check (strtol r)) (\<lambda>(v, endptr, _).
            let str_sz = to_int v in
            andthen (check (advance 2 endptr)) (\<lambda>p.
            andthen (check (get_word p str_sz)) (\<lambda>word.
            andthen malloc (\<lambda>word_block.
            andthen (check (if INT_MAX < str_sz + 4 then Inl SignedOverflow else advance (str_sz + 2) p)) (\<lambda>buf'.
            andthen (make_string_b word) (\<lambda>item.
            andthen (free_block word_block) (\<lambda>_.
            andthen (parse_items_b n buf') (\<lambda>items. give (item # items))))))))))"

definition parse_array_b :: "mem \<Rightarrow> bresp act" where
  "parse_array_b buf =
     andthen (check (strtol (tl buf))) (\<lambda>(v, endptr, _).
     let arr_sz = to_int v in
     andthen (check (advance 2 endptr)) (\<lambda>p.
     andthen malloc (\<lambda>arr.
     andthen (malloc_for (if arr_sz > 0 then Some () else None)) (\<lambda>items_block.
     andthen (parse_items_b (nat arr_sz) p) (\<lambda>items.
       give (BArray arr arr_sz items_block (map Some items @ replicate (nat arr_sz - length items) None)))))))"

definition parse_b :: "mem \<Rightarrow> bresp act" where
  "parse_b buf =
     andthen (check (get_identify_type buf)) (\<lambda>ty.
       case ty of
         SIMPLE_STRING \<Rightarrow> parse_simple_string_b buf
       | ARRAYS \<Rightarrow> parse_array_b buf
       | ERRORS \<Rightarrow> parse_error_b buf
       | INTEGERS \<Rightarrow> parse_integer_b buf
       | BULK_STRINGS \<Rightarrow> check (Inl (Exited 1)))"

section \<open>The release\<close>

primrec free_resp_b :: "bresp \<Rightarrow> unit act"
  and free_items_b :: "bresp option list \<Rightarrow> unit act"
  and free_item_b :: "bresp option \<Rightarrow> unit act" where
  "free_resp_b (BSimple b sb s) = andthen (free_block sb) (\<lambda>_. free_block b)"
| "free_resp_b (BError b sb s) = andthen (free_block sb) (\<lambda>_. free_block b)"
| "free_resp_b (BInteger b i) = free_block b"
| "free_resp_b (BArray b n p xs) =
     andthen (if n > 0 then andthen (free_items_b xs) (\<lambda>_. free_ptr p) else give ()) (\<lambda>_. free_block b)"
| "free_items_b [] = give ()"
| "free_items_b (x # xs) = andthen (free_item_b x) (\<lambda>_. free_items_b xs)"
| "free_item_b None = check (Inl Uninit)"
| "free_item_b (Some v) = free_resp_b v"

section \<open>Commands\<close>

text \<open>The reply formatters return a new block.\<close>

type_synonym breply = "nat \<times> reply"

definition make_reply :: "reply \<Rightarrow> breply act" where
  "make_reply r = andthen malloc (\<lambda>a. give (a, r))"

text \<open>A command that allocates nothing but its reply.\<close>

definition reply_of :: "(table \<times> reply) result \<Rightarrow> (table \<times> breply) act" where
  "reply_of m = andthen (check m) (\<lambda>(t, r). andthen (make_reply r) (\<lambda>b. give (t, b)))"

definition cmd_get_b :: "alloc \<Rightarrow> clock \<Rightarrow> bresp \<Rightarrow> table \<Rightarrow> (table \<times> breply) act" where
  "cmd_get_b al clk cmd t =
     (if too_few (erase cmd) 2 then reply_of (Inr (t, resp_error (Some (wrong_args ''get''))))
      else
        andthen (check (item_string (erase cmd) 1)) (\<lambda>k.
        andthen (check (db_get al (clk 0) k t)) (\<lambda>(t', v).
        andthen (malloc_for v) (\<lambda>value.
        andthen (make_reply (resp_bulk v)) (\<lambda>reply.
        andthen (free_ptr value) (\<lambda>_. give (t', reply)))))))"

definition cmd_exists_b :: "alloc \<Rightarrow> clock \<Rightarrow> bresp \<Rightarrow> table \<Rightarrow> (table \<times> breply) act" where
  "cmd_exists_b al clk cmd t =
     andthen (check (item_string (erase cmd) 1)) (\<lambda>k.
     andthen (check (db_get al (clk 0) k t)) (\<lambda>(t', v).
     andthen (malloc_for v) (\<lambda>value.
     andthen (make_reply (resp_integer (if v \<noteq> None then 1 else 0))) (\<lambda>reply.
     andthen (free_ptr value) (\<lambda>_. give (t', reply))))))"

definition cmd_incr_b :: "alloc \<Rightarrow> bresp \<Rightarrow> table \<Rightarrow> (table \<times> breply) act" where
  "cmd_incr_b al cmd t =
     (if too_few (erase cmd) 2 then reply_of (Inr (t, resp_error (Some (wrong_args ''incr''))))
      else
        andthen (check (item_string (erase cmd) 1)) (\<lambda>k.
        andthen (check (db_incr al k t)) (\<lambda>(t', r).
        andthen malloc (\<lambda>db_result.
        andthen (malloc_for (res_value r)) (\<lambda>value.
        andthen (if \<not> ok r then make_reply (resp_error (res_error r))
                 else andthen (check (read_init NullDeref (res_value r))) (\<lambda>v. make_reply (resp_integer (atoi v)))) (\<lambda>reply.
        andthen (free_ptr value) (\<lambda>_.
        andthen (free_block db_result) (\<lambda>_. give (t', reply)))))))))"

definition dispatch_b :: "alloc \<Rightarrow> clock \<Rightarrow> string \<Rightarrow> bresp \<Rightarrow> table \<Rightarrow> (table \<times> breply) act" where
  "dispatch_b al clk name cmd t =
     (if caseeq name ''PING'' then reply_of (Inr (t, resp_simple (Some ''PONG'')))
      else if caseeq name ''ECHO'' then reply_of (cmd_echo (erase cmd) t)
      else if caseeq name ''SET'' then reply_of (cmd_set al clk (erase cmd) t)
      else if caseeq name ''GET'' then cmd_get_b al clk cmd t
      else if caseeq name ''EXISTS'' then cmd_exists_b al clk cmd t
      else if caseeq name ''DEL'' then reply_of (cmd_del (erase cmd) t)
      else if caseeq name ''INCR'' then cmd_incr_b al cmd t
      else reply_of (Inr (t, unknown_command)))"

definition exec_command_b :: "alloc \<Rightarrow> clock \<Rightarrow> mem \<Rightarrow> table \<Rightarrow> (table \<times> breply) act" where
  "exec_command_b al clk request t =
     andthen (parse_b request) (\<lambda>cmd.
     andthen (check (cmd_name_of (erase cmd))) (\<lambda>name.
     andthen (case name of None \<Rightarrow> reply_of (Inr (t, unknown_command)) | Some n \<Rightarrow> dispatch_b al clk n cmd t) (\<lambda>(t', reply).
     andthen (free_resp_b cmd) (\<lambda>_. give (t', reply)))))"

text \<open>The connection releases each reply when it has been sent.\<close>

fun per_client_b :: "alloc \<Rightarrow> (nat \<Rightarrow> clock) \<Rightarrow> nat \<Rightarrow> mem list \<Rightarrow> mem \<Rightarrow> table \<Rightarrow> (table \<times> reply list) act" where
  "per_client_b al clks j [] buf t = give (t, [])"
| "per_client_b al clks j (chunk # chunks) buf t =
     (if chunk = [] then give (t, [])
      else
        let buf' = fill_buffer buf chunk in
        andthen (exec_command_b al (clks j) buf' t) (\<lambda>(t', reply).
        andthen (free_block (fst reply)) (\<lambda>_.
        andthen (per_client_b al clks (j + 1) chunks buf' t') (\<lambda>(t'', replies).
        give (t'', snd reply # replies)))))"

section \<open>The parser owns what it returns\<close>

lemma own_items_append: "own_items (xs @ ys) = own_items xs @ own_items ys"
  by (induction xs) simp_all

lemma own_items_map_Some: "own_items (map Some xs) = concat (map own xs)"
  by (induction xs) simp_all

lemma own_items_None [simp]: "own_items (replicate n None) = []"
  by (induction n) simp_all

lemma turns_make_string: "turns [] erase own (Inr (make_string str)) (make_string_b str)"
  unfolding make_string_b_def make_string_def
  by (intro turns_malloc turns_give) simp_all

lemma turns_simple_string: "turns [] erase own (parse_simple_string buf) (parse_simple_string_b buf)"
proof (cases "NUL \<in> set buf")
  case False
  then show ?thesis by (simp add: parse_simple_string_def parse_simple_string_b_def turns_fail)
next
  case True
  have "turns [w] erase own (Inr (make_string (word @ [NUL])))
      (andthen (make_string_b (word @ [NUL])) (\<lambda>resp. andthen (free_block w) (\<lambda>_. give resp)))" for w word
    unfolding make_string_b_def andthen_assoc andthen_give make_string_def
    by (intro turns_malloc turns_free [where bs = "[_, _]"] turns_give) simp_all
  then show ?thesis
    using True by (auto simp: parse_simple_string_def parse_simple_string_b_def intro!: turns_malloc turns_check)
qed

lemma parse_simple_string_RSimple: "parse_simple_string buf = Inr v \<Longrightarrow> \<exists>s. v = RSimple s"
  by (auto simp: parse_simple_string_def make_string_def result_inv split: if_splits)

lemma simple_shape:
  assumes "parse_simple_string buf = Inr (erase x)"
  obtains v sb s where "x = BSimple v sb s"
  using parse_simple_string_RSimple [OF assms] by (cases x) auto

lemma turns_error: "turns [] erase own (parse_error buf) (parse_error_b buf)"
  unfolding parse_error_def parse_error_b_def
proof (rule turns_new [OF turns_simple_string])
  fix x
  assume "parse_simple_string buf = Inr (erase x)"
  then obtain v sb s where x: "x = BSimple v sb s" by (rule simple_shape)
  show "turns (own x @ []) erase own (ebind (data_string (erase x)) (\<lambda>s. Inr (RError s)))
      (case x of BSimple v sb s \<Rightarrow> give (BError v sb s) | _ \<Rightarrow> check (Inl WrongUnion))"
    unfolding x by (simp, rule turns_give) simp_all
qed

lemma turns_integer: "turns [] erase own (parse_integer buf) (parse_integer_b buf)"
  unfolding parse_integer_def parse_integer_b_def
proof (rule turns_new [OF turns_simple_string])
  fix x
  assume "parse_simple_string buf = Inr (erase x)"
  then obtain v sb s where x: "x = BSimple v sb s" by (rule simple_shape)
  have "turns [sb, v] erase own (ebind (strtol (s @ [NUL])) (\<lambda>(i, _, _). Inr (RInteger i)))
      (andthen (check (strtol (s @ [NUL]))) (\<lambda>(i, _, _). andthen (free_block sb) (\<lambda>_. give (BInteger v i))))"
    by (intro turns_check3 turns_free [where bs = "[v]"] turns_give) simp_all
  then show "turns (own x @ []) erase own
      (ebind (data_string (erase x)) (\<lambda>s. ebind (strtol (s @ [NUL])) (\<lambda>(i_val, _, _). Inr (RInteger i_val))))
      (case x of BSimple v sb s \<Rightarrow>
           andthen (check (strtol (s @ [NUL]))) (\<lambda>(i_val, _, _).
           andthen (free_block sb) (\<lambda>_. give (BInteger v i_val)))
       | _ \<Rightarrow> check (Inl WrongUnion))"
    unfolding x by simp
qed

abbreviation erase_list :: "bresp list \<Rightarrow> resp_value list" where "erase_list \<equiv> map erase"
abbreviation own_list :: "bresp list \<Rightarrow> nat list" where "own_list xs \<equiv> concat (map own xs)"

lemma turns_item_step:
  assumes IH: "\<And>b. turns [] erase_list own_list (parse_items n b) (parse_items_b n b)"
  shows "turns [w] erase_list own_list
    (if INT_MAX < sz + 4 then Inl SignedOverflow
     else ebind (advance (sz + 2) p) (\<lambda>buf'. ebind (parse_items n buf') (\<lambda>items. Inr (make_string word # items))))
    (andthen (check (if INT_MAX < sz + 4 then Inl SignedOverflow else advance (sz + 2) p)) (\<lambda>buf'.
     andthen (make_string_b word) (\<lambda>item. andthen (free_block w) (\<lambda>_.
     andthen (parse_items_b n buf') (\<lambda>items. give (item # items))))))"
proof -
  have split: "(if b then Inl e else ebind m f) = ebind (if b then Inl e else m) f"
    for b and e :: cfault and m :: "mem result" and f :: "mem \<Rightarrow> resp_value list result" by simp
  show ?thesis
    unfolding make_string_b_def andthen_assoc andthen_give split
    by (intro turns_check turns_malloc turns_free [where bs = "[_, _]"] turns_new [OF IH] turns_give)
       (simp_all add: make_string_def)
qed

lemma turns_items: "turns [] erase_list own_list (parse_items n buf) (parse_items_b n buf)"
proof (induction n arbitrary: buf)
  case 0
  show ?case by (simp, rule turns_give) simp_all
next
  case (Suc n)
  show ?case
  proof (cases buf)
    case Nil
    then show ?thesis by (simp add: turns_fail)
  next
    case (Cons c r)
    show ?thesis
    proof (cases "c = CHR ''$''")
      case False
      with Cons show ?thesis by (simp, intro turns_give) simp_all
    next
      case True
      then show ?thesis
        unfolding Cons by (simp add: Let_def) (intro turns_check3 turns_check turns_malloc turns_item_step Suc)
    qed
  qed
qed

lemma parse_items_le: "parse_items n buf = Inr xs \<Longrightarrow> length xs \<le> n"
proof (induction n arbitrary: buf xs)
  case (Suc n)
  then show ?case by (fastforce simp: result_inv Let_def split: list.splits if_splits)
qed simp

lemma turns_array: "turns [] erase own (parse_array buf) (parse_array_b buf)"
proof -
  have items: "turns (case_option [] (\<lambda>a. [a]) p @ [arr]) erase own
      (ebind (parse_items (nat sz) q) (\<lambda>items. Inr (resp_alloc_arr sz items)))
      (andthen (parse_items_b (nat sz) q) (\<lambda>items.
        give (BArray arr sz p (map Some items @ replicate (nat sz - length items) None))))"
    if "p = None \<longleftrightarrow> \<not> 0 < sz" for p arr sz q
  proof (rule turns_new [OF turns_items])
    fix xs
    assume "parse_items (nat sz) q = Inr (erase_list xs)"
    from parse_items_le [OF this] that
    show "turns (own_list xs @ case_option [] (\<lambda>a. [a]) p @ [arr]) erase own (Inr (resp_alloc_arr sz (erase_list xs)))
        (give (BArray arr sz p (map Some xs @ replicate (nat sz - length xs) None)))"
      by (intro turns_give) (auto simp: resp_alloc_arr_def own_items_append own_items_map_Some comp_def)
  qed
  show ?thesis
    unfolding parse_array_def parse_array_b_def Let_def
    by (intro turns_check3 turns_check turns_malloc turns_malloc_for items) (simp split: if_splits)
qed

lemma turns_parse: "turns [] erase own (parse buf) (parse_b buf)"
  unfolding parse_def parse_b_def
  by (intro turns_check)
     (auto split: resp_type.splits intro: turns_simple_string turns_array turns_error turns_integer turns_fail)

section \<open>The release takes all of it\<close>

abbreviation released_by :: "nat list \<Rightarrow> unit result \<Rightarrow> unit act \<Rightarrow> bool" where
  "released_by as r m \<equiv> turns as (\<lambda>_. ()) (\<lambda>_. []) r m"

lemma released_block: "released_by [a] (Inr ()) (free_block a)"
  using turns_free [of "[a]" a "[]" "\<lambda>_. ()" "\<lambda>_. []" "Inr ()" "give ()"] turns_give [of "()" "\<lambda>_. ()" "()" "[]" "\<lambda>_. []"]
  by (simp add: turns_def act_simps)

lemma released_ptr: "released_by (case_option [] (\<lambda>a. [a]) p) (Inr ()) (free_ptr p)"
  by (cases p) (simp_all add: act_simps released_block turns_give)

lemma turns_free_items:
  assumes "\<And>v. Some v \<in> set xs \<Longrightarrow> released_by (own v) (free_resp (erase v)) (free_resp_b v)"
  shows "released_by (own_items xs) (free_items (map (map_option erase) xs)) (free_items_b xs)"
  using assms
proof (induction xs)
  case Nil
  show ?case by (simp add: turns_give)
next
  case (Cons x xs)
  have "released_by (own_item x) (free_item (map_option erase x)) (free_item_b x)"
    using Cons.prems by (cases x) (simp_all add: turns_def ends_def act_simps)
  moreover have "released_by ([] @ own_items xs) (free_items (map (map_option erase) xs)) (free_items_b xs)"
    using Cons by simp
  ultimately show ?case
    by (simp only: list.map free_items.simps free_items_b.simps own_items.simps) (rule turns_bind, auto)
qed

lemma turns_free_resp: "released_by (own v) (free_resp (erase v)) (free_resp_b v)"
proof (induction v)
  case (BArray b n p xs)
  have items: "released_by (own_items xs) (free_items (map (map_option erase) xs)) (free_items_b xs)"
    by (rule turns_free_items) (use BArray in force)
  show ?case
  proof (cases "n > 0")
    case True
    have "released_by (own_items xs @ case_option [] (\<lambda>a. [a]) p @ [b]) (ebind (free_items (map (map_option erase) xs)) (\<lambda>_. Inr ()))
        (andthen (free_items_b xs) (\<lambda>_. andthen (free_ptr p) (\<lambda>_. free_block b)))"
      by (rule turns_bind [OF items, where cs = "case_option [] (\<lambda>a. [a]) p @ [b]"])
         (simp_all add: turns_free_ptr [OF released_block])
    moreover have "ebind r (\<lambda>_. Inr ()) = r" for r :: "unit result" by (cases r) simp_all
    ultimately show ?thesis using True by (simp add: andthen_assoc)
  next
    case False
    then show ?thesis by (simp add: released_block)
  qed
next
  case (BSimple b sb s)
  show ?case by (simp, rule turns_free [OF _ released_block]) simp
next
  case (BError b sb s)
  show ?case by (simp, rule turns_free [OF _ released_block]) simp
next
  case (BInteger b i)
  show ?case by (simp add: released_block)
qed

section \<open>A command leaves its reply\<close>

abbreviation erase_reply :: "table \<times> breply \<Rightarrow> table \<times> reply" where "erase_reply \<equiv> \<lambda>(t, a, r). (t, r)"
abbreviation own_reply :: "table \<times> breply \<Rightarrow> nat list" where "own_reply \<equiv> \<lambda>(t, a, r). [a]"

abbreviation replies :: "(table \<times> reply) result \<Rightarrow> (table \<times> breply) act \<Rightarrow> bool" where
  "replies \<equiv> turns [] erase_reply own_reply"

lemma turns_reply: "replies (Inr (t, r)) (reply_of (Inr (t, r)))"
  unfolding reply_of_def make_reply_def by (simp add: andthen_assoc, intro turns_malloc turns_give) simp_all

lemma turns_reply_of: "replies m (reply_of m)"
proof (cases m)
  case (Inl e)
  then show ?thesis by (simp add: reply_of_def turns_def ends_def)
next
  case (Inr x)
  then show ?thesis by (cases x) (simp add: turns_reply)
qed

text \<open>A reply made while a copy from the store is in hand.\<close>

lemma turns_reply_then:
  assumes "mset as = mset (bs @ cs)" and "\<And>a. turns (a # as) erase_reply own_reply m (g (a, r))"
  shows "turns as erase_reply own_reply m (andthen (make_reply r) g)"
  unfolding make_reply_def by (simp add: andthen_assoc, intro turns_malloc assms)

lemma turns_copy:
  "replies (Inr (t, r)) (andthen (malloc_for v) (\<lambda>value. andthen (make_reply r) (\<lambda>reply.
     andthen (free_ptr value) (\<lambda>_. give (t, reply)))))"
proof (rule turns_malloc_for)
  fix p
  show "turns (case_option [] (\<lambda>a. [a]) p @ []) erase_reply own_reply (Inr (t, r))
      (andthen (make_reply r) (\<lambda>reply. andthen (free_ptr p) (\<lambda>_. give (t, reply))))"
    unfolding make_reply_def andthen_assoc andthen_give
    by (intro turns_malloc turns_free_ptr [where cs = "[_]"] turns_give) simp_all
qed

lemma turns_get: "replies (cmd_get al clk (erase cmd) t) (cmd_get_b al clk cmd t)"
  unfolding cmd_get_def cmd_get_b_def
  by (auto intro!: turns_reply turns_check turns_copy)

lemma turns_exists: "replies (cmd_exists al clk (erase cmd) t) (cmd_exists_b al clk cmd t)"
  unfolding cmd_exists_def cmd_exists_b_def
  by (auto intro!: turns_check turns_copy)

lemma turns_incr: "replies (cmd_incr al (erase cmd) t) (cmd_incr_b al cmd t)"
proof -
  have res: "replies
      (if \<not> ok r then Inr (t', resp_error (res_error r))
       else ebind (read_init NullDeref (res_value r)) (\<lambda>v. Inr (t', resp_integer (atoi v))))
      (andthen malloc (\<lambda>db_result. andthen (malloc_for (res_value r)) (\<lambda>value.
        andthen (if \<not> ok r then make_reply (resp_error (res_error r))
                 else andthen (check (read_init NullDeref (res_value r))) (\<lambda>v. make_reply (resp_integer (atoi v)))) (\<lambda>reply.
        andthen (free_ptr value) (\<lambda>_. andthen (free_block db_result) (\<lambda>_. give (t', reply)))))))" for r t'
  proof (intro turns_malloc turns_malloc_for)
    fix db p
    have one: "turns (case_option [] (\<lambda>a. [a]) p @ [db]) erase_reply own_reply (Inr (t', x))
        (andthen (make_reply x) (\<lambda>reply. andthen (free_ptr p) (\<lambda>_. andthen (free_block db) (\<lambda>_. give (t', reply)))))" for x
      unfolding make_reply_def andthen_assoc andthen_give
      by (intro turns_malloc turns_free_ptr [where cs = "[_, db]"] turns_free [where bs = "[_]"] turns_give) simp_all
    show "turns (case_option [] (\<lambda>a. [a]) p @ [db]) erase_reply own_reply
        (if \<not> ok r then Inr (t', resp_error (res_error r))
         else ebind (read_init NullDeref (res_value r)) (\<lambda>v. Inr (t', resp_integer (atoi v))))
        (andthen (if \<not> ok r then make_reply (resp_error (res_error r))
                  else andthen (check (read_init NullDeref (res_value r))) (\<lambda>v. make_reply (resp_integer (atoi v)))) (\<lambda>reply.
         andthen (free_ptr p) (\<lambda>_. andthen (free_block db) (\<lambda>_. give (t', reply)))))"
      by (cases "ok r") (auto simp: andthen_assoc intro!: turns_check one)
  qed
  show ?thesis
    unfolding cmd_incr_def cmd_incr_b_def by (auto intro!: turns_reply turns_check res)
qed

lemma turns_dispatch: "replies (dispatch al clk name (erase cmd) t) (dispatch_b al clk name cmd t)"
  unfolding dispatch_def dispatch_b_def
  by (simp add: turns_reply turns_reply_of turns_get turns_exists turns_incr)

lemma turns_exec: "replies (exec_command al clk request t) (exec_command_b al clk request t)"
  unfolding exec_command_def exec_command_b_def
proof (rule turns_new [OF turns_parse], rule turns_check)
  fix cmd name
  have run: "replies (case name of None \<Rightarrow> Inr (t, unknown_command) | Some n \<Rightarrow> dispatch al clk n (erase cmd) t)
      (case name of None \<Rightarrow> reply_of (Inr (t, unknown_command)) | Some n \<Rightarrow> dispatch_b al clk n cmd t)"
    by (simp add: turns_reply turns_dispatch split: option.splits)
  show "turns (own cmd @ []) erase_reply own_reply
      (ebind (case name of None \<Rightarrow> Inr (t, unknown_command) | Some n \<Rightarrow> dispatch al clk n (erase cmd) t)
        (\<lambda>(t', reply). ebind (free_resp (erase cmd)) (\<lambda>_. Inr (t', reply))))
      (andthen (case name of None \<Rightarrow> reply_of (Inr (t, unknown_command)) | Some n \<Rightarrow> dispatch_b al clk n cmd t)
        (\<lambda>(t', reply). andthen (free_resp_b cmd) (\<lambda>_. give (t', reply))))"
  proof (rule turns_new [OF run])
    fix x :: "table \<times> breply"
    obtain t' a r where x: "x = (t', a, r)" by (cases x)
    have "turns ([] @ [a]) erase_reply own_reply (Inr (t', r)) (give (t', a, r))" by (rule turns_give) simp_all
    then show "turns (own_reply x @ own cmd @ []) erase_reply own_reply
        (case erase_reply x of (t', reply) \<Rightarrow> ebind (free_resp (erase cmd)) (\<lambda>_. Inr (t', reply)))
        (case x of (t', reply) \<Rightarrow> andthen (free_resp_b cmd) (\<lambda>_. give (t', reply)))"
      unfolding x by (simp, intro turns_bind [OF turns_free_resp, where cs = "[a]"]) simp_all
  qed
qed

lemma turns_per_client: "turns [] id (\<lambda>_. []) (per_client al clks j chunks buf t) (per_client_b al clks j chunks buf t)"
proof (induction chunks arbitrary: j buf t)
  case Nil
  show ?case by (simp add: turns_give)
next
  case (Cons chunk chunks)
  show ?case
  proof (cases "chunk = []")
    case True
    then show ?thesis by (simp add: turns_give)
  next
    case False
    have "turns [] id (\<lambda>_. [])
        (ebind (exec_command al (clks j) b t) (\<lambda>(t', reply).
         ebind (per_client al clks (j + 1) chunks b t') (\<lambda>(t'', replies). Inr (t'', reply # replies))))
        (andthen (exec_command_b al (clks j) b t) (\<lambda>(t', reply). andthen (free_block (fst reply)) (\<lambda>_.
         andthen (per_client_b al clks (j + 1) chunks b t') (\<lambda>(t'', replies). give (t'', snd reply # replies)))))" for b
    proof (rule turns_new [OF turns_exec])
      fix x :: "table \<times> breply"
      obtain t' a r where x: "x = (t', a, r)" by (cases x)
      have "turns [] id (\<lambda>_. [])
          (ebind (per_client al clks (j + 1) chunks b t') (\<lambda>(t'', replies). Inr (t'', r # replies)))
          (andthen (per_client_b al clks (j + 1) chunks b t') (\<lambda>(t'', replies). give (t'', r # replies)))"
        by (rule turns_new [OF Cons]) (auto intro: turns_give)
      then show "turns (own_reply x @ []) id (\<lambda>_. [])
          (case erase_reply x of (t', reply) \<Rightarrow>
             ebind (per_client al clks (j + 1) chunks b t') (\<lambda>(t'', replies). Inr (t'', reply # replies)))
          (case x of (t', reply) \<Rightarrow> andthen (free_block (fst reply)) (\<lambda>_.
             andthen (per_client_b al clks (j + 1) chunks b t') (\<lambda>(t'', replies). give (t'', snd reply # replies))))"
        unfolding x by (simp, intro turns_free [where bs = "[]"]) simp_all
    qed
    with False show ?thesis by (simp only: per_client.simps per_client_b.simps Let_def if_False)
  qed
qed

text \<open>C21: A connection leaves no memory behind. Whatever its client sends, the server with its allocations and
  releases does what the server of \<open>Redis_Server\<close> does, faults included; it releases nothing that is not
  live, and when the connection ends the live blocks are exactly those that were live before: every
  parsed value, word, copy, result and reply has been released once.\<close>

theorem connections_leave_nothing:
  assumes "blocks_ok h"
  shows "case per_client al clks j chunks buf t of
      Inl e \<Rightarrow> per_client_b al clks j chunks buf t h = Inl e
    | Inr r \<Rightarrow> \<exists>h'. per_client_b al clks j chunks buf t h = Inr (r, h') \<and> live h' = live h"
  using turns_balanced [OF turns_per_client assms, of al clks j chunks buf t] by (auto split: sum.splits)

theorem connections_leave_nothing_witness:
  "\<exists>h'. per_client_b all_ok (\<lambda>_ _. 0) 0 [encode [''PING''], encode [''ECHO'', ''hi'']] [] empty_table no_blocks =
     Inr ((empty_table, [''+PONG'' @ CRLF, ''$2'' @ CRLF @ ''hi'' @ CRLF]), h') \<and> live h' = {}"
proof -
  have "per_client all_ok (\<lambda>_ _. 0) 0 [encode [''PING''], encode [''ECHO'', ''hi'']] [] empty_table =
      Inr (empty_table, [''+PONG'' @ CRLF, ''$2'' @ CRLF @ ''hi'' @ CRLF])"
    by (simp add: fill_buffer_def Let_def exec_words sendable_def INT_MAX_def dispatch_def caseeq_def tolower_def cstr_def
        cmd_echo_def too_few_def words_value_def item_string_def read_init_def resp_simple_def resp_bulk_def nat_str_2 numeral_2_eq_2 [symmetric])
  with connections_leave_nothing [OF blocks_ok_no_blocks, of all_ok "\<lambda>_ _. 0" 0
      "[encode [''PING''], encode [''ECHO'', ''hi'']]" "[]" empty_table]
  show ?thesis by (simp add: no_blocks_def)
qed

end
