(* ===== verification/Shell_Memory.thy ===== *)
theory Shell_Memory
  imports Shell Blocks
begin

text \<open>
  The blocks of the shell: every \<open>malloc\<close>, \<open>strdup\<close> and \<open>free\<close> of a turn of \<open>process_input\<close>, with the stream that
  \<open>history_load\<close> opens. \<open>slots\<close> are the pointers stored in the array \<open>history\<close>; \<open>lost\<close> is a ghost list of the
  blocks nobody points to any more. Erasing the blocks gives the functions of \<open>Shell\<close>; what is lost
  in a turn is counted.
\<close>

section \<open>Copies\<close>

fun strdups :: "'a list \<Rightarrow> nat list act" where
  "strdups [] = give []"
| "strdups (x # xs) = andthen malloc (\<lambda>b. andthen (strdups xs) (\<lambda>bs. give (b # bs)))"

fun free_list :: "nat list \<Rightarrow> unit act" where
  "free_list [] = give ()"
| "free_list (b # bs) = andthen (free_block b) (\<lambda>_. free_list bs)"

section \<open>History\<close>

text \<open>The file as \<open>get_hfd\<close> and the two writes of \<open>history_add\<close> leave it.\<close>

definition append_line :: "nat \<Rightarrow> string \<Rightarrow> shell \<Rightarrow> shell" where
  "append_line fds cmd s =
     (if leaked s < fds
      then s\<lparr>hfile := Some ((case hfile s of None \<Rightarrow> [] | Some f \<Rightarrow> f) @ cmd @ [LF])\<rparr>
      else s)"

text \<open>New lines overwrite the pointers of the old ones; the path is released only when the file was opened.\<close>

definition history_load_b :: "nat \<Rightarrow> shell \<Rightarrow> nat list \<Rightarrow> nat list \<Rightarrow> (shell \<times> nat list \<times> nat list) act" where
  "history_load_b fds s slots lost =
     andthen malloc (\<lambda>h_path.
     andthen (check (history_load fds s)) (\<lambda>s'.
       if leaked s < fds \<and> hfile s \<noteq> None then
         andthen malloc (\<lambda>fp.
         andthen (strdups (history s')) (\<lambda>new.
         andthen (free_block h_path) (\<lambda>_.
           give (s', new @ drop (length new) slots, lost @ take (length new) slots @ [fp]))))
       else give (s', slots, lost @ [h_path])))"

definition history_add_b :: "nat \<Rightarrow> string \<Rightarrow> shell \<Rightarrow> nat list \<Rightarrow> nat list \<Rightarrow> (shell \<times> nat list \<times> nat list) act" where
  "history_add_b fds cmd s slots lost =
     andthen malloc (\<lambda>h_path. andthen (free_block h_path) (\<lambda>_.
       history_load_b fds (append_line fds cmd s) slots lost))"

section \<open>Words and segments\<close>

definition build_args_b :: "string \<Rightarrow> (string list \<times> nat \<times> nat list) act" where
  "build_args_b cmd =
     andthen malloc (\<lambda>v.
     andthen (check (build_args cmd)) (\<lambda>args.
     andthen (strdups args) (\<lambda>words. give (args, v, words))))"

definition free_args :: "(nat \<times> nat list) option \<Rightarrow> unit act" where
  "free_args args =
     (case args of
        None \<Rightarrow> give ()
      | Some (v, words) \<Rightarrow> andthen (free_list words) (\<lambda>_. free_block v))"

definition extract_segments_b :: "string \<Rightarrow> (string option list \<times> nat \<times> nat list) act" where
  "extract_segments_b cmd =
     andthen malloc (\<lambda>segments.
     andthen (check (extract_segments cmd)) (\<lambda>v.
     andthen (strdups (filter (\<lambda>p. p \<noteq> None) v)) (\<lambda>parts. give (v, segments, parts))))"

definition exec_cd_b :: "(string \<Rightarrow> string \<Rightarrow> string option) \<Rightarrow> string option \<Rightarrow> shell \<Rightarrow> shell act" where
  "exec_cd_b dirs path s =
     (case path of
        None \<Rightarrow> check (Inl NullDeref)
      | Some p \<Rightarrow>
          andthen (malloc_for (trim_spaces_newlines p)) (\<lambda>trimmed.
          andthen (check (cd dirs (trim_spaces_newlines p) s)) (\<lambda>(_, s').
          andthen (free_ptr trimmed) (\<lambda>_. give s'))))"

section \<open>A turn of the loop\<close>

text \<open>The pipeline of a line that is no \<open>cd\<close>: the vector of the segments is released, the segments are not.\<close>

definition run_segments_b :: "string \<Rightarrow> shell \<Rightarrow> (shell \<times> nat list) act" where
  "run_segments_b cmd s =
     andthen (extract_segments_b cmd) (\<lambda>(v, segments, parts).
     andthen (check (handle_cmd v s)) (\<lambda>s'.
     andthen (free_block segments) (\<lambda>_. give (s', parts))))"

definition run_words_b :: "(string \<Rightarrow> string \<Rightarrow> string option) \<Rightarrow> string \<Rightarrow> shell \<Rightarrow> (shell \<times> nat list) act" where
  "run_words_b dirs cmd s =
     andthen (build_args_b cmd) (\<lambda>(args, args_blocks).
     andthen (check (is_cd_cmd args)) (\<lambda>b.
     andthen (if b then andthen (exec_cd_b dirs (arg1 args) s) (\<lambda>s2. give (s2, [])) else run_segments_b cmd s) (\<lambda>(s2, parts).
     andthen (free_args (Some args_blocks)) (\<lambda>_. give (s2, parts)))))"

definition run_line_b :: "nat \<Rightarrow> (string \<Rightarrow> string \<Rightarrow> string option) \<Rightarrow> string \<Rightarrow> shell \<Rightarrow> nat list \<Rightarrow> nat list \<Rightarrow> (bool \<times> shell \<times> nat list \<times> nat list) act" where
  "run_line_b fds dirs buf s slots lost =
     (case trim buf of
        None \<Rightarrow> give (False, s, slots, lost)
      | Some cmd \<Rightarrow>
          andthen malloc (\<lambda>cmd_block.
          andthen (history_add_b fds cmd s slots lost) (\<lambda>(s1, slots1, lost1).
          if caseeq cmd ''exit'' then give (True, s1, slots1, lost1 @ [cmd_block])
          else
            andthen (run_words_b dirs cmd s1) (\<lambda>(s2, parts).
            andthen (free_block cmd_block) (\<lambda>_. give (False, s2, slots1, lost1 @ parts))))))"

function process_input_b :: "nat \<Rightarrow> (string \<Rightarrow> string \<Rightarrow> string option) \<Rightarrow> tty \<Rightarrow> mem \<Rightarrow> shell \<Rightarrow> nat list \<Rightarrow> nat list \<Rightarrow> (shell \<times> tty \<times> nat list \<times> nat list) act" where
  "process_input_b fds dirs t inp s slots lost =
     (case fgets_raw 1024 (history s) t inp of
        Inl e \<Rightarrow> check (Inl e)
      | Inr (None, r, w, t') \<Rightarrow> give (say w s, t', slots, lost)
      | Inr (Some buf, r, w, t') \<Rightarrow>
          andthen (run_line_b fds dirs buf (say w s) slots lost) (\<lambda>(quit, s', slots', lost').
            if quit then give (s', t', slots', lost')
            else process_input_b fds dirs t' r (say prompt s') slots' lost'))"
  by pat_completeness auto

termination
  by (relation "measure (\<lambda>(fds, dirs, t, inp, s, slots, lost). length inp)") (auto dest: fgets_raw_shorter)

declare process_input_b.simps [simp del]

definition shell_main_b :: "nat \<Rightarrow> (string \<Rightarrow> string \<Rightarrow> string option) \<Rightarrow> tty \<Rightarrow> mem \<Rightarrow> shell \<Rightarrow> (shell \<times> tty \<times> nat list \<times> nat list) act" where
  "shell_main_b fds dirs t inp s =
     andthen (history_load_b fds s [] []) (\<lambda>(s', slots, lost).
       process_input_b fds dirs t inp (say prompt s') slots lost)"

section \<open>Rules\<close>

lemma turns_strdups:
  assumes "\<And>bs. length bs = length xs \<Longrightarrow> turns (bs @ as) erase own r (g bs)"
  shows "turns as erase own r (andthen (strdups xs) g)"
  using assms
proof (induction xs arbitrary: as g)
  case Nil
  from Nil [of "[]"] show ?case by simp
next
  case (Cons x xs)
  show ?case
    unfolding strdups.simps andthen_assoc andthen_give
  proof (intro turns_malloc Cons.IH)
    fix a :: nat and bs :: "nat list"
    assume "length bs = length xs"
    then show "turns (bs @ a # as) erase own r (g (a # bs))"
      using turns_perm [OF _ Cons.prems [of "a # bs"], of "bs @ a # as"] by simp
  qed
qed

lemma turns_free_list:
  assumes "turns cs erase own r m" and "mset as = mset (bs @ cs)"
  shows "turns as erase own r (andthen (free_list bs) (\<lambda>_. m))"
  using assms
proof (induction bs arbitrary: as)
  case Nil
  then show ?case using turns_perm [of cs as] by simp
next
  case (Cons b bs)
  show ?case
    unfolding free_list.simps andthen_assoc
    by (rule turns_free [where bs = "bs @ cs"]) (use Cons in simp_all)
qed

abbreviation blocks_of :: "shell \<times> nat list \<times> nat list \<Rightarrow> nat list" where
  "blocks_of \<equiv> \<lambda>(s, slots, lost). slots @ lost"

lemma turns_history_load: "turns (slots @ lost) fst blocks_of (history_load fds s) (history_load_b fds s slots lost)"
proof -
  have "history_load fds s = ebind (history_load fds s) Inr" by (cases "history_load fds s") simp_all
  moreover have "turns (slots @ lost) fst blocks_of (ebind (history_load fds s) Inr) (history_load_b fds s slots lost)"
    unfolding history_load_b_def
  proof (intro turns_malloc turns_check)
    fix h_path s'
    have "mset (take n slots) + mset (drop n slots) = mset slots" for n
      by (metis append_take_drop_id mset_append)
    then have mset: "mset slots = mset (drop n slots) + mset (take n slots)" for n by (simp add: union_commute)
    have "turns (h_path # slots @ lost) fst blocks_of (Inr s')
        (andthen malloc (\<lambda>fp. andthen (strdups (history s')) (\<lambda>new. andthen (free_block h_path) (\<lambda>_.
           give (s', new @ drop (length new) slots, lost @ take (length new) slots @ [fp])))))"
    proof (intro turns_malloc turns_strdups)
      fix fp new
      show "turns (new @ fp # h_path # slots @ lost) fst blocks_of (Inr s')
          (andthen (free_block h_path) (\<lambda>_. give (s', new @ drop (length new) slots, lost @ take (length new) slots @ [fp])))"
        by (rule turns_free [where bs = "new @ fp # slots @ lost"], simp, rule turns_give)
           (simp_all add: mset [of "length new"])
    qed
    moreover have "turns (h_path # slots @ lost) fst blocks_of (Inr s') (give (s', slots, lost @ [h_path]))"
      by (rule turns_give) simp_all
    ultimately show "turns (h_path # slots @ lost) fst blocks_of (Inr s')
        (if leaked s < fds \<and> hfile s \<noteq> None then
           andthen malloc (\<lambda>fp. andthen (strdups (history s')) (\<lambda>new. andthen (free_block h_path) (\<lambda>_.
             give (s', new @ drop (length new) slots, lost @ take (length new) slots @ [fp]))))
         else give (s', slots, lost @ [h_path]))" by simp
  qed
  ultimately show ?thesis by simp
qed

lemma turns_history_add: "turns (slots @ lost) fst blocks_of (history_add fds cmd s) (history_add_b fds cmd s slots lost)"
proof -
  have "history_add fds cmd s = history_load fds (append_line fds cmd s)"
    by (simp add: history_add_def append_line_def)
  then show ?thesis
    unfolding history_add_b_def by (simp, intro turns_malloc turns_free [OF _ turns_history_load]) simp
qed

lemma turns_build_args: "turns [] fst (\<lambda>(args, v, words). words @ [v]) (build_args cmd) (build_args_b cmd)"
proof -
  have "build_args cmd = ebind (build_args cmd) Inr" by (cases "build_args cmd") simp_all
  moreover have "turns [] fst (\<lambda>(args, v, words). words @ [v]) (ebind (build_args cmd) Inr) (build_args_b cmd)"
    unfolding build_args_b_def by (intro turns_malloc turns_check turns_strdups turns_give) simp_all
  ultimately show ?thesis by simp
qed

lemma turns_exec_cd: "turns [] id (\<lambda>_. []) (exec_cd dirs path s) (exec_cd_b dirs path s)"
proof (cases path)
  case None
  then show ?thesis by (simp add: exec_cd_def exec_cd_b_def turns_fail)
next
  case (Some p)
  show ?thesis
    unfolding exec_cd_def exec_cd_b_def Some option.case
    by (intro turns_malloc_for turns_check2 turns_free_ptr [where cs = "[]"] turns_give) simp_all
qed

lemma turns_run_segments:
  "turns [] fst snd (ebind (extract_segments cmd) (\<lambda>v. handle_cmd v s)) (run_segments_b cmd s)"
proof -
  have r: "m = ebind m Inr" for m :: "shell result" by (cases m) simp_all
  have "turns [] fst snd (ebind (extract_segments cmd) (\<lambda>v. ebind (handle_cmd v s) Inr)) (run_segments_b cmd s)"
    unfolding run_segments_b_def extract_segments_b_def andthen_assoc andthen_give prod.case
  proof (intro turns_malloc turns_check turns_strdups)
    fix a v bs s'
    show "turns (bs @ [a]) fst snd (Inr s') (andthen (free_block a) (\<lambda>_. give (s', bs)))"
      by (rule turns_free [where bs = bs], simp, rule turns_give) simp_all
  qed
  then show ?thesis by (simp flip: r)
qed

text \<open>A turn does what the turn of \<open>Shell\<close> does, and every block it was given or has made is a slot or lost.\<close>

abbreviation erase_turn :: "bool \<times> shell \<times> nat list \<times> nat list \<Rightarrow> bool \<times> shell" where
  "erase_turn \<equiv> \<lambda>(quit, s, slots, lost). (quit, s)"

abbreviation own_turn :: "bool \<times> shell \<times> nat list \<times> nat list \<Rightarrow> nat list" where
  "own_turn \<equiv> \<lambda>(quit, s, slots, lost). slots @ lost"

definition run_words :: "(string \<Rightarrow> string \<Rightarrow> string option) \<Rightarrow> string \<Rightarrow> shell \<Rightarrow> shell result" where
  "run_words dirs cmd s =
     ebind (build_args cmd) (\<lambda>args. ebind (is_cd_cmd args) (\<lambda>b.
       if b then exec_cd dirs (arg1 args) s else ebind (extract_segments cmd) (\<lambda>v. handle_cmd v s)))"

lemma run_line_words:
  "run_line fds dirs buf s =
     (case trim buf of
        None \<Rightarrow> Inr (False, s)
      | Some cmd \<Rightarrow>
          ebind (history_add fds cmd s) (\<lambda>s1.
            if caseeq cmd ''exit'' then Inr (True, s1) else ebind (run_words dirs cmd s1) (\<lambda>s2. Inr (False, s2))))"
  unfolding run_line_def run_words_def
  by (auto simp: ebind_assoc if_distrib [of "\<lambda>m. ebind m f" for f] split: option.splits cong: if_cong)

lemma turns_cd_or_segments:
  "turns [] fst snd (if b then exec_cd dirs path s else ebind (extract_segments cmd) (\<lambda>v. handle_cmd v s))
     (if b then andthen (exec_cd_b dirs path s) (\<lambda>s2. give (s2, [])) else run_segments_b cmd s)"
proof (cases b)
  case True
  have "turns [] fst snd (ebind (exec_cd dirs path s) Inr) (andthen (exec_cd_b dirs path s) (\<lambda>s2. give (s2, [])))"
    by (rule turns_new [OF turns_exec_cd], rule turns_give) simp_all
  then show ?thesis using True by simp
qed (simp add: turns_run_segments)

lemma turns_run_words: "turns [] fst snd (run_words dirs cmd s) (run_words_b dirs cmd s)"
  unfolding run_words_def run_words_b_def
proof (rule turns_new [OF turns_build_args])
  fix x :: "string list \<times> nat \<times> nat list"
  obtain args v words where x: "x = (args, v, words)" by (cases x)
  have "turns (words @ [v]) fst snd
      (ebind (is_cd_cmd args) (\<lambda>b.
         ebind (if b then exec_cd dirs (arg1 args) s else ebind (extract_segments cmd) (\<lambda>v. handle_cmd v s)) Inr))
      (andthen (check (is_cd_cmd args)) (\<lambda>b.
       andthen (if b then andthen (exec_cd_b dirs (arg1 args) s) (\<lambda>s2. give (s2, [])) else run_segments_b cmd s) (\<lambda>(s2, parts).
       andthen (free_args (Some (v, words))) (\<lambda>_. give (s2, parts)))))"
  proof (intro turns_check turns_new [OF turns_cd_or_segments])
    fix y :: "shell \<times> nat list"
    obtain s2 parts where y: "y = (s2, parts)" by (cases y)
    have "turns (parts @ words @ [v]) fst snd (Inr s2)
        (andthen (free_list words) (\<lambda>_. andthen (free_block v) (\<lambda>_. give (s2, parts))))"
      by (rule turns_free_list [where cs = "v # parts"], rule turns_free [where bs = parts], simp, rule turns_give) simp_all
    then show "turns (snd y @ words @ [v]) fst snd (Inr (fst y))
        (case y of (s2, parts) \<Rightarrow> andthen (free_args (Some (v, words))) (\<lambda>_. give (s2, parts)))"
      by (simp add: y free_args_def andthen_assoc)
  qed
  then show "turns ((case x of (args, v, words) \<Rightarrow> words @ [v]) @ []) fst snd
      (ebind (is_cd_cmd (fst x)) (\<lambda>b.
         if b then exec_cd dirs (arg1 (fst x)) s else ebind (extract_segments cmd) (\<lambda>v. handle_cmd v s)))
      (case x of (args, args_blocks) \<Rightarrow>
       andthen (check (is_cd_cmd args)) (\<lambda>b.
       andthen (if b then andthen (exec_cd_b dirs (arg1 args) s) (\<lambda>s2. give (s2, [])) else run_segments_b cmd s) (\<lambda>(s2, parts).
       andthen (free_args (Some args_blocks)) (\<lambda>_. give (s2, parts)))))"
    unfolding x ebind_Inr by (simp only: fst_conv prod.case append_Nil2)
qed

lemma turns_run_line:
  "turns (slots @ lost) erase_turn own_turn (run_line fds dirs buf s) (run_line_b fds dirs buf s slots lost)"
proof (cases "trim buf")
  case None
  then show ?thesis by (simp add: run_line_def run_line_b_def turns_give)
next
  case (Some cmd)
  show ?thesis
    unfolding run_line_words run_line_b_def Some option.case
  proof (rule turns_malloc, rule turns_bind [OF turns_history_add, where cs = "[_]"])
    fix cmd_block and x :: "shell \<times> nat list \<times> nat list"
    obtain s1 slots1 lost1 where x: "x = (s1, slots1, lost1)" by (cases x)
    have "turns (slots1 @ lost1 @ [cmd_block]) erase_turn own_turn (Inr (True, s1)) (give (True, s1, slots1, lost1 @ [cmd_block]))"
      by (rule turns_give) simp_all
    moreover have "turns (slots1 @ lost1 @ [cmd_block]) erase_turn own_turn (ebind (run_words dirs cmd s1) (\<lambda>s2. Inr (False, s2)))
        (andthen (run_words_b dirs cmd s1) (\<lambda>(s2, parts). andthen (free_block cmd_block) (\<lambda>_. give (False, s2, slots1, lost1 @ parts))))"
    proof (rule turns_new [OF turns_run_words])
      fix y :: "shell \<times> nat list"
      obtain s2 parts where y: "y = (s2, parts)" by (cases y)
      show "turns (snd y @ slots1 @ lost1 @ [cmd_block]) erase_turn own_turn (Inr (False, fst y))
          (case y of (s2, parts) \<Rightarrow> andthen (free_block cmd_block) (\<lambda>_. give (False, s2, slots1, lost1 @ parts)))"
        unfolding y by (simp, rule turns_free [where bs = "slots1 @ lost1 @ parts"], simp, rule turns_give) simp_all
    qed
    ultimately show "turns (blocks_of x @ [cmd_block]) erase_turn own_turn
        (if caseeq cmd ''exit'' then Inr (True, fst x) else ebind (run_words dirs cmd (fst x)) (\<lambda>s2. Inr (False, s2)))
        (case x of (s1, slots1, lost1) \<Rightarrow>
          if caseeq cmd ''exit'' then give (True, s1, slots1, lost1 @ [cmd_block])
          else andthen (run_words_b dirs cmd s1) (\<lambda>(s2, parts).
            andthen (free_block cmd_block) (\<lambda>_. give (False, s2, slots1, lost1 @ parts))))"
      unfolding x by simp
  qed simp
qed

abbreviation erase_run :: "shell \<times> tty \<times> nat list \<times> nat list \<Rightarrow> shell \<times> tty" where
  "erase_run \<equiv> \<lambda>(s, t, slots, lost). (s, t)"

abbreviation own_run :: "shell \<times> tty \<times> nat list \<times> nat list \<Rightarrow> nat list" where
  "own_run \<equiv> \<lambda>(s, t, slots, lost). slots @ lost"

lemma turns_process_input:
  "turns (slots @ lost) erase_run own_run (process_input fds dirs t inp s) (process_input_b fds dirs t inp s slots lost)"
proof (induction "length inp" arbitrary: t inp s slots lost rule: less_induct)
  case less
  show ?case
  proof (cases "fgets_raw 1024 (history s) t inp")
    case (Inl e)
    then show ?thesis by (subst process_input.simps, subst process_input_b.simps) (simp add: turns_fail)
  next
    case (Inr x)
    obtain l r w t' where x: "x = (l, r, w, t')" by (cases x)
    show ?thesis
    proof (cases l)
      case None
      with Inr x show ?thesis
        by (subst process_input.simps, subst process_input_b.simps) (simp add: turns_give)
    next
      case (Some buf)
      with Inr x have shorter: "length r < length inp" by (simp add: fgets_raw_shorter)
      have "turns (slots @ lost) erase_run own_run
          (ebind (run_line fds dirs buf (say w s)) (\<lambda>(quit, s'). if quit then Inr (s', t') else process_input fds dirs t' r (say prompt s')))
          (andthen (run_line_b fds dirs buf (say w s) slots lost) (\<lambda>(quit, s', slots', lost').
            if quit then give (s', t', slots', lost') else process_input_b fds dirs t' r (say prompt s') slots' lost'))"
      proof (rule turns_bind [OF turns_run_line, where cs = "[]"])
        fix y :: "bool \<times> shell \<times> nat list \<times> nat list"
        obtain quit s' slots' lost' where y: "y = (quit, s', slots', lost')" by (cases y)
        show "turns (own_turn y @ []) erase_run own_run
            (case erase_turn y of (quit, s') \<Rightarrow> if quit then Inr (s', t') else process_input fds dirs t' r (say prompt s'))
            (case y of (quit, s', slots', lost') \<Rightarrow>
              if quit then give (s', t', slots', lost') else process_input_b fds dirs t' r (say prompt s') slots' lost')"
          unfolding y using less [OF shorter, of slots' lost' t' "say prompt s'"] by (auto intro: turns_give)
      qed simp
      with Inr x Some show ?thesis by (subst process_input.simps, subst process_input_b.simps) simp
    qed
  qed
qed

lemma turns_shell_main: "turns [] erase_run own_run (shell_main fds dirs t inp s) (shell_main_b fds dirs t inp s)"
  unfolding shell_main_def shell_main_b_def
proof (rule turns_bind [OF turns_history_load, where cs = "[]"])
  fix x :: "shell \<times> nat list \<times> nat list"
  obtain s' slots lost where x: "x = (s', slots, lost)" by (cases x)
  show "turns (blocks_of x @ []) erase_run own_run (process_input fds dirs t inp (say prompt (fst x)))
      (case x of (s', slots, lost) \<Rightarrow> process_input_b fds dirs t inp (say prompt s') slots lost)"
    unfolding x using turns_process_input [of slots lost] by simp
qed simp

section \<open>What a turn loses\<close>

lemma strdups_length: "strdups xs h = Inr (bs, h') \<Longrightarrow> length bs = length xs"
  by (induction xs arbitrary: h bs h') (auto simp: act_simps result_inv)

text \<open>The segments a line is split into, as far as they are not blank.\<close>

definition segment_count :: "string \<Rightarrow> nat" where
  "segment_count cmd =
     (case build_args cmd of
        Inr (a # as) \<Rightarrow>
          if a = ''cd'' then 0
          else (case extract_segments cmd of Inr v \<Rightarrow> length (filter (\<lambda>p. p \<noteq> None) v) | Inl _ \<Rightarrow> 0)
      | _ \<Rightarrow> 0)"

lemma history_load_b_counts:
  assumes "history_load_b fds s slots lost h = Inr ((s', slots', lost'), h')"
    and "leaked s < fds" and "hfile s \<noteq> None" and "length slots \<le> length (history s')"
  shows "length slots' = length (history s')" and "length lost' = length lost + length slots + 1"
  using assms by (auto simp: history_load_b_def act_simps result_inv dest!: strdups_length)

lemma extract_segments_b_counts:
  "extract_segments_b cmd h = Inr ((v, segments, parts), h') \<Longrightarrow>
     extract_segments cmd = Inr v \<and> length parts = length (filter (\<lambda>p. p \<noteq> None) v)"
  by (auto simp: extract_segments_b_def act_simps result_inv dest!: strdups_length)

lemma run_segments_b_counts:
  "run_segments_b cmd s h = Inr ((s', parts), h') \<Longrightarrow>
     \<exists>v. extract_segments cmd = Inr v \<and> length parts = length (filter (\<lambda>p. p \<noteq> None) v)"
  by (auto simp: run_segments_b_def andthen_apply check_apply give_apply result_inv dest!: extract_segments_b_counts)

lemma build_args_b_args: "build_args_b cmd h = Inr ((args, bs), h') \<Longrightarrow> build_args cmd = Inr args"
  by (auto simp: build_args_b_def act_simps result_inv)

lemma run_words_b_counts:
  assumes "run_words_b dirs cmd s h = Inr ((s', parts), h')"
  shows "length parts = segment_count cmd"
proof -
  obtain args bs h1 b h2 where args: "build_args_b cmd h = Inr ((args, bs), h1)" and b: "is_cd_cmd args = Inr b"
    and part: "(if b then andthen (exec_cd_b dirs (arg1 args) s) (\<lambda>s2. give (s2, [])) else run_segments_b cmd s) h1 =
      Inr ((s', parts), h2)"
    using assms by (auto simp: run_words_b_def andthen_apply check_apply give_apply result_inv)
  from b obtain a as where a: "args = a # as" "b \<longleftrightarrow> a = ''cd''" by (auto simp: is_cd_cmd_def split: list.splits)
  show ?thesis
  proof (cases b)
    case True
    with part a build_args_b_args [OF args] show ?thesis
      by (auto simp: segment_count_def andthen_apply give_apply result_inv)
  next
    case False
    with part run_segments_b_counts [of cmd s h1] a build_args_b_args [OF args] show ?thesis
      by (auto simp: segment_count_def)
  qed
qed

lemma append_line_keeps [simp]:
  "leaked (append_line fds cmd s) = leaked s" "leaked s < fds \<Longrightarrow> hfile (append_line fds cmd s) \<noteq> None"
  by (simp_all add: append_line_def)

lemma run_line_b_counts:
  assumes run: "run_line_b fds dirs buf s slots lost h = Inr ((False, s', slots', lost'), h')"
    and cmd: "trim buf = Some cmd" and fds: "leaked s < fds"
    and hist: "\<And>s1. history_add fds cmd s = Inr s1 \<Longrightarrow> length slots \<le> length (history s1) \<and> history s' = history s1"
  shows "length slots' = length (history s')" and "length lost' = length lost + length slots + 1 + segment_count cmd"
proof -
  obtain h1 s1 lost1 h2 parts h3 where
    add: "history_add_b fds cmd s slots lost h1 = Inr ((s1, slots', lost1), h2)"
    and words: "run_words_b dirs cmd s1 h2 = Inr ((s', parts), h3)" and lost': "lost' = lost1 @ parts"
    using run cmd by (auto simp: run_line_b_def andthen_apply malloc_apply give_apply result_inv split: if_splits)
  from add obtain h4 where load: "history_load_b fds (append_line fds cmd s) slots lost h4 = Inr ((s1, slots', lost1), h2)"
    by (auto simp: history_add_b_def act_simps)
  then have "history_add fds cmd s = Inr s1"
    by (auto simp: history_add_def append_line_def history_load_b_def act_simps result_inv split: if_splits)
  note counts = history_load_b_counts [OF load] hist [OF this]
  show "length slots' = length (history s')" "length lost' = length lost + length slots + 1 + segment_count cmd"
    using counts fds run_words_b_counts [OF words] by (simp_all add: lost')
qed

lemma exec_cd_history: "exec_cd dirs path s = Inr s' \<Longrightarrow> history s' = history s"
  by (auto simp: exec_cd_def cd_def result_inv Let_def split: option.splits if_splits)

lemma run_words_history: "run_words dirs cmd s = Inr s' \<Longrightarrow> history s' = history s"
  by (auto simp: run_words_def result_inv handle_cmd_def Let_def dest!: exec_cd_history split: if_splits)

text \<open>C25: What a command costs for good. With \<open>h\<close> commands in the history, a turn of the shell with its
  allocations does what the turn of \<open>Shell\<close> does and releases nothing twice; afterwards every block it was
  given or has made is one of the \<open>length h + 1\<close> lines of the new history or lost, and lost are the
  \<open>length h\<close> lines of the old history, one stream and the segments of the line. All other blocks (paths,
  words, vectors, the line itself) have been released, and no block of anybody else has changed.\<close>

theorem command_memory:
  assumes "blocks_ok g" and "distinct slots" and "set slots \<subseteq> live g" and "length slots = length h"
    and "hfile s = Some (text_of h)" and "hist_ok (h @ [cmd])" and "length h < MAX_HISTORY" and "leaked s < fds"
    and "trim buf = Some cmd" and "run_line fds dirs buf s = Inr (False, s')"
  shows "\<exists>slots' lost g'. run_line_b fds dirs buf s slots [] g = Inr ((False, s', slots', lost), g') \<and>
    distinct (slots' @ lost) \<and> live g' = live g - set slots \<union> set (slots' @ lost) \<and>
    set (slots' @ lost) \<inter> (live g - set slots) = {} \<and>
    length slots' = length h + 1 \<and> length lost = length h + 1 + segment_count cmd"
proof -
  have "ends (live g - set slots) erase_turn own_turn (Inr (False, s')) (run_line_b fds dirs buf s slots [] g)"
    using turnsD [OF turns_run_line [of slots "[]" fds dirs buf s] assms(1)] assms(2,3,10) by simp
  then obtain slots' lost g' where run: "run_line_b fds dirs buf s slots [] g = Inr ((False, s', slots', lost), g')"
    and live: "distinct (slots' @ lost)" "set (slots' @ lost) \<inter> (live g - set slots) = {}"
      "live g' = live g - set slots \<union> set (slots' @ lost)"
  proof (cases rule: endsE)
    case (2 x g')
    obtain q s'' slots' lost where x: "x = (q, s'', slots', lost)" by (cases x)
    from 2 x that [of slots' lost g'] show thesis by simp
  qed simp
  have add: "history_add fds cmd s = Inr (s\<lparr>hfile := Some (text_of (h @ [cmd])), history := full_lines (h @ [cmd]), leaked := leaked s + 1\<rparr>)"
    by (rule history_add_text [OF assms(5-8)])
  have len: "length (full_lines ls) = length ls" for ls by (simp add: full_lines_def)
  have "history s' = full_lines (h @ [cmd])"
    using assms(10) add by (auto simp: run_line_words assms(9) result_inv dest!: run_words_history split: if_splits)
  then have "length slots' = length h + 1" "length lost = length h + 1 + segment_count cmd"
    using run_line_b_counts [OF run assms(9,8)] add assms(4) by (simp_all add: len)
  with run live show ?thesis by blast
qed

theorem command_memory_witness:
  "\<exists>s' slots' lost g'. run_line_b 9 (\<lambda>_ _. None) ''ls|wc'' \<lparr>history = [''a'' @ [LF]], hfile = Some (''a'' @ [LF]), leaked = 0, cwd = ''/'',
      env = (\<lambda>_. None), spawned = [], tout = []\<rparr> [4] [] \<lparr>next_block = 5, live = {2, 4}\<rparr> =
      Inr ((False, s', slots', lost), g') \<and>
    live g' = {2} \<union> set (slots' @ lost) \<and> length slots' = 2 \<and> length lost = 4"
proof -
  let ?s = "\<lparr>history = [''a'' @ [LF]], hfile = Some (''a'' @ [LF]), leaked = 0, cwd = ''/'',
      env = (\<lambda>_. None), spawned = [], tout = []\<rparr> :: shell"
  have h: "text_of [''a''] = ''a'' @ [LF]" "hist_ok [''a'', ''ls|wc'']"
    by (simp_all add: text_of_def hist_ok_def printable_def)
  note add = history_add_text [of ?s "[''a'']" "''ls|wc''" 9]
  have "\<exists>s'. run_line 9 (\<lambda>_ _. None) ''ls|wc'' ?s = Inr (False, s')"
    using h add
    by (simp add: run_line_def build_args_def put_def is_sep_def extract_segments_def trim_def blank_def caseeq_def tolower_def
        is_cd_cmd_def handle_cmd_def seg_list_def MAX_HISTORY_def Let_def)
  then obtain s' where run: "run_line 9 (\<lambda>_ _. None) ''ls|wc'' ?s = Inr (False, s')" by blast
  have "segment_count ''ls|wc'' = 2"
    by (simp add: segment_count_def build_args_def extract_segments_def put_def is_sep_def trim_def blank_def)
  with command_memory [of "\<lparr>next_block = 5, live = {2, 4}\<rparr>" "[4]" "[''a'']" ?s "''ls|wc''" 9 "''ls|wc''" "\<lambda>_ _. None" s'] run h
  show ?thesis by (fastforce simp: blocks_ok_def MAX_HISTORY_def trim_def blank_def)
qed

end
