(* ===== verification/Redis_Deletions.thy ===== *)
theory Redis_Deletions
  imports Locked_Calls Redis_Clients
begin

text \<open>
  The clients of the Redis clone between the calls of the store. All commands but \<open>DEL\<close> call the store at most once;
  \<open>DEL\<close> calls \<open>db_del\<close> for one key after the other (\<open>src/server.c\<close>, lines 166 to 170), and the commands of other
  clients may run between two of its keys. Here a thread of \<open>per_client\<close> has a stage, and one step is one
  call of the store. Every run of \<open>Redis_Clients\<close> is one of these; what the clients see is
  one order of single calls, in which a \<open>DEL\<close> of several keys is several calls. That \<open>db_del\<close> itself is one step
  is the assumption of \<open>Redis_Clients\<close>: its accesses are the subject of \<open>Redis_Locks\<close>.
\<close>

section \<open>Threads between their calls\<close>

text \<open>In the loop of \<open>DEL\<close>: the request, the next key, how many keys are left and how many were deleted.\<close>

datatype stage = Reading | Deleting resp_value nat nat int

record worker = client +
  at :: stage

record pool =
  shared :: table
  workers :: "worker list"

definition set_worker :: "nat \<Rightarrow> worker \<Rightarrow> table \<Rightarrow> pool \<Rightarrow> pool" where
  "set_worker i w t s = \<lparr>shared = t, workers = (workers s)[i := w]\<rparr>"

text \<open>The request in a buffer, if it is a \<open>DEL\<close>.\<close>

definition del_request :: "mem \<Rightarrow> resp_value option" where
  "del_request request =
     (case parse request of
        Inl _ \<Rightarrow> None
      | Inr cmd \<Rightarrow>
          (case cmd_name_of cmd of
             Inr (Some name) \<Rightarrow> if caseeq name ''DEL'' then Some cmd else None
           | _ \<Rightarrow> None))"

definition del_reply :: "int \<Rightarrow> int \<Rightarrow> reply" where
  "del_reply to_del del_success =
     (if to_del = 1 then (if del_success \<noteq> 0 then resp_simple (Some ''OK'') else resp_integer 0)
      else resp_integer del_success)"

definition next_read :: "worker \<Rightarrow> mem option" where
  "next_read w =
     (if pos w < length (reads w) \<and> reads w ! pos w \<noteq> [] then Some (fill_buffer (buf w) (reads w ! pos w)) else None)"

definition answer :: "worker \<Rightarrow> reply \<Rightarrow> worker" where
  "answer w r = w\<lparr>pos := pos w + 1, replies := replies w @ [r], at := Reading\<rparr>"

inductive call_step :: "(mem list \<Rightarrow> bool) \<Rightarrow> alloc \<Rightarrow> pool \<Rightarrow> pool \<Rightarrow> bool" for adm al where
  Connect: "adm cs \<Longrightarrow>
    call_step adm al s (s\<lparr>workers := workers s @ [\<lparr>reads = cs, pos = 0, buf = b, replies = [], at = Reading\<rparr>]\<rparr>)"
| One_Call: "i < length (workers s) \<Longrightarrow> w = workers s ! i \<Longrightarrow> at w = Reading \<Longrightarrow> next_read w = Some b \<Longrightarrow>
    del_request b = None \<Longrightarrow> exec_command al clk b (shared s) = Inr (t, r) \<Longrightarrow>
    call_step adm al s (set_worker i (answer (w\<lparr>buf := b\<rparr>) r) t s)"
| Del_Begin: "i < length (workers s) \<Longrightarrow> w = workers s ! i \<Longrightarrow> at w = Reading \<Longrightarrow> next_read w = Some b \<Longrightarrow>
    del_request b = Some cmd \<Longrightarrow> data_count cmd = Inr c \<Longrightarrow>
    call_step adm al s (set_worker i (w\<lparr>buf := b, at := Deleting cmd 1 (nat (c - 1)) 0\<rparr>) (shared s) s)"
| Del_Key: "i < length (workers s) \<Longrightarrow> w = workers s ! i \<Longrightarrow> at w = Deleting cmd j (Suc m) n \<Longrightarrow>
    item_string cmd j = Inr k \<Longrightarrow> db_del k (shared s) = (t, d) \<Longrightarrow>
    call_step adm al s (set_worker i (w\<lparr>at := Deleting cmd (j + 1) m (n + (if d then 1 else 0))\<rparr>) t s)"
| Del_End: "i < length (workers s) \<Longrightarrow> w = workers s ! i \<Longrightarrow> at w = Deleting cmd j 0 n \<Longrightarrow>
    data_count cmd = Inr c \<Longrightarrow> free_resp cmd = Inr () \<Longrightarrow>
    call_step adm al s (set_worker i (answer w (del_reply (c - 1) n)) (shared s) s)"

inductive_cases call_stepE: "call_step adm al s s'"

section \<open>Whole commands are runs of calls\<close>

lemma set_worker_simps [simp]:
  "shared (set_worker i w t s) = t" "workers (set_worker i w t s) = (workers s)[i := w]"
  "set_worker i w t (set_worker i w' t' s) = set_worker i w t s"
  by (simp_all add: set_worker_def)

lemma caseeq_del:
  "caseeq n ''DEL'' \<Longrightarrow> \<not> caseeq n ''PING'' \<and> \<not> caseeq n ''ECHO'' \<and> \<not> caseeq n ''SET'' \<and> \<not> caseeq n ''GET'' \<and> \<not> caseeq n ''EXISTS''"
  by (auto simp: caseeq_def tolower_def)

lemma exec_del:
  assumes "del_request b = Some cmd" and "exec_command al clk b t = Inr (t', r)"
  obtains c n where "data_count cmd = Inr c" "del_loop cmd 1 (nat (c - 1)) 0 t = Inr (t', n)" "free_resp cmd = Inr ()"
    "r = del_reply (c - 1) n"
proof -
  obtain name where n: "parse b = Inr cmd" "cmd_name_of cmd = Inr (Some name)" "caseeq name ''DEL''"
    using assms(1) by (auto simp: del_request_def split: sum.splits option.splits if_splits)
  with assms(2) caseeq_del [OF n(3)] that show ?thesis
    by (auto simp: exec_command_def dispatch_def cmd_del_def del_reply_def result_inv Let_def simp del: del_loop.simps)
qed

lemma del_keys_run:
  assumes "i < length (workers s)" and "at (workers s ! i) = Deleting cmd j m n" and "del_loop cmd j m n (shared s) = Inr (t, n')"
  shows "steps (call_step adm al) s (set_worker i ((workers s ! i)\<lparr>at := Deleting cmd (j + m) 0 n'\<rparr>) t s)"
  using assms
proof (induction m arbitrary: j n s)
  case 0
  then have "(workers s ! i)\<lparr>at := Deleting cmd (j + 0) 0 n'\<rparr> = workers s ! i" by simp
  moreover have "set_worker i (workers s ! i) t s = s" using 0 by (simp add: set_worker_def)
  ultimately show ?case by (simp only: steps.Refl)
next
  case (Suc m)
  obtain k where k1: "item_string cmd j = Inr k" using Suc.prems(3) by (auto simp: result_inv)
  obtain t1 d where k2: "db_del k (shared s) = (t1, d)" by fastforce
  note k = k1 k2
  have loop: "del_loop cmd (j + 1) m (n + (if d then 1 else 0)) t1 = Inr (t, n')"
    using Suc.prems(3) k by simp
  let ?w = "(workers s ! i)\<lparr>at := Deleting cmd (j + 1) m (n + (if d then 1 else 0))\<rparr>"
  let ?s = "set_worker i ?w t1 s"
  have "call_step adm al s ?s" by (rule call_step.Del_Key [OF Suc.prems(1) refl Suc.prems(2) k])
  moreover have "steps (call_step adm al) ?s (set_worker i ((workers ?s ! i)\<lparr>at := Deleting cmd (j + 1 + m) 0 n'\<rparr>) t ?s)"
    by (rule Suc.IH) (use Suc.prems(1) loop in simp_all)
  ultimately have "steps (call_step adm al) s (set_worker i ((workers ?s ! i)\<lparr>at := Deleting cmd (j + 1 + m) 0 n'\<rparr>) t ?s)"
    by (blast intro: steps_trans steps_one)
  then show ?case using Suc.prems(1) by simp
qed

text \<open>A request of \<open>Redis_Clients\<close>, without steps of others in between.\<close>

lemma request_is_calls:
  assumes i: "i < length (workers s)" and w: "at (workers s ! i) = Reading" "next_read (workers s ! i) = Some b"
    and ex: "exec_command al clk b (shared s) = Inr (t, r)"
  shows "steps (call_step adm al) s (set_worker i (answer ((workers s ! i)\<lparr>buf := b\<rparr>) r) t s)"
proof (cases "del_request b")
  case None
  from call_step.One_Call [OF i refl w None ex] show ?thesis by (rule steps_one)
next
  case (Some cmd)
  let ?w = "workers s ! i"
  obtain c n where d: "data_count cmd = Inr c" "del_loop cmd 1 (nat (c - 1)) 0 t0 = Inr (t, n)" "free_resp cmd = Inr ()"
    "r = del_reply (c - 1) n" if "t0 = shared s" for t0 using exec_del [OF Some ex] by metis
  let ?m = "nat (c - 1)"
  let ?s1 = "set_worker i (?w\<lparr>buf := b, at := Deleting cmd 1 ?m 0\<rparr>) (shared s) s"
  let ?s2 = "set_worker i ((workers ?s1 ! i)\<lparr>at := Deleting cmd (1 + ?m) 0 n\<rparr>) t ?s1"
  have 1: "call_step adm al s ?s1" by (rule call_step.Del_Begin [OF i refl w Some d(1)]) simp
  have 2: "steps (call_step adm al) ?s1 ?s2" by (rule del_keys_run) (use i d in simp_all)
  have "call_step adm al ?s2 (set_worker i (answer (workers ?s2 ! i) (del_reply (c - 1) n)) (shared ?s2) ?s2)"
    by (rule call_step.Del_End) (use i d in simp_all)
  moreover have "set_worker i (answer (workers ?s2 ! i) (del_reply (c - 1) n)) (shared ?s2) ?s2 =
      set_worker i (answer (?w\<lparr>buf := b\<rparr>) r) t s" using i d(4) by (simp add: answer_def)
  ultimately have 3: "call_step adm al ?s2 (set_worker i (answer (?w\<lparr>buf := b\<rparr>) r) t s)" by simp
  from steps_trans [OF steps_one [of "call_step adm al", OF 3] steps_trans [OF 2 steps_one [of "call_step adm al", OF 1]]]
  show ?thesis .
qed

section \<open>One order of single calls\<close>

text \<open>A command that is no deletion is one call; a deletion calls the store for each key.\<close>

datatype call = Whole clock "string list" | Remove string

datatype outcome = Reply reply | Removed bool

type_synonym log = "(call \<times> outcome) list"

fun call_spec :: "call \<Rightarrow> store \<Rightarrow> cfault + (store \<times> outcome)" where
  "call_spec (Whole clk ws) m = ebind (spec_command clk ws m) (\<lambda>(m', r). Inr (m', Reply r))"
| "call_spec (Remove k) m = Inr (m(k := None), Removed (m k \<noteq> None))"

definition deletes :: "string list \<Rightarrow> bool" where
  "deletes ws = (case ws of [] \<Rightarrow> False | name # _ \<Rightarrow> caseeq name ''DEL'')"

definition removed :: "log \<Rightarrow> int" where
  "removed log = int (length (filter (\<lambda>x. snd x = Removed True) log))"

text \<open>The calls a command makes and the reply it gets.\<close>

definition answers :: "mem \<times> reply \<Rightarrow> log \<Rightarrow> bool" where
  "answers = (\<lambda>(request, r) log. \<exists>ws. request = encode ws \<and>
     (if deletes (map cstr ws)
      then map fst log = map Remove (tl (map cstr ws)) \<and> r = del_reply (int (length (tl ws))) (removed log)
      else \<exists>clk. log = [(Whole clk (map cstr ws), Reply r)]))"

text \<open>The calls of a deletion that is not over.\<close>

definition partly :: "worker \<Rightarrow> log \<Rightarrow> bool" where
  "partly w log \<longleftrightarrow>
     (case at w of
        Reading \<Rightarrow> log = []
      | Deleting cmd j m n \<Rightarrow> pos w < length (reads w) \<and>
          (\<exists>ws. reads w ! pos w = encode ws \<and> cmd = words_value (map cstr ws) \<and> deletes (map cstr ws) \<and>
            j + m = length ws \<and> 0 < j \<and> map fst log = map Remove (take (j - 1) (tl (map cstr ws))) \<and> n = removed log))"

definition answered :: "worker \<Rightarrow> log \<Rightarrow> bool" where
  "answered w log \<longleftrightarrow> pos w \<le> length (reads w) \<and> length (replies w) = pos w \<and>
     (\<exists>calls part. log = concat calls @ part \<and> list_all2 answers (zip (take (pos w) (reads w)) (replies w)) calls \<and> partly w part)"

definition served :: "store \<Rightarrow> pool \<Rightarrow> bool" where
  "served m0 s \<longleftrightarrow> (\<exists>log. replay call_spec log m0 = Some (db_abs (shared s)) \<and>
     (\<forall>i < length (workers s). answered (workers s ! i) (of_client i log)) \<and>
     (\<forall>i \<ge> length (workers s). of_client i log = []))"

definition calls_inv :: "store \<Rightarrow> pool \<Rightarrow> bool" where
  "calls_inv m0 s \<longleftrightarrow> table_ok (shared s) \<and> (\<forall>w \<in> set (workers s). polite (reads w)) \<and> served m0 s"

lemma of_client_Pair [simp]: "of_client j (map (Pair i) new) = (if j = i then new else [])"
  by (simp add: of_client_def filter_map comp_def)

lemma served_update:
  assumes "served m0 s" and i: "i < length (workers s)"
    and w: "\<And>log. answered (workers s ! i) log \<Longrightarrow> answered w (log @ new)"
    and new: "replay call_spec (map (Pair i) new) (db_abs (shared s)) = Some (db_abs t)"
  shows "served m0 (set_worker i w t s)"
proof -
  obtain log where log: "replay call_spec log m0 = Some (db_abs (shared s))"
    "\<And>j. j < length (workers s) \<Longrightarrow> answered (workers s ! j) (of_client j log)"
    "\<And>j. length (workers s) \<le> j \<Longrightarrow> of_client j log = []"
    using assms(1) by (auto simp: served_def)
  show ?thesis
    unfolding served_def
    by (rule exI [of _ "log @ map (Pair i) new"])
       (use log new i in \<open>auto simp: replay_append nth_list_update intro: w\<close>)
qed

lemma calls_inv_update:
  assumes inv: "calls_inv m0 s" and i: "i < length (workers s)"
    and "\<And>log. answered (workers s ! i) log \<Longrightarrow> answered w (log @ new)"
    and "replay call_spec (map (Pair i) new) (db_abs (shared s)) = Some (db_abs t)"
    and "table_ok t" and "reads w = reads (workers s ! i)"
  shows "calls_inv m0 (set_worker i w t s)"
  unfolding calls_inv_def
  using served_update [OF _ i assms(3,4)] inv i assms(5,6)
  by (auto simp: calls_inv_def dest!: set_update_subset_insert [THEN subsetD])

lemma answered_partly:
  assumes "answered w log" and "\<And>part. partly w part \<Longrightarrow> partly w' (part @ new)"
    and "pos w' = pos w" "reads w' = reads w" "replies w' = replies w"
  shows "answered w' (log @ new)"
proof -
  obtain calls part where "log = concat calls @ part" "partly w part"
    "list_all2 answers (zip (take (pos w) (reads w)) (replies w)) calls"
    using assms(1) by (auto simp: answered_def)
  with assms show ?thesis
    by (auto simp: answered_def intro!: exI [of _ calls] exI [of _ "part @ new"])
qed

lemma answered_answer:
  assumes "answered w log" and pos: "pos w < length (reads w)"
    and ok: "\<And>part. partly w part \<Longrightarrow> answers (reads w ! pos w, r) (part @ new)"
    and w': "w' = answer (w\<lparr>buf := b\<rparr>) r"
  shows "answered w' (log @ new)"
proof -
  obtain calls part where log: "log = concat calls @ part" "partly w part"
    "list_all2 answers (zip (take (pos w) (reads w)) (replies w)) calls" and len: "length (replies w) = pos w"
    using assms(1) by (auto simp: answered_def)
  have "zip (take (pos w + 1) (reads w)) (replies w @ [r]) = zip (take (pos w) (reads w)) (replies w) @ [(reads w ! pos w, r)]"
    using pos len by (simp add: take_Suc_conv_app_nth)
  then have "list_all2 answers (zip (take (pos w + 1) (reads w)) (replies w @ [r])) (calls @ [part @ new])"
    using log(3) ok [OF log(2)] by (simp add: list_all2_appendI)
  moreover have "log @ new = concat (calls @ [part @ new]) @ []" using log(1) by simp
  moreover have "partly w' []" by (simp add: partly_def w' answer_def)
  ultimately have "\<exists>calls part. log @ new = concat calls @ part \<and>
      list_all2 answers (zip (take (pos w + 1) (reads w)) (replies w @ [r])) calls \<and> partly w' part" by blast
  then show ?thesis using len pos by (simp add: answered_def w' answer_def)
qed

section \<open>Every step keeps it\<close>

lemma del_request_encode:
  assumes "sendable ws"
  shows "del_request (fill_buffer b (encode ws)) = (if deletes (map cstr ws) then Some (words_value (map cstr ws)) else None)"
proof -
  have "parse (fill_buffer b (encode ws)) = Inr (words_value (map cstr ws))"
    using parse_encode [OF assms, of "NUL # drop (length (encode ws) + 1) b"] by (simp add: fill_buffer_def words_value_def)
  then show ?thesis
    by (cases ws) (simp_all add: del_request_def deletes_def cmd_name_of_def words_value_def item_string_def)
qed

lemma polite_read:
  assumes "polite (reads w)" and "next_read w = Some b"
  obtains ws where "pos w < length (reads w)" "reads w ! pos w = encode ws" "sendable ws" "b = fill_buffer (buf w) (encode ws)"
proof -
  have pos: "pos w < length (reads w)" "b = fill_buffer (buf w) (reads w ! pos w)"
    using assms(2) by (auto simp: next_read_def split: if_splits)
  obtain ws where "reads w ! pos w = encode ws" "sendable ws"
    using assms(1) pos(1) by (auto simp: polite_def list_all_iff dest: nth_mem)
  with pos that show thesis by simp
qed

lemma step_one_call:
  assumes inv: "calls_inv m0 s" and i: "i < length (workers s)" and w: "at (workers s ! i) = Reading" "next_read (workers s ! i) = Some b"
    and no: "del_request b = None" and ex: "exec_command all_ok clk b (shared s) = Inr (t, r)"
  shows "calls_inv m0 (set_worker i (answer ((workers s ! i)\<lparr>buf := b\<rparr>) r) t s)"
proof -
  let ?w = "workers s ! i"
  have pol: "polite (reads ?w)" and ok: "table_ok (shared s)" using inv i by (simp_all add: calls_inv_def)
  obtain ws where ws: "pos ?w < length (reads ?w)" "reads ?w ! pos ?w = encode ws" "sendable ws" "b = fill_buffer (buf ?w) (encode ws)"
    by (rule polite_read [OF pol w(2)])
  have sp: "table_ok t \<and> spec_command clk (map cstr ws) (db_abs (shared s)) = Inr (db_abs t, r)"
    by (rule exec_reply [OF ok ws(3)]) (use ex ws(4) in simp)
  have nd: "\<not> deletes (map cstr ws)" using no ws(3,4) by (simp add: del_request_encode split: if_splits)
  let ?new = "[(Whole clk (map cstr ws), Reply r)]"
  show ?thesis
  proof (rule calls_inv_update [OF inv i, where new = ?new])
    fix log assume a: "answered ?w log"
    show "answered (answer (?w\<lparr>buf := b\<rparr>) r) (log @ ?new)"
      by (rule answered_answer [OF a ws(1) _ refl])
         (use nd w(1) ws(2) in \<open>auto simp: partly_def answers_def\<close>)
  qed (use sp in \<open>simp_all add: answer_def\<close>)
qed

lemma step_del_begin:
  assumes inv: "calls_inv m0 s" and i: "i < length (workers s)" and w: "at (workers s ! i) = Reading" "next_read (workers s ! i) = Some b"
    and d: "del_request b = Some cmd" "data_count cmd = Inr c"
  shows "calls_inv m0 (set_worker i ((workers s ! i)\<lparr>buf := b, at := Deleting cmd 1 (nat (c - 1)) 0\<rparr>) (shared s) s)"
proof -
  let ?w = "workers s ! i"
  have pol: "polite (reads ?w)" and ok: "table_ok (shared s)" using inv i by (simp_all add: calls_inv_def)
  obtain ws where ws: "pos ?w < length (reads ?w)" "reads ?w ! pos ?w = encode ws" "sendable ws" "b = fill_buffer (buf ?w) (encode ws)"
    by (rule polite_read [OF pol w(2)])
  have cmd: "deletes (map cstr ws)" "cmd = words_value (map cstr ws)" "c = int (length ws)"
    using d ws(3,4) by (auto simp: del_request_encode split: if_splits)
  then have "ws \<noteq> []" by (auto simp: deletes_def)
  then have len: "1 + nat (int (length ws) - 1) = length ws" by (cases ws) auto
  show ?thesis
  proof (rule calls_inv_update [OF inv i, where new = "[]"])
    fix log assume a: "answered ?w log"
    show "answered (?w\<lparr>buf := b, at := Deleting cmd 1 (nat (c - 1)) 0\<rparr>) (log @ [])"
      by (rule answered_partly [OF a])
         (use cmd ws w(1) len in \<open>auto simp: partly_def removed_def\<close>)
  qed (use ok in simp_all)
qed

lemma step_del_key:
  assumes inv: "calls_inv m0 s" and i: "i < length (workers s)" and w: "at (workers s ! i) = Deleting cmd j (Suc m) n"
    and d: "item_string cmd j = Inr k" "db_del k (shared s) = (t, d)"
  shows "calls_inv m0 (set_worker i ((workers s ! i)\<lparr>at := Deleting cmd (j + 1) m (n + (if d then 1 else 0))\<rparr>) t s)"
proof -
  let ?w = "workers s ! i"
  have ok: "table_ok (shared s)" using inv by (simp add: calls_inv_def)
  have u: "table_ok t" "db_abs t = (db_abs (shared s))(k := None)" "d \<longleftrightarrow> db_abs (shared s) k \<noteq> None"
    using undef_refines [OF ok, of k] d(2) by (simp_all add: db_del_def)
  show ?thesis
  proof (rule calls_inv_update [OF inv i, where new = "[(Remove k, Removed d)]"])
    fix log assume a: "answered ?w log"
    show "answered (?w\<lparr>at := Deleting cmd (j + 1) m (n + (if d then 1 else 0))\<rparr>) (log @ [(Remove k, Removed d)])"
    proof (rule answered_partly [OF a])
      fix part assume "partly ?w part"
      then obtain ws where ws: "pos ?w < length (reads ?w)" "reads ?w ! pos ?w = encode ws" "cmd = words_value (map cstr ws)"
        "deletes (map cstr ws)" "j + Suc m = length ws" "0 < j"
        "map fst part = map Remove (take (j - 1) (tl (map cstr ws)))" "n = removed part"
        using w by (auto simp: partly_def)
      have "k = map cstr ws ! j" using d(1) ws(3,5) by (simp add: item_string_words split: if_splits)
      then have k: "k = tl (map cstr ws) ! (j - 1)" using ws(5,6) by (simp add: nth_tl)
      have "j - 1 < length (tl (map cstr ws))" using ws(5,6) by simp
      from take_Suc_conv_app_nth [OF this] k ws(6)
      have "take j (tl (map cstr ws)) = take (j - 1) (tl (map cstr ws)) @ [k]" by simp
      with ws show "partly (?w\<lparr>at := Deleting cmd (j + 1) m (n + (if d then 1 else 0))\<rparr>) (part @ [(Remove k, Removed d)])"
        by (auto simp: partly_def removed_def intro!: exI [of _ ws])
    qed simp_all
  qed (use u in simp_all)
qed

lemma step_del_end:
  assumes inv: "calls_inv m0 s" and i: "i < length (workers s)" and w: "at (workers s ! i) = Deleting cmd j 0 n"
    and c: "data_count cmd = Inr c"
  shows "calls_inv m0 (set_worker i (answer (workers s ! i) (del_reply (c - 1) n)) (shared s) s)"
proof -
  let ?w = "workers s ! i"
  show ?thesis
  proof (rule calls_inv_update [OF inv i, where new = "[]"])
    fix log assume a: "answered ?w log"
    then have pos: "pos ?w < length (reads ?w)" using w by (auto simp: answered_def partly_def)
    show "answered (answer ?w (del_reply (c - 1) n)) (log @ [])"
    proof (rule answered_answer [OF a pos, where b = "buf ?w"])
      fix part assume "partly ?w part"
      then obtain ws where ws: "reads ?w ! pos ?w = encode ws" "cmd = words_value (map cstr ws)" "deletes (map cstr ws)"
        "j = length ws" "0 < j" "map fst part = map Remove (take (j - 1) (tl (map cstr ws)))" "n = removed part"
        using w by (auto simp: partly_def)
      moreover have "int (length (tl ws)) = c - 1" using ws(2,4,5) c by (cases ws) auto
      ultimately show "answers (reads ?w ! pos ?w, del_reply (c - 1) n) (part @ [])"
        by (auto simp: answers_def intro!: exI [of _ ws])
    qed simp
  qed (use inv in \<open>simp_all add: calls_inv_def answer_def\<close>)
qed

lemma step_connect:
  assumes "calls_inv m0 s" and "polite cs"
  shows "calls_inv m0 (s\<lparr>workers := workers s @ [\<lparr>reads = cs, pos = 0, buf = b, replies = [], at = Reading\<rparr>]\<rparr>)"
  using assms unfolding calls_inv_def served_def
  by (auto simp: nth_append less_Suc_eq answered_def partly_def)

lemma calls_inv_step: "calls_inv m0 s \<Longrightarrow> call_step polite all_ok s s' \<Longrightarrow> calls_inv m0 s'"
  by (erule call_stepE)
     (simp_all add: step_connect step_one_call step_del_begin [simplified] step_del_key [simplified] step_del_end)

interpretation calls: step_invariant "call_step polite all_ok" "calls_inv m0" for m0
  by unfold_locales (rule calls_inv_step)

section \<open>A run in which a deletion is interrupted\<close>

lemma run_one_call:
  assumes "i < length (workers s)" and "at (workers s ! i) = Reading" and pos: "pos (workers s ! i) < length (reads (workers s ! i))"
    and r: "reads (workers s ! i) ! pos (workers s ! i) = encode ws" and "sendable ws" and "\<not> deletes (map cstr ws)"
    and ok: "table_ok (shared s)" and sp: "spec_command clk (map cstr ws) (db_abs (shared s)) = Inr (m, x)"
  obtains t b where "call_step adm all_ok s (set_worker i (answer ((workers s ! i)\<lparr>buf := b\<rparr>) x) t s)" "table_ok t" "db_abs t = m"
proof -
  let ?b = "fill_buffer (buf (workers s ! i)) (encode ws)"
  obtain t where t: "exec_command all_ok clk ?b (shared s) = Inr (t, x)" "table_ok t" "db_abs t = m"
    unfolding fill_buffer_def by (rule exec_step [OF ok assms(5) sp])
  have "next_read (workers s ! i) = Some ?b" using pos r by (simp add: next_read_def)
  from call_step.One_Call [OF assms(1) refl assms(2) this _ t(1)]
  have "call_step adm all_ok s (set_worker i (answer ((workers s ! i)\<lparr>buf := ?b\<rparr>) x) t s)"
    by (simp add: del_request_encode assms(5,6))
  then show thesis using t(2,3) by (rule that)
qed

lemma run_del_begin:
  assumes "i < length (workers s)" and "at (workers s ! i) = Reading" and pos: "pos (workers s ! i) < length (reads (workers s ! i))"
    and r: "reads (workers s ! i) ! pos (workers s ! i) = encode ws" and "sendable ws" and "deletes (map cstr ws)"
  obtains b where "call_step adm al s
    (set_worker i ((workers s ! i)\<lparr>buf := b, at := Deleting (words_value (map cstr ws)) 1 (nat (int (length ws) - 1)) 0\<rparr>) (shared s) s)"
proof -
  let ?b = "fill_buffer (buf (workers s ! i)) (encode ws)"
  have "next_read (workers s ! i) = Some ?b" using pos r by (simp add: next_read_def)
  from call_step.Del_Begin [OF assms(1) refl assms(2) this, of "words_value (map cstr ws)" "int (length ws)"]
  have "call_step adm al s (set_worker i
      ((workers s ! i)\<lparr>buf := ?b, at := Deleting (words_value (map cstr ws)) 1 (nat (int (length ws) - 1)) 0\<rparr>) (shared s) s)"
    by (simp add: del_request_encode assms(5,6))
  then show thesis by (rule that)
qed

lemma run_del_key:
  assumes "i < length (workers s)" and "at (workers s ! i) = Deleting (words_value ws) j (Suc m) n" and "j < length ws"
    and ok: "table_ok (shared s)"
  obtains t where "call_step adm al s (set_worker i ((workers s ! i)\<lparr>at := Deleting (words_value ws) (j + 1) m
      (n + (if db_abs (shared s) (ws ! j) \<noteq> None then 1 else 0))\<rparr>) t s)"
    "table_ok t" "db_abs t = (db_abs (shared s))(ws ! j := None)"
proof -
  obtain t d where d: "db_del (ws ! j) (shared s) = (t, d)" by fastforce
  have u: "table_ok t" "db_abs t = (db_abs (shared s))(ws ! j := None)" "d \<longleftrightarrow> db_abs (shared s) (ws ! j) \<noteq> None"
    using undef_refines [OF ok, of "ws ! j"] d by (simp_all add: db_del_def)
  from call_step.Del_Key [OF assms(1) refl assms(2) _ d] that [OF _ u(1,2)] u(3) assms(3) show thesis
    by (simp add: item_string_words)
qed

abbreviation deleter :: "mem list" where "deleter \<equiv> [encode [''DEL'', ''a'', ''b'']]"
abbreviation setter :: "mem list" where "setter \<equiv> [encode [''SET'', ''a'', ''x''], encode [''SET'', ''b'', ''y'']]"

lemma words_polite: "polite deleter" "polite setter"
  unfolding polite_def
  by (rule exI [of _ "[[''DEL'', ''a'', ''b'']]"],
      simp add: sendable_def INT_MAX_def encode_def encode_bulk_def nat_str.simps)
     (rule exI [of _ "[[''SET'', ''a'', ''x''], [''SET'', ''b'', ''y'']]"],
      simp add: sendable_def INT_MAX_def encode_def encode_bulk_def nat_str.simps)

text \<open>\<open>DEL a b\<close> has removed \<open>a\<close>; the other client stores both keys; then \<open>b\<close> is removed.\<close>

lemma interrupted_run:
  "\<exists>s :: pool. steps (call_step polite all_ok) \<lparr>shared = empty_table, workers = []\<rparr> s \<and>
     map reads (workers s) = [deleter, setter] \<and> map pos (workers s) = [1, 2] \<and>
     map replies (workers s) = [[resp_integer 1], [''+OK'' @ CRLF, ''+OK'' @ CRLF]] \<and> db_abs (shared s) = [''a'' \<mapsto> (''x'', 0)]"
proof -
  let ?w = "\<lambda>cs. \<lparr>reads = cs, pos = 0, buf = [], replies = [], at = Reading\<rparr> :: worker"
  let ?del = "words_value [''DEL'', ''a'', ''b'']"
  let ?d = "\<lambda>b j m n. \<lparr>reads = deleter, pos = 0, buf = b, replies = [], at = Deleting ?del j m n\<rparr> :: worker"
  let ?set = "\<lambda>n b rs. \<lparr>reads = setter, pos = n, buf = b, replies = rs, at = Reading\<rparr> :: worker"
  let ?ok = "''+OK'' @ CRLF"
  have del: "sendable [''DEL'', ''a'', ''b'']" "deletes (map cstr [''DEL'', ''a'', ''b''])"
    by (simp_all add: sendable_def INT_MAX_def deletes_def)
  have set: "sendable [''SET'', k, v]" "\<not> deletes (map cstr [''SET'', k, v])" if "length k = 1" "length v = 1" for k v
    using that by (simp_all add: sendable_def INT_MAX_def deletes_def caseeq_def tolower_def)
  have c1: "call_step polite all_ok \<lparr>shared = empty_table, workers = []\<rparr> \<lparr>shared = empty_table, workers = [?w deleter]\<rparr>"
    using call_step.Connect [of polite, OF words_polite(1), of all_ok "\<lparr>shared = empty_table, workers = []\<rparr>" "[]"] by simp
  have c2: "call_step polite all_ok \<lparr>shared = empty_table, workers = [?w deleter]\<rparr> \<lparr>shared = empty_table, workers = [?w deleter, ?w setter]\<rparr>"
    using call_step.Connect [of polite, OF words_polite(2), of all_ok "\<lparr>shared = empty_table, workers = [?w deleter]\<rparr>" "[]"] by simp
  obtain b where c3: "call_step polite all_ok \<lparr>shared = empty_table, workers = [?w deleter, ?w setter]\<rparr>
      \<lparr>shared = empty_table, workers = [?d b 1 2 0, ?w setter]\<rparr>"
    by (rule run_del_begin [of 0 "\<lparr>shared = empty_table, workers = [?w deleter, ?w setter]\<rparr>" "[''DEL'', ''a'', ''b'']"])
       (use del in \<open>simp_all add: set_worker_def\<close>)
  obtain t1 where c4: "call_step polite all_ok \<lparr>shared = empty_table, workers = [?d b 1 2 0, ?w setter]\<rparr>
      \<lparr>shared = t1, workers = [?d b 2 1 0, ?w setter]\<rparr>" and t1: "table_ok t1" "db_abs t1 = Map.empty"
    by (rule run_del_key [of 0 "\<lparr>shared = empty_table, workers = [?d b 1 2 0, ?w setter]\<rparr>" "[''DEL'', ''a'', ''b'']" 1 1 0])
       (simp_all add: set_worker_def numeral_2_eq_2)
  obtain t2 b2 where c5: "call_step polite all_ok \<lparr>shared = t1, workers = [?d b 2 1 0, ?w setter]\<rparr>
      \<lparr>shared = t2, workers = [?d b 2 1 0, ?set 1 b2 [?ok]]\<rparr>" and t2: "table_ok t2" "db_abs t2 = [''a'' \<mapsto> (''x'', 0)]"
    by (rule run_one_call [of 1 "\<lparr>shared = t1, workers = [?d b 2 1 0, ?w setter]\<rparr>" "[''SET'', ''a'', ''x'']" "\<lambda>_. 0" "[''a'' \<mapsto> (''x'', 0)]" ?ok])
       (use set [of "''a''" "''x''"] t1 in \<open>simp_all add: set_worker_def answer_def spec_set_def resp_simple_def\<close>)
  obtain t3 b3 where c6: "call_step polite all_ok \<lparr>shared = t2, workers = [?d b 2 1 0, ?set 1 b2 [?ok]]\<rparr>
      \<lparr>shared = t3, workers = [?d b 2 1 0, ?set 2 b3 [?ok, ?ok]]\<rparr>" and t3: "table_ok t3" "db_abs t3 = [''a'' \<mapsto> (''x'', 0), ''b'' \<mapsto> (''y'', 0)]"
    by (rule run_one_call [of 1 "\<lparr>shared = t2, workers = [?d b 2 1 0, ?set 1 b2 [?ok]]\<rparr>" "[''SET'', ''b'', ''y'']" "\<lambda>_. 0"
          "[''a'' \<mapsto> (''x'', 0), ''b'' \<mapsto> (''y'', 0)]" ?ok])
       (use set [of "''b''" "''y''"] t2 in \<open>simp_all add: set_worker_def answer_def spec_set_def resp_simple_def numeral_2_eq_2\<close>)
  obtain t4 where c7: "call_step polite all_ok \<lparr>shared = t3, workers = [?d b 2 1 0, ?set 2 b3 [?ok, ?ok]]\<rparr>
      \<lparr>shared = t4, workers = [?d b 3 0 1, ?set 2 b3 [?ok, ?ok]]\<rparr>" and t4: "db_abs t4 = [''a'' \<mapsto> (''x'', 0)]"
    by (rule run_del_key [of 0 "\<lparr>shared = t3, workers = [?d b 2 1 0, ?set 2 b3 [?ok, ?ok]]\<rparr>" "[''DEL'', ''a'', ''b'']" 2 0 0])
       (use t3 in \<open>simp_all add: set_worker_def\<close>)
  let ?s = "\<lparr>shared = t4, workers = [\<lparr>reads = deleter, pos = 1, buf = b, replies = [resp_integer 1], at = Reading\<rparr>, ?set 2 b3 [?ok, ?ok]]\<rparr>"
  have c8: "call_step polite all_ok \<lparr>shared = t4, workers = [?d b 3 0 1, ?set 2 b3 [?ok, ?ok]]\<rparr> ?s"
    using call_step.Del_End [of 0 "\<lparr>shared = t4, workers = [?d b 3 0 1, ?set 2 b3 [?ok, ?ok]]\<rparr>" _ ?del 3 1 3 polite all_ok]
    by (simp add: set_worker_def answer_def del_reply_def)
  note more = steps.Snoc [of "call_step polite all_ok"]
  have "steps (call_step polite all_ok) \<lparr>shared = empty_table, workers = []\<rparr> ?s"
    by (rule more [OF more [OF more [OF more [OF more [OF more [OF more [OF steps_one [of "call_step polite all_ok", OF c1]
         c2] c3] c4] c5] c6] c7] c8])
  then show ?thesis using t4 by (intro exI [of _ ?s]) simp
qed

section \<open>Properties\<close>

text \<open>C3: What clients with well-formed requests see when their commands may be interleaved between the keys of a
  \<open>DEL\<close>: there is one order of all single calls in which the abstract machine gives every answer that was given
  and ends in the map the table stands for; every command that was answered is a block of consecutive calls
  of its client, a deletion of several keys being one call for each key and its reply the number of the
  keys it found (\<open>answered\<close>).\<close>

theorem deletions_interleave:
  assumes "steps (call_step polite all_ok) \<lparr>shared = empty_table, workers = []\<rparr> s"
  shows "\<exists>log. replay call_spec log Map.empty = Some (db_abs (shared s)) \<and>
    (\<forall>i < length (workers s). answered (workers s ! i) (of_client i log))"
proof -
  have "calls_inv Map.empty \<lparr>shared = empty_table, workers = []\<rparr>"
    by (auto simp: calls_inv_def served_def intro!: exI [of _ "[]"])
  from calls.inv_steps [OF assms this] show ?thesis by (auto simp: calls_inv_def served_def)
qed

theorem deletions_interleave_witness:
  "\<exists>(s :: pool) log. map replies (workers s) = [[resp_integer 1], [''+OK'' @ CRLF, ''+OK'' @ CRLF]] \<and>
     db_abs (shared s) = [''a'' \<mapsto> (''x'', 0)] \<and>
     replay call_spec log Map.empty = Some [''a'' \<mapsto> (''x'', 0)] \<and> answered (workers s ! 0) (of_client 0 log)"
proof -
  from interrupted_run obtain s where s': "steps (call_step polite all_ok) \<lparr>shared = empty_table, workers = []\<rparr> s \<and>
     map reads (workers s) = [deleter, setter] \<and> map pos (workers s) = [1, 2] \<and>
     map replies (workers s) = [[resp_integer 1], [''+OK'' @ CRLF, ''+OK'' @ CRLF]] \<and> db_abs (shared s) = [''a'' \<mapsto> (''x'', 0)]" ..
  note s = s' [THEN conjunct1] s' [THEN conjunct2, THEN conjunct1]
    s' [THEN conjunct2, THEN conjunct2, THEN conjunct2, THEN conjunct1] s' [THEN conjunct2, THEN conjunct2, THEN conjunct2, THEN conjunct2]
  have n: "0 < length (workers s)" using s(2) by (cases "workers s") simp_all
  from deletions_interleave [OF s(1)] obtain log where
    "replay call_spec log Map.empty = Some (db_abs (shared s))" "answered (workers s ! 0) (of_client 0 log)" using n by blast
  then show ?thesis using s(3,4) by (intro exI [of _ s] exI [of _ log]) simp
qed

text \<open>Commands are not atomic: no order of the three commands of \<open>interrupted_run\<close> gives \<open>DEL\<close> its reply and leaves
  that store.\<close>

lemma of_client_Cons: "of_client i ((j, x) # xs) = (if j = i then x # of_client i xs else of_client i xs)"
  by (simp add: of_client_def)

lemma one_client: "of_client j tr = ys \<Longrightarrow> (\<forall>i. i \<noteq> j \<longrightarrow> of_client i tr = []) \<Longrightarrow> tr = map (Pair j) ys"
proof (induction tr arbitrary: ys)
  case (Cons e tr)
  then show ?case by (cases e) (auto simp: of_client_Cons split: if_splits)
qed simp

lemma two_clients:
  assumes "of_client 0 tr = [x]" and "of_client 1 tr = ys" and "\<forall>i. i \<noteq> 0 \<and> i \<noteq> 1 \<longrightarrow> of_client i tr = []"
  shows "\<exists>n \<le> length ys. tr = map (Pair 1) (take n ys) @ (0, x) # map (Pair 1) (drop n ys)"
  using assms
proof (induction tr arbitrary: ys)
  case (Cons e tr)
  obtain j z where e: "e = (j, z)" by (cases e)
  have "j = 0 \<or> j = 1" using Cons.prems(3) e by (metis list.distinct(1) of_client_Cons)
  then show ?case
  proof
    assume j: "j = 0"
    then have "z = x" "of_client 0 tr = []" "of_client 1 tr = ys" using Cons.prems(1,2) e by (simp_all add: of_client_Cons)
    moreover have "of_client i tr = []" if "i \<noteq> 1" for i
      using that Cons.prems(3) e j calculation(2) by (cases "i = 0") (auto simp: of_client_Cons split: if_splits)
    ultimately have "tr = map (Pair 1) ys" by (intro one_client) auto
    then show ?thesis using e j \<open>z = x\<close> by (intro exI [of _ 0]) simp
  next
    assume j: "j = 1"
    let ?zs = "of_client 1 tr"
    have ys: "ys = z # ?zs" using Cons.prems(2) e j by (simp add: of_client_Cons)
    have "\<exists>n \<le> length ?zs. tr = map (Pair 1) (take n ?zs) @ (0, x) # map (Pair 1) (drop n ?zs)"
      by (rule Cons.IH) (use Cons.prems e j ys in \<open>auto simp: of_client_Cons\<close>)
    then obtain n where "n \<le> length ?zs" "tr = map (Pair 1) (take n ?zs) @ (0, x) # map (Pair 1) (drop n ?zs)" by blast
    then show ?thesis using e j ys by (intro exI [of _ "n + 1"]) simp
  qed
qed simp

lemma spec_del_kw: "spec_command clk (''DEL'' # args) m = spec_del args m"
  by (simp add: spec_command_def caseeq_def tolower_def)

lemma deletions_not_atomic:
  "\<not> (\<exists>tr rs. spec_run tr Map.empty = Inr ([''a'' \<mapsto> (''x'', 0)], rs) \<and> of_client 0 rs = [resp_integer 1] \<and>
     map snd (of_client 0 tr) = [[''DEL'', ''a'', ''b'']] \<and>
     map snd (of_client 1 tr) = [[''SET'', ''a'', ''x''], [''SET'', ''b'', ''y'']] \<and>
     (\<forall>i. i \<noteq> 0 \<and> i \<noteq> 1 \<longrightarrow> of_client i tr = []))"
proof
  assume "\<exists>tr rs. spec_run tr Map.empty = Inr ([''a'' \<mapsto> (''x'', 0)], rs) \<and> of_client 0 rs = [resp_integer 1] \<and>
     map snd (of_client 0 tr) = [[''DEL'', ''a'', ''b'']] \<and>
     map snd (of_client 1 tr) = [[''SET'', ''a'', ''x''], [''SET'', ''b'', ''y'']] \<and>
     (\<forall>i. i \<noteq> 0 \<and> i \<noteq> 1 \<longrightarrow> of_client i tr = [])"
  then obtain tr rs c0 c1 c2 where run: "spec_run tr Map.empty = Inr ([''a'' \<mapsto> (''x'', 0)], rs)" "of_client 0 rs = [resp_integer 1]"
    and tr: "of_client 0 tr = [(c0, [''DEL'', ''a'', ''b''])]" "of_client 1 tr = [(c1, [''SET'', ''a'', ''x'']), (c2, [''SET'', ''b'', ''y''])]"
      "\<forall>i. i \<noteq> 0 \<and> i \<noteq> 1 \<longrightarrow> of_client i tr = []"
    by (auto simp: map_eq_Cons_conv)
  from two_clients [OF tr] obtain n where n: "n \<le> length [(c1, [''SET'', ''a'', ''x'']), (c2, [''SET'', ''b'', ''y''])]" "tr = map (Pair 1) (take n [(c1, [''SET'', ''a'', ''x'']), (c2, [''SET'', ''b'', ''y''])]) @
      (0, c0, [''DEL'', ''a'', ''b'']) # map (Pair 1) (drop n [(c1, [''SET'', ''a'', ''x'']), (c2, [''SET'', ''b'', ''y''])])"
    by blast
  consider "n = 0" | "n = 1" | "n = 2" using n(1) by force
  then show False
    using run n(2)
    by cases (auto simp: spec_del_kw spec_del_def spec_set_def resp_integer_def of_client_Cons dest: fun_cong [of _ _ "''b''"] fun_cong [of _ _ "''a''"])
qed

end
