(* ===== verification/Counting_Programs.thy ===== *)
theory Counting_Programs
  imports Thread_Programs
begin

text \<open>
  The programs \<open>mutex.c\<close>, \<open>threads_shared_memory.c\<close> and \<open>deadlock.c\<close> of \<open>theories/c/thread_mutexes_concurrent\<close> as a whole:
  the main thread creates two threads that run the routines of \<open>Threads\<close>, waits for the first, waits for the
  second and judges the counter. A thread runs from its creation on; when the main function has returned
  nothing runs any more. What is told are the lines of the main thread; the lines of the others are reads of
  the counter, as in \<open>Threads\<close>. The creation of threads succeeds, and \<open>tid\<close> is what \<open>%p\<close> makes of a thread.
\<close>

section \<open>A main thread with its threads\<close>

datatype main_action = Spawn | Await nat | Tell string | Judge "u32 \<Rightarrow> string"

record program =
  box :: machine
  main_left :: "main_action list"
  spawned :: nat
  told :: "string list"

definition boot :: "instr list list \<Rightarrow> main_action list \<Rightarrow> program" where
  "boot progs main = \<lparr>box = start progs, main_left = main, spawned = 0, told = []\<rparr>"

inductive prog_step :: "program \<Rightarrow> program \<Rightarrow> bool" where
  Thread: "main_left p \<noteq> [] \<Longrightarrow> i < spawned p \<Longrightarrow> step_thread i (box p) = Some m \<Longrightarrow> prog_step p (p\<lparr>box := m\<rparr>)"
| Main_Spawn: "main_left p = Spawn # cs \<Longrightarrow> spawned p < length (threads (box p)) \<Longrightarrow>
    prog_step p (p\<lparr>main_left := cs, spawned := spawned p + 1\<rparr>)"
| Main_Await: "main_left p = Await i # cs \<Longrightarrow> i < spawned p \<Longrightarrow> code (threads (box p) ! i) = [] \<Longrightarrow>
    prog_step p (p\<lparr>main_left := cs\<rparr>)"
| Main_Tell: "main_left p = Tell x # cs \<Longrightarrow> prog_step p (p\<lparr>main_left := cs, told := told p @ [x]\<rparr>)"
| Main_Judge: "main_left p = Judge f # cs \<Longrightarrow> prog_step p (p\<lparr>main_left := cs, told := told p @ [f (machine.count (box p))]\<rparr>)"

inductive_cases prog_stepE: "prog_step p q"

section \<open>The programs\<close>

definition expected_line :: "nat \<Rightarrow> string" where
  "expected_line n = ''Main: Expected count is '' @ [CHR 0x1B] @ ''[32m'' @ nat_str (2 * n) @ [CHR 0x1B] @ ''[0m'' @ [LF]"

definition created_line :: "string \<Rightarrow> string \<Rightarrow> string" where
  "created_line which tid = ''Main: Created '' @ which @ '' thread ['' @ tid @ '']'' @ [LF]"

definition joined_line :: "string \<Rightarrow> string \<Rightarrow> string" where
  "joined_line which tid = ''Main: Joined '' @ which @ '' thread ['' @ tid @ '']'' @ [LF]"

definition two_threads :: "(nat \<Rightarrow> string) \<Rightarrow> main_action list" where
  "two_threads tid =
     [Spawn, Tell (created_line ''first'' (tid 0)), Spawn, Tell (created_line ''second'' (tid 1)),
      Await 0, Tell (joined_line ''first'' (tid 0)), Await 1, Tell (joined_line ''second'' (tid 1))]"

definition mutex_main :: "(nat \<Rightarrow> string) \<Rightarrow> nat \<Rightarrow> main_action list" where
  "mutex_main tid n = Tell (expected_line n) # two_threads tid @ [Judge (verdict (2 * n))]"

definition shared_main :: "(nat \<Rightarrow> string) \<Rightarrow> nat \<Rightarrow> main_action list" where
  "shared_main tid n = Tell (expected_line n) # two_threads tid @ [Judge (verdict (2 * n))]"

definition deadlock_main :: "(nat \<Rightarrow> string) \<Rightarrow> main_action list" where
  "deadlock_main tid = two_threads tid @ [Judge deadlock_verdict]"

definition mutex_program :: "(nat \<Rightarrow> string) \<Rightarrow> nat \<Rightarrow> program" where
  "mutex_program tid n = boot [mutex_routine n, mutex_routine n] (mutex_main tid n)"

definition shared_program :: "(nat \<Rightarrow> string) \<Rightarrow> nat \<Rightarrow> program" where
  "shared_program tid n = boot [shared_routine n, shared_routine n] (shared_main tid n)"

definition deadlock_program :: "(nat \<Rightarrow> string) \<Rightarrow> program" where
  "deadlock_program tid = boot [thread_1_routine, thread_2_routine] (deadlock_main tid)"

section \<open>A main thread that waits for all\<close>

text \<open>What main has left, when \<open>d\<close> of \<open>k\<close> threads exist and those in \<open>A\<close> have been waited for.\<close>

fun main_ok :: "nat \<Rightarrow> nat \<Rightarrow> nat set \<Rightarrow> main_action list \<Rightarrow> bool" where
  "main_ok k d A [] = True"
| "main_ok k d A (Spawn # cs) = (d < k \<and> main_ok k (d + 1) A cs)"
| "main_ok k d A (Await i # cs) = (i < d \<and> main_ok k d (insert i A) cs)"
| "main_ok k d A (Tell x # cs) = main_ok k d A cs"
| "main_ok k d A (Judge f # cs) = ({..<k} \<subseteq> A \<and> main_ok k d A cs)"

text \<open>What it will say when the counter ends as \<open>c\<close>.\<close>

fun tells :: "u32 \<Rightarrow> main_action list \<Rightarrow> string list" where
  "tells c [] = []"
| "tells c (Tell x # cs) = x # tells c cs"
| "tells c (Judge f # cs) = f c # tells c cs"
| "tells c (a # cs) = tells c cs"

definition waiting_ok :: "program \<Rightarrow> bool" where
  "waiting_ok p \<longleftrightarrow> (\<exists>A. main_ok (length (threads (box p))) (spawned p) A (main_left p) \<and>
     (\<forall>i \<in> A. i < length (threads (box p)) \<longrightarrow> code (threads (box p) ! i) = []) \<and> spawned p \<le> length (threads (box p)))"

definition prog_inv :: "nat \<Rightarrow> main_action list \<Rightarrow> program \<Rightarrow> bool" where
  "prog_inv tot main p \<longleftrightarrow> locked_inv tot (box p) \<and> waiting_ok p \<and>
     (\<forall>i < length (threads (box p)). spawned p \<le> i \<longrightarrow> (\<exists>cs. code (threads (box p) ! i) = Lock 0 # cs)) \<and>
     told p @ tells (of_nat tot) (main_left p) = tells (of_nat tot) main"

lemma step_thread_keeps:
  assumes "step_thread i s = Some s'"
  shows "length (threads s') = length (threads s)" "i < length (threads s)" "code (threads s ! i) \<noteq> []"
    "j \<noteq> i \<Longrightarrow> threads s' ! j = threads s ! j"
  using assms by (auto simp: step_thread_def set_thread_def Let_def split: if_splits list.splits instr.splits)

lemma waiting_ok_thread:
  assumes "waiting_ok p" and st: "step_thread i (box p) = Some m"
  shows "waiting_ok (p\<lparr>box := m\<rparr>)"
proof -
  obtain A where A: "main_ok (length (threads (box p))) (spawned p) A (main_left p)" "spawned p \<le> length (threads (box p))"
    and fin: "\<And>j. j \<in> A \<Longrightarrow> j < length (threads (box p)) \<Longrightarrow> code (threads (box p) ! j) = []"
    using assms(1) by (auto simp: waiting_ok_def)
  note keeps = step_thread_keeps [OF st]
  have "code (threads m ! j) = []" if "j \<in> A" "j < length (threads m)" for j
  proof (cases "j = i")
    case True
    with fin [of i] that keeps show ?thesis by simp
  next
    case False
    with fin [of j] that keeps show ?thesis by simp
  qed
  with A keeps(1) show ?thesis by (auto simp: waiting_ok_def intro!: exI [of _ A])
qed

lemma judged_finished:
  assumes "waiting_ok p" and "main_left p = Judge f # cs"
  shows "finished (box p)"
proof -
  obtain A where "{..<length (threads (box p))} \<subseteq> A"
    "\<And>j. j \<in> A \<Longrightarrow> j < length (threads (box p)) \<Longrightarrow> code (threads (box p) ! j) = []"
    using assms by (auto simp: waiting_ok_def)
  then show ?thesis by (auto simp: finished_def in_set_conv_nth subset_iff)
qed

lemma waiting_ok_step:
  assumes "waiting_ok p" and "prog_step p q"
  shows "waiting_ok q"
  using assms(2)
proof (cases rule: prog_step.cases)
  case (Thread i m)
  with assms(1) show ?thesis by (auto intro: waiting_ok_thread)
next
  case (Main_Await i cs)
  obtain A where "main_ok (length (threads (box p))) (spawned p) (insert i A) cs" "spawned p \<le> length (threads (box p))"
    "\<forall>j \<in> A. j < length (threads (box p)) \<longrightarrow> code (threads (box p) ! j) = []"
    using assms(1) Main_Await(2) by (auto simp: waiting_ok_def)
  with Main_Await show ?thesis by (auto simp: waiting_ok_def intro!: exI [of _ "insert i A"])
qed (use assms(1) in \<open>auto simp: waiting_ok_def\<close>)

lemma prog_inv_step:
  assumes inv: "prog_inv tot main p" and "prog_step p q"
  shows "prog_inv tot main q"
proof -
  have w: "waiting_ok q" by (rule waiting_ok_step [OF _ assms(2)]) (use inv in \<open>simp add: prog_inv_def\<close>)
  from assms(2) show ?thesis
  proof (cases rule: prog_step.cases)
    case (Thread i m)
    have "locked_inv tot m" using inv Thread(4) by (auto simp: prog_inv_def intro: locked_inv_tstep tstep.Move)
    then show ?thesis using inv w Thread step_thread_keeps [OF Thread(4)] by (auto simp: prog_inv_def)
  next
    case (Main_Judge f cs)
    have "machine.count (box p) = of_nat tot"
      using inv judged_finished [OF _ Main_Judge(2)] by (auto simp: prog_inv_def intro: finished_count)
    then show ?thesis using inv w Main_Judge by (auto simp: prog_inv_def)
  qed (use inv w in \<open>auto simp: prog_inv_def\<close>)
qed

text \<open>Main is never blocked for good: a thread it waits for can move, or the owner of the lock can.\<close>

lemma prog_not_blocked:
  assumes inv: "prog_inv tot main p" and left: "main_left p \<noteq> []"
  shows "\<exists>q. prog_step p q"
proof -
  obtain a cs where cs: "main_left p = a # cs" using left by (cases "main_left p") auto
  obtain A where ok: "main_ok (length (threads (box p))) (spawned p) A (main_left p)" "spawned p \<le> length (threads (box p))"
    using inv by (auto simp: prog_inv_def waiting_ok_def)
  show ?thesis
  proof (cases a)
    case Spawn
    with cs ok(1) have "main_left p = Spawn # cs" "spawned p < length (threads (box p))" by simp_all
    then show ?thesis by (blast intro: prog_step.Main_Spawn)
  next
    case (Await i)
    with cs ok(1) have i: "i < spawned p" "main_left p = Await i # cs" by simp_all
    obtain ph where ph: "inv_with tot ph (box p)" using inv by (auto simp: prog_inv_def locked_inv_def)
    have move: ?thesis if "j < spawned p" "step_thread j (box p) \<noteq> None" for j
      using that left by (blast intro: prog_step.Thread)
    show ?thesis
    proof (cases "code (threads (box p) ! i) = []")
      case True
      with i show ?thesis by (blast intro: prog_step.Main_Await)
    next
      case False
      show ?thesis
      proof (cases "machine.owner (box p) 0")
        case None
        with locked_can_move [OF ph _ False] i ok(2) show ?thesis by (intro move [of i]) auto
      next
        case (Some j)
        note j = locked_owner_unfinished [OF ph Some]
        have "j < spawned p"
        proof (rule ccontr)
          assume "\<not> j < spawned p"
          then obtain cs where "code (threads (box p) ! j) = Lock 0 # cs" using inv j(1) by (auto simp: prog_inv_def)
          moreover have "locked_code (ph j) (code (threads (box p) ! j))" using ph j(1) by (auto simp: inv_with_def)
          ultimately show False using j(2) by (simp add: locked_code_cases)
        qed
        with locked_can_move [OF ph j(1,3)] Some show ?thesis by (intro move [of j]) auto
      qed
    qed
  qed (use cs in \<open>blast intro: prog_step.Main_Tell prog_step.Main_Judge\<close>)+
qed

definition prog_todo :: "program \<Rightarrow> nat" where
  "prog_todo p = todo (box p) + length (main_left p)"

lemma prog_step_less: "prog_step p q \<Longrightarrow> prog_todo q < prog_todo p"
  by (erule prog_stepE) (auto simp: prog_todo_def dest: todo_step)

interpretation prog: step_progress prog_step "prog_inv tot main" prog_todo "\<lambda>p. main_left p = []" for tot main
  by unfold_locales (auto intro: prog_inv_step prog_step_less prog_not_blocked)

lemma prog_inv_mutex: "prog_inv (2 * n) (mutex_main tid n) (mutex_program tid n)"
proof -
  have "locked_inv (2 * n) (start [mutex_routine n, mutex_routine n])"
    using mutex_start [of 2 n] by (simp add: numeral_2_eq_2)
  moreover have "main_ok 2 0 {} (mutex_main tid n)"
    by (auto simp: mutex_main_def two_threads_def)
  ultimately show ?thesis
    by (auto simp: prog_inv_def waiting_ok_def mutex_program_def boot_def start_def mutex_routine_def numeral_2_eq_2
        less_Suc_eq intro!: exI [of _ "{}"])
qed

section \<open>The threads of a main that is waiting\<close>

text \<open>While main has something left, its threads run as in \<open>Threads\<close>.\<close>

lemma threads_run:
  assumes run: "run is (box p) = Some m" and "spawned p = length (threads (box p))" and "main_left p \<noteq> []"
  shows "steps prog_step p (p\<lparr>box := m\<rparr>)"
  using assms
proof (induction "is" arbitrary: p)
  case Nil
  then have "p\<lparr>box := m\<rparr> = p" by (cases p) simp
  then show ?case by (simp only: steps.Refl)
next
  case (Cons i "is")
  obtain s where s: "step_thread i (box p) = Some s" "run is s = Some m"
    using Cons.prems(1) by (auto split: option.splits)
  note keeps = step_thread_keeps [OF s(1)]
  have "prog_step p (p\<lparr>box := s\<rparr>)" by (rule prog_step.Thread) (use Cons.prems s keeps in simp_all)
  moreover have "steps prog_step (p\<lparr>box := s\<rparr>) ((p\<lparr>box := s\<rparr>)\<lparr>box := m\<rparr>)"
    by (rule Cons.IH) (use Cons.prems s keeps in simp_all)
  ultimately show ?case using steps_trans [OF _ steps_one [of prog_step]] by fastforce
qed

text \<open>Main up to its first wait, and from there when both threads have finished.\<close>

abbreviation waiting :: "(nat \<Rightarrow> string) \<Rightarrow> (u32 \<Rightarrow> string) \<Rightarrow> main_action list" where
  "waiting tid f \<equiv> [Await 0, Tell (joined_line ''first'' (tid 0)), Await 1, Tell (joined_line ''second'' (tid 1)), Judge f]"

abbreviation created_lines :: "(nat \<Rightarrow> string) \<Rightarrow> string list" where
  "created_lines tid \<equiv> [created_line ''first'' (tid 0), created_line ''second'' (tid 1)]"

abbreviation joined_lines :: "(nat \<Rightarrow> string) \<Rightarrow> string list" where
  "joined_lines tid \<equiv> [joined_line ''first'' (tid 0), joined_line ''second'' (tid 1)]"

lemma more_steps: "steps prog_step p q \<Longrightarrow> prog_step q r \<Longrightarrow> steps prog_step p r"
  by (rule steps.Snoc)

lemma main_creates:
  assumes "length (threads m) = 2"
  shows "steps prog_step \<lparr>box = m, main_left = two_threads tid @ [Judge f], spawned = 0, told = out\<rparr>
    \<lparr>box = m, main_left = waiting tid f, spawned = 2, told = out @ created_lines tid\<rparr>"
proof -
  let ?p = "\<lambda>cs n out. \<lparr>box = m, main_left = cs, spawned = n, told = out\<rparr>"
  let ?l1 = "created_line ''first'' (tid 0)" and ?l2 = "created_line ''second'' (tid 1)"
  have 1: "prog_step (?p (two_threads tid @ [Judge f]) 0 out) (?p (Tell ?l1 # Spawn # Tell ?l2 # waiting tid f) 1 out)"
    using prog_step.Main_Spawn [of "?p (two_threads tid @ [Judge f]) 0 out"] assms by (simp add: two_threads_def)
  have 2: "prog_step (?p (Tell ?l1 # Spawn # Tell ?l2 # waiting tid f) 1 out) (?p (Spawn # Tell ?l2 # waiting tid f) 1 (out @ [?l1]))"
    using prog_step.Main_Tell [of "?p (Tell ?l1 # Spawn # Tell ?l2 # waiting tid f) 1 out"] by simp
  have 3: "prog_step (?p (Spawn # Tell ?l2 # waiting tid f) 1 (out @ [?l1])) (?p (Tell ?l2 # waiting tid f) 2 (out @ [?l1]))"
    using prog_step.Main_Spawn [of "?p (Spawn # Tell ?l2 # waiting tid f) 1 (out @ [?l1])"] assms by (simp add: numeral_2_eq_2)
  have 4: "prog_step (?p (Tell ?l2 # waiting tid f) 2 (out @ [?l1])) (?p (waiting tid f) 2 (out @ created_lines tid))"
    using prog_step.Main_Tell [of "?p (Tell ?l2 # waiting tid f) 2 (out @ [?l1])"] by simp
  show ?thesis by (rule more_steps [OF more_steps [OF more_steps [OF steps_one [of prog_step, OF 1] 2] 3] 4])
qed

lemma main_joins:
  assumes "finished m" and "length (threads m) = 2"
  shows "steps prog_step \<lparr>box = m, main_left = waiting tid f, spawned = 2, told = out\<rparr>
    \<lparr>box = m, main_left = [], spawned = 2, told = out @ joined_lines tid @ [f (machine.count m)]\<rparr>"
proof -
  let ?p = "\<lambda>cs out. \<lparr>box = m, main_left = cs, spawned = 2, told = out\<rparr>"
  let ?l1 = "joined_line ''first'' (tid 0)" and ?l2 = "joined_line ''second'' (tid 1)"
  have c: "code (threads m ! 0) = []" "code (threads m ! 1) = []" using assms by (auto simp: finished_def)
  have 1: "prog_step (?p (waiting tid f) out) (?p [Tell ?l1, Await 1, Tell ?l2, Judge f] out)"
    using prog_step.Main_Await [of "?p (waiting tid f) out"] c by simp
  have 2: "prog_step (?p [Tell ?l1, Await 1, Tell ?l2, Judge f] out) (?p [Await 1, Tell ?l2, Judge f] (out @ [?l1]))"
    using prog_step.Main_Tell [of "?p [Tell ?l1, Await 1, Tell ?l2, Judge f] out"] by simp
  have 3: "prog_step (?p [Await 1, Tell ?l2, Judge f] (out @ [?l1])) (?p [Tell ?l2, Judge f] (out @ [?l1]))"
    using prog_step.Main_Await [of "?p [Await 1, Tell ?l2, Judge f] (out @ [?l1])"] c by simp
  have 4: "prog_step (?p [Tell ?l2, Judge f] (out @ [?l1])) (?p [Judge f] (out @ joined_lines tid))"
    using prog_step.Main_Tell [of "?p [Tell ?l2, Judge f] (out @ [?l1])"] by simp
  have 5: "prog_step (?p [Judge f] (out @ joined_lines tid)) (?p [] (out @ joined_lines tid @ [f (machine.count m)]))"
    using prog_step.Main_Judge [of "?p [Judge f] (out @ joined_lines tid)"] by simp
  show ?thesis
    by (rule more_steps [OF more_steps [OF more_steps [OF more_steps [OF steps_one [of prog_step, OF 1] 2] 3] 4] 5])
qed

text \<open>A schedule of the threads that ends is a run of the program that ends.\<close>

lemma program_run:
  assumes run: "run is (start [c0, c1]) = Some m"
  shows "steps prog_step \<lparr>box = start [c0, c1], main_left = two_threads tid @ [Judge f], spawned = 0, told = out\<rparr>
      \<lparr>box = m, main_left = waiting tid f, spawned = 2, told = out @ created_lines tid\<rparr>"
    and "finished m \<Longrightarrow> steps prog_step \<lparr>box = start [c0, c1], main_left = two_threads tid @ [Judge f], spawned = 0, told = out\<rparr>
      \<lparr>box = m, main_left = [], spawned = 2, told = out @ created_lines tid @ joined_lines tid @ [f (machine.count m)]\<rparr>"
proof -
  let ?s0 = "\<lparr>box = start [c0, c1], main_left = two_threads tid @ [Judge f], spawned = 0, told = out\<rparr>"
  let ?s1 = "\<lparr>box = start [c0, c1], main_left = waiting tid f, spawned = 2, told = out @ created_lines tid\<rparr>"
  let ?s2 = "\<lparr>box = m, main_left = waiting tid f, spawned = 2, told = out @ created_lines tid\<rparr>"
  have 1: "steps prog_step ?s0 ?s1" by (rule main_creates) (simp add: start_def)
  have 2: "steps prog_step ?s1 ?s2"
    using threads_run [of "is" ?s1 m] run by (simp add: start_def)
  show r: "steps prog_step ?s0 ?s2" by (rule steps_trans [OF 2 1])
  have "length (threads u) = length (threads s)" if "run js s = Some u" for js s u
    using that by (induction js arbitrary: s) (auto split: option.splits dest: step_thread_keeps)
  from this [OF run] have len: "length (threads m) = 2" by (simp add: start_def)
  assume "finished m"
  from steps_trans [OF main_joins [OF this len] r]
  show "steps prog_step ?s0 \<lparr>box = m, main_left = [], spawned = 2, told = out @ created_lines tid @ joined_lines tid @ [f (machine.count m)]\<rparr>"
    by simp
qed

section \<open>The three programs\<close>

definition ok_line :: "nat \<Rightarrow> string" where
  "ok_line c = [CHR 0x1B] @ ''[32mMain: OK. Total count is '' @ nat_str c"

lemma verdict_ok: "verdict (2 * n) (of_nat (2 * n)) = ok_line (unat (of_nat (2 * n) :: u32)) @ [CHR 0x1B] @ ''[0m'' @ [LF]"
  by (simp add: verdict_def ok_line_def)

lemma counting_start:
  "steps prog_step (boot progs (Tell x # cs)) \<lparr>box = start progs, main_left = cs, spawned = 0, told = [x]\<rparr>"
  using prog_step.Main_Tell [of "boot progs (Tell x # cs)"] by (simp add: boot_def steps_one)

text \<open>C34: The mutex program as a whole, from the start of main: whatever the interleaving of main and its two
  threads, no state blocks it and no run is endless, and when main returns it has told, in this order, what
  it expects, that it created and joined both threads, and that the total count is right.\<close>

theorem mutex_program_ends:
  assumes "steps prog_step (mutex_program tid n) p"
  shows "(\<exists>q. steps prog_step p q \<and> main_left q = []) \<and>
    \<not> (\<exists>f. f 0 = p \<and> (\<forall>i. prog_step (f i) (f (Suc i)))) \<and>
    (main_left p = [] \<longrightarrow> told p = [expected_line n] @ created_lines tid @ joined_lines tid @
       [ok_line (unat (of_nat (2 * n) :: u32)) @ [CHR 0x1B] @ ''[0m'' @ [LF]])"
proof -
  have inv: "prog_inv (2 * n) (mutex_main tid n) p" by (rule prog.inv_steps [OF assms prog_inv_mutex])
  have "\<not> (\<exists>f. f 0 = p \<and> (\<forall>i. prog_step (f i) (f (Suc i))))"
    using prog.no_endless_run [of "2 * n" "mutex_main tid n"] inv by blast
  moreover have "main_left p = [] \<Longrightarrow> told p = tells (of_nat (2 * n)) (mutex_main tid n)"
    using inv by (simp add: prog_inv_def)
  ultimately show ?thesis
    using prog.can_finish [OF inv] verdict_ok [of n] by (auto simp: mutex_main_def two_threads_def)
qed

theorem mutex_program_ends_witness:
  "\<exists>q. steps prog_step (mutex_program (\<lambda>_. ''0x1'') 3) q \<and> main_left q = [] \<and> last (told q) = ok_line 6 @ [CHR 0x1B] @ ''[0m'' @ [LF]"
proof -
  note ends = mutex_program_ends [of "\<lambda>_. ''0x1''" 3]
  obtain q where q: "steps prog_step (mutex_program (\<lambda>_. ''0x1'') 3) q" "main_left q = []"
    using ends [OF steps.Refl] by blast
  with ends [OF q(1)] show ?thesis by auto
qed

text \<open>Without the mutex the program may tell an error.\<close>

lemma shared_program_may_err:
  assumes "0 < n" and "n < 2 ^ 31"
  shows "\<exists>q. steps prog_step (shared_program tid n) q \<and> main_left q = [] \<and>
    last (told q) = [CHR 0x1B] @ ''[31mMain: ERROR ! Total count is '' @ nat_str n @ [CHR 0x1B] @ ''[0m'' @ [LF]"
proof -
  obtain k where k: "n = Suc k" using assms(1) by (cases n) auto
  obtain m "is" where m: "run is (start [shared_routine n, shared_routine n]) = Some m" "finished m" "machine.count m = of_nat n"
    using shared_schedule [of k] unfolding k by blast
  have u: "unat (of_nat n :: u32) = n" using assms(2) by (simp add: unat_of_nat)
  have "unat (of_nat (2 * n) :: u32) = 2 * n" unfolding unat_of_nat using assms(2) by simp
  then have "(of_nat n :: u32) \<noteq> of_nat (2 * n)" using u assms(1) by (metis mult_2 nat_add_left_cancel_less add_0_right less_not_refl)
  then have v: "verdict (2 * n) (of_nat n) = [CHR 0x1B] @ ''[31mMain: ERROR ! Total count is '' @ nat_str n @ [CHR 0x1B] @ ''[0m'' @ [LF]"
    using u by (simp add: verdict_def)
  have "steps prog_step (shared_program tid n) \<lparr>box = m, main_left = [], spawned = 2,
      told = [expected_line n] @ created_lines tid @ joined_lines tid @ [verdict (2 * n) (machine.count m)]\<rparr>"
    unfolding shared_program_def shared_main_def
    by (rule steps_trans [OF program_run(2) [OF m(1,2)] counting_start])
  then show ?thesis using v by (intro exI conjI) (assumption, simp_all add: m(3))
qed

section \<open>Two locks\<close>

text \<open>Where the threads of \<open>deadlock.c\<close> are: both hold lock 1 while they use the counter.\<close>

definition places :: "nat \<Rightarrow> nat \<Rightarrow> machine \<Rightarrow> bool" where
  "places a b m \<longleftrightarrow> length (threads m) = 2 \<and>
     code (threads m ! 0) = drop a thread_1_routine \<and> code (threads m ! 1) = drop b thread_2_routine \<and>
     a \<le> 6 \<and> b \<le> 6 \<and> \<not> (1 \<le> a \<and> a \<le> 5 \<and> 2 \<le> b \<and> b \<le> 4) \<and>
     machine.owner m 1 = (if 1 \<le> a \<and> a \<le> 5 then Some 0 else if 2 \<le> b \<and> b \<le> 4 then Some 1 else None) \<and>
     machine.count m = (if 4 \<le> a then 1 else 0) + (if 4 \<le> b then 1 else 0) \<and>
     (a = 3 \<longrightarrow> reg (threads m ! 0) = machine.count m) \<and> (b = 3 \<longrightarrow> reg (threads m ! 1) = machine.count m)"

lemma places_step_0: "places a b m \<Longrightarrow> step_thread 0 m = Some m' \<Longrightarrow> places (a + 1) b m'"
proof -
  assume p: "places a b m" and st: "step_thread 0 m = Some m'"
  from p have "a \<le> 6" by (simp add: places_def)
  then consider "a = 0" | "a = 1" | "a = 2" | "a = 3" | "a = 4" | "a = 5" | "a = 6" by linarith
  then show ?thesis
    using p st by cases
      (auto simp: places_def step_thread_def set_thread_def thread_1_routine_def Let_def nth_list_update split: if_splits)
qed

lemma places_step_1: "places a b m \<Longrightarrow> step_thread 1 m = Some m' \<Longrightarrow> places a (b + 1) m'"
proof -
  assume p: "places a b m" and st: "step_thread 1 m = Some m'"
  from p have "b \<le> 6" by (simp add: places_def)
  then consider "b = 0" | "b = 1" | "b = 2" | "b = 3" | "b = 4" | "b = 5" | "b = 6" by linarith
  then show ?thesis
    using p st by cases
      (auto simp: places_def step_thread_def set_thread_def thread_2_routine_def Let_def nth_list_update split: if_splits)
qed

definition two_locks :: "machine \<Rightarrow> bool" where
  "two_locks m \<longleftrightarrow> (\<exists>a b. places a b m)"

lemma two_locks_step: "two_locks m \<Longrightarrow> step_thread i m = Some m' \<Longrightarrow> two_locks m'"
proof -
  assume p: "two_locks m" and st: "step_thread i m = Some m'"
  then have "i < 2" using step_thread_keeps(2) [OF st] by (auto simp: two_locks_def places_def)
  then have "i = 0 \<or> i = 1" by linarith
  with p st places_step_0 places_step_1 show ?thesis unfolding two_locks_def by blast
qed

lemma two_locks_finished:
  assumes "two_locks m" and "finished m"
  shows "machine.count m = 2"
proof -
  obtain a b where p: "places a b m" using assms(1) by (auto simp: two_locks_def)
  have "code (threads m ! i) = []" if "i < 2" for i
    using assms(2) p that by (simp add: finished_def places_def)
  from this [of 0] this [of 1] p show ?thesis
    by (auto simp: places_def thread_1_routine_def thread_2_routine_def)
qed

text \<open>As for the mutex, but nothing is said about progress.\<close>

definition pair_inv :: "main_action list \<Rightarrow> program \<Rightarrow> bool" where
  "pair_inv main p \<longleftrightarrow> two_locks (box p) \<and> waiting_ok p \<and> told p @ tells 2 (main_left p) = tells 2 main"

lemma pair_inv_step:
  assumes inv: "pair_inv main p" and "prog_step p q"
  shows "pair_inv main q"
proof -
  have w: "waiting_ok q" by (rule waiting_ok_step [OF _ assms(2)]) (use inv in \<open>simp add: pair_inv_def\<close>)
  from assms(2) show ?thesis
  proof (cases rule: prog_step.cases)
    case (Main_Judge f cs)
    then have "machine.count (box p) = 2"
      using inv judged_finished [OF _ Main_Judge(2)] by (auto simp: pair_inv_def intro: two_locks_finished)
    with inv w Main_Judge show ?thesis by (auto simp: pair_inv_def)
  qed (use inv w in \<open>auto simp: pair_inv_def intro: two_locks_step\<close>)
qed

interpretation pair: step_invariant prog_step "pair_inv main" for main
  by unfold_locales (rule pair_inv_step)

lemma pair_inv_start: "pair_inv (deadlock_main tid) (deadlock_program tid)"
proof -
  have "places 0 0 (start [thread_1_routine, thread_2_routine])"
    by (simp add: places_def start_def thread_1_routine_def thread_2_routine_def)
  then show ?thesis
    by (auto simp: pair_inv_def two_locks_def waiting_ok_def deadlock_program_def boot_def start_def deadlock_main_def
        two_threads_def less_Suc_eq numeral_2_eq_2 intro!: exI [of _ "{}"] exI [of _ 0])
qed

text \<open>The deadlock program as a whole: a run that comes to its end tells the right count, and there is one; but
  there is a run after which main has told that it created its threads and no thread, main included, can ever
  move again.\<close>

lemma deadlock_program_blocks:
  "(\<forall>p. steps prog_step (deadlock_program tid) p \<and> main_left p = [] \<longrightarrow>
      told p = created_lines tid @ joined_lines tid @ [ok_line 2 @ [LF]]) \<and>
   (\<exists>p. steps prog_step (deadlock_program tid) p \<and> main_left p = []) \<and>
   (\<exists>p. steps prog_step (deadlock_program tid) p \<and> told p = created_lines tid \<and> main_left p \<noteq> [] \<and> (\<forall>q. \<not> prog_step p q))"
proof (intro conjI allI impI)
  have "int_str (sint (2 :: u32)) = nat_str 2" by (simp add: int_str_def)
  then have verdict: "deadlock_verdict 2 = ok_line 2 @ [LF]" by (simp add: deadlock_verdict_def ok_line_def)
  fix p assume "steps prog_step (deadlock_program tid) p \<and> main_left p = []"
  then have p: "steps prog_step (deadlock_program tid) p" "main_left p = []" by simp_all
  have "told p = tells 2 (deadlock_main tid)" using pair.inv_steps [OF p(1) pair_inv_start] p(2) by (simp add: pair_inv_def)
  then show "told p = created_lines tid @ joined_lines tid @ [ok_line 2 @ [LF]]"
    by (simp add: deadlock_main_def two_threads_def verdict)
next
  have boot: "deadlock_program tid = \<lparr>box = start [thread_1_routine, thread_2_routine],
      main_left = two_threads tid @ [Judge deadlock_verdict], spawned = 0, told = []\<rparr>"
    by (simp add: deadlock_program_def deadlock_main_def boot_def)
  obtain m where "run (replicate 6 0 @ replicate 6 (Suc 0)) (start [thread_1_routine, thread_2_routine]) = Some m" "finished m"
    by (simp add: start_def thread_1_routine_def thread_2_routine_def step_thread_def set_thread_def
        finished_def Let_def numeral_eq_Suc)
  from program_run(2) [OF this, of tid deadlock_verdict "[]"]
  show "\<exists>p. steps prog_step (deadlock_program tid) p \<and> main_left p = []"
    unfolding boot by (intro exI conjI) (assumption, simp)
  have s: "run [0, Suc 0] (start [thread_1_routine, thread_2_routine]) = Some blocked"
    by (simp add: blocked_def start_def thread_1_routine_def thread_2_routine_def step_thread_def set_thread_def Let_def)
  let ?p = "\<lparr>box = blocked, main_left = waiting tid deadlock_verdict, spawned = 2, told = created_lines tid\<rparr>"
  have "\<not> prog_step ?p q" for q
    using stuck_blocked by (auto elim!: prog_stepE simp: stuck_def) (simp add: blocked_def thread_1_routine_def)
  with program_run(1) [OF s, of tid deadlock_verdict "[]"]
  show "\<exists>p. steps prog_step (deadlock_program tid) p \<and> told p = created_lines tid \<and> main_left p \<noteq> [] \<and> (\<forall>q. \<not> prog_step p q)"
    unfolding boot by (intro exI [of _ ?p]) simp
qed

end
