(* ===== verification/Spec2Isabelle.thy ===== *)
theory Spec2Isabelle
  imports Redis_Props Redis_Clients Redis_Locks Servers Calculator Bitcask_Main Diff_LCS Uniq Cut Grep_Streams LB_Lessons Thread_Programs Shell_History Shell_Programs Web_Server Descriptors Pipe_Programs Raw_Input Stdio Test_Suite Redis_Memory Shell_Memory Redis_Deletions Counting_Programs
begin

text \<open>
  \<^bold>\<open>The program.\<close> The repository is a collection of independent systems programs in C with the studies that
  led to them: a clone of Redis (a server with a thread per client over a chained hash table), the store
  \<open>bitcask\<close> (a hash table with a text snapshot and an append-only log of checksummed records), a shell with a
  line editor, pipelines and history, a load balancer (with the stages it was built in), a web server, a
  calculator, and the tools \<open>uniq\<close>, \<open>cut\<close>, \<open>grep\<close> and \<open>diff\<close>. Only parts of the same program interact; the
  theories follow this. The list of the definitions with the lines they translate is kept beside the
  development.

  \<^bold>\<open>The library.\<close>
  \<^item> \<open>Prelude\<close>: the faults of C (\<open>cfault\<close>), results \<open>cfault + 'a\<close> and their sequencing \<open>ebind\<close>. Every function
    that can go wrong returns a result, so that undefined behaviour, \<open>exit\<close> and early returns are branches;
    the collection \<open>result_inv\<close> inverts a sequence that succeeded.
  \<^item> \<open>CLib\<close>: byte arrays as lists (a pointer is the rest of its array), C strings, \<open>strtol\<close>, \<open>snprintf\<close>, \<open>fgets\<close>,
    \<open>sscanf\<close> words, decimal printing, and their round trips.
  \<^item> \<open>Step_System\<close>: the contracts \<open>step_invariant\<close> and \<open>step_progress\<close> of concurrent components (an invariant
    along every interleaving; a measure and the absence of blocking, from which every run ends) and
    \<open>record_stream\<close> of formats read record by record.
  \<^item> \<open>Blocks\<close>: \<open>malloc\<close> and \<open>free\<close> over an explicit set of live blocks, and \<open>turns\<close>, by which a function with its allocations
    is shown to do what the function on values does and to own exactly the blocks its result is made of.
  \<^item> \<open>KV_Spec\<close>, \<open>Hash_Chain\<close>: the contracts \<open>kv_store\<close> and \<open>kv_store_del\<close> of the tables, and the chains both hash
    tables are made of.

  Each contract is interpreted where a component provides it: \<open>kv_store\<close> by \<open>Bitcask_DB\<close> and, with removal, by
  \<open>Redis_DB\<close>; \<open>step_invariant\<close> by \<open>Load_Balancer\<close>, \<open>Redis_Clients\<close>, \<open>Redis_Deletions\<close> and \<open>Stdio\<close>; \<open>step_progress\<close> by \<open>Threads\<close>,
  \<open>Thread_Programs\<close>, \<open>Counting_Programs\<close> and \<open>Pipe_Programs\<close>; \<open>record_stream\<close> by the lines of \<open>CLib\<close> and the log of \<open>Bitcask_DB\<close>;
  \<open>locked_calls\<close> (threads whose calls are bracketed by one lock, in \<open>Locked_Calls\<close>) by \<open>Redis_Locks\<close>;
  \<open>connection_handler\<close> and \<open>thread_server\<close> (what a server relies on of its handlers) by \<open>Servers\<close>.

  \<^bold>\<open>Redis clone\<close> (\<open>8. redis server/redis_clone/src\<close>). \<open>Redis_DB\<close> is \<open>db.c\<close>: the bucket array as a function from
  bucket to chain, entries with fields that may be unset, one definition per function with the outcomes of
  its allocations (\<open>alloc\<close>) and the clock as parameters; its lemmas refine the table to a map from keys to value
  and deadline. \<open>Redis_RESP\<close> is \<open>resp.c\<close> and the reply formatters of \<open>server.c\<close>, over the bytes of the buffer;
  \<open>parse_well_typed\<close> says what the parser hands out for any input. \<open>Redis_Server\<close> is \<open>exec_command\<close>, branch by
  branch, and the read loop \<open>per_client\<close>; both are refined to an abstract command machine on maps.
  \<open>Redis_Props\<close> has expiry, counters, runs of the store and what malformed or pipelined requests do.
  \<open>Redis_Clients\<close> is the accept loop with its threads as interleaved commands: one invariant for arbitrary
  bytes, and one sequential explanation of all replies for well-formed ones. \<open>Redis_Deletions\<close> is finer: one call of
  the store is a step, so that a \<open>DEL\<close> of several keys can be interrupted; the calls have one order, the commands
  need not. \<open>Redis_Memory\<close> has every allocation and release of a request: a connection leaves nothing
  behind. \<open>Test_Suite\<close> runs the
  repository's own tests on the models of the Redis clone, of \<open>lcs_lines\<close> and of the calculator.

  Below the table there is the heap. \<open>Redis_Heap\<close> has the entries of \<open>db.c\<close> as cells with pointers and every
  assignment, allocation and \<open>free\<close> of its functions as one step; \<open>Redis_Heap_Calls\<close> shows that each function, run
  step by step, does what the tables of \<open>Redis_DB\<close> do, and which allocation failures leak. \<open>Redis_API\<close> is
  \<open>db.h\<close> with its promise as an abstract operation. \<open>Locked_Calls\<close> is the lock: threads of calls, each step of which
  may be interleaved with the others, and the proof that calls which take the lock are serial.
  \<open>Redis_Locks\<close> joins the two: under \<open>db_lock\<close> every interleaving of the pointer steps is one order of
  the calls, while \<open>db_del\<close>, which takes no lock, can leave a freed entry in its bucket. (\<open>Threads\<close> has an earlier
  and coarser view of the same race.)

  \<^bold>\<open>Bitcask\<close> (\<open>96. bitcask\<close>). \<open>Bitcask_CRC\<close> is \<open>helper.c\<close> on 32-bit words: the table-driven checksum equals the
  bitwise one and detects bursts. \<open>Bitcask_DB\<close> is \<open>db.c\<close>: the table, saving and loading through a map of files,
  opening the log, and the append with partial and failing writes; a run of appends decodes to its
  records and every returned offset stays valid. \<open>Bitcask_Main\<close> is the program: runs of it that open, append and
  close extend one log.

  \<^bold>\<open>Shell\<close> (\<open>14. shell\<close>). \<open>Shell_Parse\<close> splits command lines, \<open>Shell_Edit\<close> is the raw-mode editor with its history
  and the bytes it writes, to which a small terminal gives their meaning, \<open>Shell\<close> has the history file, \<open>cd\<close>,
  the descriptors of a pipeline and the main loop; \<open>Shell_History\<close> has the history functions on the files and
  their paths and shows that they implement the history of \<open>Shell\<close>; \<open>Shell_Memory\<close> has the allocations of a turn of
  the main loop and counts what is lost; \<open>Shell_Programs\<close> is \<open>ls\<close> and \<open>pwd\<close>.

  \<^bold>\<open>Load balancer\<close> (\<open>5. load balancer/theories/lessons\<close>). \<open>Load_Balancer\<close> is \<open>lb.c\<close> and \<open>backend.c\<close>: configuration, the
  picker, health rounds, relaying with partial sends, and workers and health thread interleaved.
  \<open>LB_Lessons\<close> are the earlier stages; lesson 6 is \<open>lb.c\<close> with a fixed configuration.

  \<^bold>\<open>Connections.\<close> \<open>Sockets\<close> is a process with its descriptor table, and a script of what the kernel and the peers
  answer to its calls; a program is a function of the two that returns, ends the process, waits for a peer that
  never answers, or faults. \<open>Servers\<close> has the main functions of the load balancer and its lessons, of the socket
  lessons, the Redis server and the web server, from \<open>socket\<close> to the accept loop: for every script the descriptors
  are accounted for, in parents, children and threads.

  \<^bold>\<open>Other programs.\<close> \<open>Calculator\<close> (\<open>7. calculator\<close>),
  \<open>Web_Server\<close> (\<open>11. web server\<close>), \<open>Uniq\<close>, \<open>Cut\<close>,
  \<open>Grep\<close> (with \<open>Grep_Streams\<close>, the descriptors of its recursive listing),
  \<open>Diff_LCS\<close> (the directories of these names), and the studies under \<open>theories/c\<close>:
  \<open>Threads\<close> (mutex, lost updates, deadlock, and the unlocked deletion of the Redis store),
  \<open>Counting_Programs\<close> (the same three programs from the start of their main functions),
  \<open>Descriptors\<close> (descriptor table, open files and files), \<open>Pipe_Programs\<close> (parent and
  child over a pipe; a fixed pipeline, compared with the shell's), \<open>Raw_Input\<close> (a raw-mode reader;
  a function re-entered from a signal handler), \<open>Thread_Programs\<close> (threads that are created, joined
  and detached: what is said by the end, in every interleaving) and \<open>Stdio\<close> (the buffer of
  \<open>stdout\<close> on terminals and pipes, across \<open>fork\<close>, \<open>exec\<close> and
  \<open>_exit\<close>, and a signal handler that blocks another signal).

  \<^bold>\<open>Kinds of lemmas.\<close> Refinement to an abstract machine or map (Redis, bitcask table, editor), exact outputs
  (calculator, tools, web server, load balancer), invariants over interleavings, round trips (snapshot, log,
  history), equivalences (checksum, lessons, pipelines), termination and progress, and the inputs on which the
  code faults or deviates from its comments; the latter are theorems about the model, not remarks.

  \<^bold>\<open>Parameters.\<close> Allocation outcomes, the clock, the network (\<open>dial\<close>: what a peer answers), results of \<open>send\<close> and
  \<open>write\<close>, \<open>chdir\<close>, \<open>opendir\<close>, \<open>fopen\<close>, descriptor and pipe numbers, and the arithmetic of \<open>double\<close> are arguments of
  the definitions. Properties assume of them only what they state; their witnesses use concrete functions.

  \<^bold>\<open>Bounds and fuel.\<close> Sizes of arrays are kept as guards (requests of 1023 bytes, keys and lines up to their
  buffers, 1001 rows of the diff table, 64 backends, 1000 history lines). Loops are structural or have a
  measure. Fuel occurs in the recursive listing of \<open>Grep\<close>, where the depth of the tree is enough, and in
  \<open>ls\<close>, where three calls are; \<open>eval_loop\<close> of the calculator and \<open>raw_loop\<close> are partial functions because the
  code can run for ever. Words are 32 and 64 bits wide where the code wraps (hashes, checksums, deadlines,
  counters); \<open>int\<close> and \<open>long\<close> are integers with explicit conversion and overflow faults.

  \<^bold>\<open>Not modelled.\<close> Failing allocations outside the store (the blocks of requests and of the shell are there, but
  \<open>malloc\<close> succeeds). What an executed program does, and most of what is printed to the operator's terminal; the
  signal dispositions of the servers; \<open>build_lcs_table\<close> of the diff tool and \<open>test_theories.c\<close>, which do not compile;
  \<open>lcs_word\<close>, which is declared but nowhere defined; \<open>r_set.c\<close> and \<open>main.c\<close> of the load balancer, which are empty;
  \<open>wc\<close>, a script, and the Go exercises. In \<open>Servers\<close> a
  worker thread is one step, the finer interleavings of the workers being those of \<open>Load_Balancer\<close> and
  \<open>Redis_Clients\<close>.
\<close>

end
